(* ===== verification/KP_Prelude.thy ===== *)
theory KP_Prelude
  imports
    Main
    "HOL-Library.Multiset"
    "HOL-Library.Char_ord"
    "HOL-Library.List_Lexorder"
    "HOL-Library.Product_Lexorder"
    "HOL-Library.Word"
    "HOL-Library.Code_Target_Numeral"
begin

text \<open>
  Shared material of the KeepPeek development: the machine integers and the monotonic clock
  of the Rust sources, ordered maps (\<open>BTreeMap\<close>), the interfaces that several components use
  (a keyed map, a state machine with an invariant), and the generic lemmas on lists and
  multisets that the component proofs share.

  \<^item> \<open>usize\<close> and \<open>u64\<close> are naturals below \<open>2 ^ 64\<close>; every operation that can leave the range
    says what the source does there: wrap (\<open>fetch_add\<close>, \<open>fetch_sub\<close>), saturate
    (\<open>saturating_add\<close>) or fail (\<open>checked_add\<close>).
  \<^item> \<open>i64\<close> is an integer between \<open>i64_min\<close> and \<open>i64_max\<close>.
  \<^item> \<open>Instant\<close> counts nanoseconds of the monotonic clock from its epoch, \<open>Duration\<close>
    nanoseconds. \<open>Instant::checked_add\<close> fails past the last second of a signed 64-bit
    \<open>timespec\<close>.
  \<^item> \<open>String\<close> and \<open>&str\<close> are byte strings; their order is the lexicographic order of the bytes
    (\<open>List_Lexorder\<close> over \<open>Char_ord\<close>), and \<open>len\<close> counts bytes.
\<close>

named_theorems machine_arith \<open>definitions of the fixed-width operations\<close>
named_theorems record_splits \<open>case splits the component proofs share\<close>

section \<open>Fixed-width integers and time\<close>

type_synonym usize = nat
type_synonym u64 = nat
type_synonym i64 = int
type_synonym instant = nat
type_synonym duration = nat
type_synonym byte = "8 word"

definition u64_max :: nat where
  "u64_max = 2 ^ 64 - 1"

definition i64_max :: int where
  "i64_max = 2 ^ 63 - 1"

definition i64_min :: int where
  "i64_min = - (2 ^ 63)"

definition checked_add_u64 :: "nat \<Rightarrow> nat \<Rightarrow> nat option" where
  [machine_arith]: "checked_add_u64 a b = (if a + b \<le> u64_max then Some (a + b) else None)"

definition saturating_add_u64 :: "nat \<Rightarrow> nat \<Rightarrow> nat" where
  [machine_arith]: "saturating_add_u64 a b = min (a + b) u64_max"

definition saturating_mul_u64 :: "nat \<Rightarrow> nat \<Rightarrow> nat" where
  [machine_arith]: "saturating_mul_u64 a b = min (a * b) u64_max"

text \<open>Subtraction on naturals stops at zero, exactly as \<open>saturating_sub\<close> does.\<close>

definition saturating_sub_u64 :: "nat \<Rightarrow> nat \<Rightarrow> nat" where
  [machine_arith]: "saturating_sub_u64 a b = a - b"

definition wrapping_add_u64 :: "nat \<Rightarrow> nat \<Rightarrow> nat" where
  [machine_arith]: "wrapping_add_u64 a b = (a + b) mod 2 ^ 64"

definition wrapping_sub_u64 :: "nat \<Rightarrow> nat \<Rightarrow> nat" where
  [machine_arith]: "wrapping_sub_u64 a b = (a + (2 ^ 64 - b)) mod 2 ^ 64"

definition checked_add_i64 :: "int \<Rightarrow> int \<Rightarrow> int option" where
  [machine_arith]: "checked_add_i64 a b = (if i64_min \<le> a + b \<and> a + b \<le> i64_max then Some (a + b) else None)"

definition saturating_sub_i64 :: "int \<Rightarrow> int \<Rightarrow> int" where
  [machine_arith]: "saturating_sub_i64 a b = max i64_min (min i64_max (a - b))"

definition i64_in_range :: "int \<Rightarrow> bool" where
  "i64_in_range a \<longleftrightarrow> i64_min \<le> a \<and> a \<le> i64_max"

lemma wrapping_add_exact: "a + b \<le> u64_max \<Longrightarrow> wrapping_add_u64 a b = a + b"
  by (simp add: machine_arith u64_max_def)

lemma wrapping_sub_exact:
  assumes "b \<le> a" "a \<le> u64_max"
  shows "wrapping_sub_u64 a b = a - b"
proof -
  from assms have "a + (2 ^ 64 - b) = (a - b) + 2 ^ 64" and "a - b < 2 ^ 64"
    by (simp_all add: u64_max_def)
  then show ?thesis
    unfolding wrapping_sub_u64_def by (metis mod_add_self2 mod_less)
qed

definition instant_max :: nat where
  "instant_max = (2 ^ 63 - 1) * 1000000000 + 999999999"

definition checked_add_instant :: "instant \<Rightarrow> duration \<Rightarrow> instant option" where
  [machine_arith]: "checked_add_instant t d = (if t + d \<le> instant_max then Some (t + d) else None)"

definition saturating_duration_since :: "instant \<Rightarrow> instant \<Rightarrow> duration" where
  [machine_arith]: "saturating_duration_since later earlier = later - earlier"

definition from_secs :: "nat \<Rightarrow> duration" where
  "from_secs s = s * 1000000000"

definition as_millis :: "duration \<Rightarrow> nat" where
  "as_millis d = d div 1000000"

lemma checked_add_instant_Some:
  "checked_add_instant t d = Some e \<Longrightarrow> e = t + d"
  by (auto simp: machine_arith split: if_splits)

section \<open>Options and lists\<close>

text \<open>The question mark operator on results: an error on the left ends the function.\<close>

definition and_then :: "'e + 'a \<Rightarrow> ('a \<Rightarrow> 'e + 'b) \<Rightarrow> 'e + 'b" where
  "and_then x f = (case x of Inl e \<Rightarrow> Inl e | Inr v \<Rightarrow> f v)"

lemma and_then_simps [simp]: "and_then (Inl e) f = Inl e" "and_then (Inr v) f = f v"
  by (simp_all add: and_then_def)

lemma and_then_Inr: "and_then x f = Inr y \<longleftrightarrow> (\<exists>v. x = Inr v \<and> f v = Inr y)"
  by (cases x) auto

definition is_some_and :: "'a option \<Rightarrow> ('a \<Rightarrow> bool) \<Rightarrow> bool" where
  "is_some_and x p = (case x of None \<Rightarrow> False | Some v \<Rightarrow> p v)"

definition is_none_or :: "'a option \<Rightarrow> ('a \<Rightarrow> bool) \<Rightarrow> bool" where
  "is_none_or x p = (case x of None \<Rightarrow> True | Some v \<Rightarrow> p v)"

lemma is_some_and_simps [simp]:
  "is_some_and None p = False"
  "is_some_and (Some v) p = p v"
  by (simp_all add: is_some_and_def)

lemma is_none_or_simps [simp]:
  "is_none_or None p = True"
  "is_none_or (Some v) p = p v"
  by (simp_all add: is_none_or_def)

lemma is_some_and_iff: "is_some_and x p \<longleftrightarrow> (\<exists>v. x = Some v \<and> p v)"
  by (cases x) auto

lemma is_none_or_iff: "is_none_or x p \<longleftrightarrow> (\<forall>v. x = Some v \<longrightarrow> p v)"
  by (cases x) auto

lemma filter_cong_mset: "mset xs = mset ys \<Longrightarrow> mset (filter p xs) = mset (filter p ys)"
  by simp

lemma sum_list_mset_cong:
  fixes f :: "'a \<Rightarrow> nat"
  assumes "mset xs = mset ys"
  shows "sum_list (map f xs) = sum_list (map f ys)"
proof -
  have "sum_mset (image_mset f (mset xs)) = sum_mset (image_mset f (mset ys))"
    using assms by simp
  then show ?thesis
    by (simp add: sum_mset_sum_list flip: mset_map)
qed

section \<open>Keyed maps\<close>

text \<open>
  What the components use of a keyed container: \<open>get\<close> reads a key, \<open>upd\<close> assigns through
  \<open>get_mut\<close> to a key that is present, \<open>entries\<close> lists the contents in iteration order,
  \<open>ok\<close> is the container's own invariant.
\<close>

locale keyed_map =
  fixes get :: "'m \<Rightarrow> 'k \<Rightarrow> 'v option"
    and upd :: "'k \<Rightarrow> 'v \<Rightarrow> 'm \<Rightarrow> 'm"
    and entries :: "'m \<Rightarrow> ('k \<times> 'v) list"
    and ok :: "'m \<Rightarrow> bool"
  assumes get_upd: "ok m \<Longrightarrow> get m k = Some u \<Longrightarrow>
      get (upd k v m) k' = (if k' = k then Some v else get m k')"
    and ok_upd: "ok m \<Longrightarrow> get m k = Some u \<Longrightarrow> ok (upd k v m)"
    and entries_get: "ok m \<Longrightarrow> (k, v) \<in> set (entries m) \<longleftrightarrow> get m k = Some v"
    and distinct_entries: "ok m \<Longrightarrow> distinct (entries m)"
begin

lemma mset_entries: "ok m \<Longrightarrow> mset (entries m) = mset_set (set (entries m))"
  by (simp add: distinct_entries mset_set_set)

lemma entries_upd:
  assumes "ok m" "get m k = Some v"
  shows "set (entries (upd k w m)) = insert (k, w) (set (entries m) - {(k, v)})"
  using assms by (auto simp: entries_get ok_upd get_upd split: if_splits)

lemma upd_over:
  assumes "ok m" "get m k = Some v"
  shows "add_mset (k, v) (mset (entries (upd k w m))) = add_mset (k, w) (mset (entries m))"
proof -
  have "(k, v) \<in> set (entries m)" and "(k, w) \<notin> set (entries m) - {(k, v)}"
    using assms by (auto simp: entries_get)
  then show ?thesis
    using assms by (simp add: mset_entries ok_upd entries_upd mset_set.insert mset_set.remove)
qed

lemma length_upd:
  assumes "ok m" "get m k = Some v"
  shows "length (entries (upd k w m)) = length (entries m)"
  using upd_over [OF assms, of w] by (metis size_add_mset size_mset nat.inject)

end

text \<open>A keyed map into which a key can be inserted.\<close>

locale insert_map = keyed_map get upd entries ok
  for get :: "'m \<Rightarrow> 'k \<Rightarrow> 'v option" and upd entries and ok :: "'m \<Rightarrow> bool" +
  fixes ins :: "'k \<Rightarrow> 'v \<Rightarrow> 'm \<Rightarrow> 'm"
  assumes get_ins: "ok m \<Longrightarrow> get (ins k v m) k' = (if k' = k then Some v else get m k')"
    and ok_ins: "ok m \<Longrightarrow> ok (ins k v m)"
begin

lemma ins_new:
  assumes "ok m" "get m k = None"
  shows "mset (entries (ins k w m)) = add_mset (k, w) (mset (entries m))"
proof -
  have "set (entries (ins k w m)) = insert (k, w) (set (entries m))"
    using assms by (auto simp: entries_get ok_ins get_ins split: if_splits)
  moreover have "(k, w) \<notin> set (entries m)"
    using assms by (simp add: entries_get)
  ultimately show ?thesis
    using assms by (simp add: mset_entries ok_ins)
qed

lemma length_ins_new:
  assumes "ok m" "get m k = None"
  shows "length (entries (ins k w m)) = Suc (length (entries m))"
  using ins_new [OF assms, of w] by (metis size_add_mset size_mset)

lemma entries_ins_cases:
  "ok m \<Longrightarrow> (k', v') \<in> set (entries (ins k v m)) \<Longrightarrow>
     (k', v') = (k, v) \<or> (k', v') \<in> set (entries m)"
  by (auto simp: entries_get ok_ins get_ins split: if_splits)

end

text \<open>A keyed map that can also forget a key.\<close>

locale removable_map = insert_map get upd entries ok ins
  for get :: "'m \<Rightarrow> 'k \<Rightarrow> 'v option" and upd entries and ok :: "'m \<Rightarrow> bool" and ins +
  fixes del :: "'k \<Rightarrow> 'm \<Rightarrow> 'm"
  assumes get_del: "ok m \<Longrightarrow> get (del k m) k' = (if k' = k then None else get m k')"
    and ok_del: "ok m \<Longrightarrow> ok (del k m)"
begin

lemma del_present:
  assumes "ok m" "get m k = Some v"
  shows "mset (entries m) = add_mset (k, v) (mset (entries (del k m)))"
proof -
  have "set (entries m) = insert (k, v) (set (entries (del k m)))"
    using assms by (auto simp: entries_get ok_del get_del split: if_splits)
  moreover have "(k, v) \<notin> set (entries (del k m))"
    using assms by (simp add: entries_get ok_del get_del)
  ultimately show ?thesis
    using assms by (simp add: mset_entries ok_del)
qed

lemma entries_del_sub:
  "ok m \<Longrightarrow> (k', v') \<in> set (entries (del k m)) \<Longrightarrow> (k', v') \<in> set (entries m)"
  by (auto simp: entries_get ok_del get_del split: if_splits)

end

section \<open>BTreeMap\<close>

text \<open>
  A \<open>BTreeMap\<close> as the list of its entries in key order. \<open>bt_insert\<close> is \<open>insert\<close>,
  \<open>bt_update\<close> an assignment through \<open>get_mut\<close>; iteration is the list itself.
\<close>

type_synonym ('k, 'v) btree = "('k \<times> 'v) list"

definition bt_get :: "('k, 'v) btree \<Rightarrow> 'k \<Rightarrow> 'v option" where
  "bt_get m k = map_of m k"

fun bt_insert :: "'k::linorder \<Rightarrow> 'v \<Rightarrow> ('k, 'v) btree \<Rightarrow> ('k, 'v) btree" where
  "bt_insert k v [] = [(k, v)]"
| "bt_insert k v ((k', v') # m) =
     (if k < k' then (k, v) # (k', v') # m
      else if k = k' then (k, v) # m
      else (k', v') # bt_insert k v m)"

fun bt_update :: "'k \<Rightarrow> 'v \<Rightarrow> ('k, 'v) btree \<Rightarrow> ('k, 'v) btree" where
  "bt_update k v [] = []"
| "bt_update k v ((k', v') # m) = (if k = k' then (k, v) # m else (k', v') # bt_update k v m)"

definition bt_remove :: "'k \<Rightarrow> ('k, 'v) btree \<Rightarrow> ('k, 'v) btree" where
  "bt_remove k m = filter (\<lambda>e. fst e \<noteq> k) m"

definition bt_entries :: "('k, 'v) btree \<Rightarrow> ('k \<times> 'v) list" where
  [simp]: "bt_entries m = m"

definition bt_ok :: "('k::linorder, 'v) btree \<Rightarrow> bool" where
  "bt_ok m \<longleftrightarrow> sorted_wrt (<) (map fst m)"

lemma set_bt_insert_keys: "fst ` set (bt_insert k v m) = insert k (fst ` set m)"
proof (induction m)
  case (Cons e m)
  then show ?case by (cases e) (simp add: insert_commute)
qed simp

lemma keys_bt_update [simp]: "map fst (bt_update k v m) = map fst m"
  by (induction k v m rule: bt_update.induct) auto

lemma bt_ok_Nil [simp]: "bt_ok []"
  by (simp add: bt_ok_def)

lemma bt_ok_Cons: "bt_ok ((k, v) # m) \<longleftrightarrow> (\<forall>k' \<in> fst ` set m. k < k') \<and> bt_ok m"
  by (simp add: bt_ok_def)

lemma bt_ok_insert: "bt_ok m \<Longrightarrow> bt_ok (bt_insert k v m)"
proof (induction m)
  case (Cons e m)
  then show ?case
    by (cases e) (fastforce simp: bt_ok_Cons set_bt_insert_keys)
qed (simp add: bt_ok_Cons)

lemma bt_ok_update: "bt_ok m \<Longrightarrow> bt_ok (bt_update k v m)"
  by (simp add: bt_ok_def)

lemma bt_ok_remove: "bt_ok m \<Longrightarrow> bt_ok (bt_remove k m)"
  by (induction m) (auto simp: bt_ok_Cons bt_remove_def)

lemma bt_get_insert: "bt_get (bt_insert k v m) k' = (if k' = k then Some v else bt_get m k')"
  by (induction m) (auto simp: bt_get_def)

lemma bt_get_update:
  "bt_get (bt_update k v m) k' =
     (if k' = k then (if bt_get m k = None then None else Some v) else bt_get m k')"
  by (induction k v m rule: bt_update.induct) (auto simp: bt_get_def)

lemma bt_get_remove: "bt_get (bt_remove k m) k' = (if k' = k then None else bt_get m k')"
  by (induction m) (auto simp: bt_get_def bt_remove_def)

lemma bt_ok_distinct: "bt_ok m \<Longrightarrow> distinct (map fst m)"
  by (simp add: bt_ok_def strict_sorted_iff)

interpretation bt: removable_map bt_get bt_update bt_entries bt_ok bt_insert bt_remove
proof unfold_locales
  fix m :: "('a::linorder, 'b) btree" and k v
  show "bt_ok m \<Longrightarrow> (k, v) \<in> set (bt_entries m) \<longleftrightarrow> bt_get m k = Some v"
    by (simp add: bt_get_def bt_ok_distinct)
  show "bt_ok m \<Longrightarrow> distinct (bt_entries m)"
    using bt_ok_distinct [of m] by (simp add: distinct_map)
qed (simp_all add: bt_get_insert bt_get_update bt_ok_insert bt_ok_update bt_get_remove bt_ok_remove)

lemma bt_get_Nil [simp]: "bt_get [] k = None"
  by (simp add: bt_get_def)

lemma bt_ok_filter: "bt_ok m \<Longrightarrow> bt_ok (filter p m)"
  by (simp add: bt_ok_def sorted_wrt_map sorted_wrt_filter)

lemma bt_get_filter:
  "bt_ok m \<Longrightarrow> bt_get (filter p m) k = (case bt_get m k of None \<Rightarrow> None | Some x \<Rightarrow> if p (k, x) then Some x else None)"
proof (induction m)
  case (Cons e m)
  obtain k' v where e: "e = (k', v)" by fastforce
  have "bt_get m k' = None" using Cons.prems by (auto simp: e bt_ok_Cons bt_get_def map_of_eq_None_iff)
  with Cons show ?case by (auto simp: e bt_ok_Cons bt_get_def split: option.split)
qed simp

lemma length_bt_insert: "bt_ok m \<Longrightarrow> length (bt_insert k v m) = (if bt_get m k = None then Suc (length m) else length m)"
proof (induction m)
  case (Cons e m)
  obtain k' v' where e: "e = (k', v')" by fastforce
  have "bt_get m k = None" if "k < k'"
    using Cons.prems that by (auto simp: e bt_ok_Cons bt_get_def map_of_eq_None_iff)
  with Cons show ?case by (auto simp: e bt_ok_Cons bt_get_def)
qed simp

lemma sum_bt_update:
  fixes f :: "'k \<times> 'v \<Rightarrow> nat"
  assumes "bt_get m k = Some u"
  shows "sum_list (map f (bt_update k v m)) + f (k, u) = sum_list (map f m) + f (k, v)"
  using assms by (induction k v m rule: bt_update.induct) (auto simp: bt_get_def split: if_splits)

section \<open>State machines\<close>

text \<open>
  A component is a deterministic machine: \<open>step\<close> applies one operation to its state. An
  invariant that one step keeps holds after every sequence of operations.
\<close>

locale machine =
  fixes step :: "'s \<Rightarrow> 'o \<Rightarrow> 's"
    and inv :: "'s \<Rightarrow> bool"
  assumes step_inv: "inv s \<Longrightarrow> inv (step s x)"
begin

lemma run_inv: "inv s \<Longrightarrow> inv (foldl step s xs)"
  by (induction xs arbitrary: s) (simp_all add: step_inv)

end

end
