(* ===== verification/Media_Frame.thy ===== *)
theory Media_Frame
  imports KP_Prelude
begin

text \<open>
  The data every recorder component exchanges: encoded frames (\<open>src/src/storage/frame.rs\<close>),
  received frames (\<open>segment.rs\<close>), stream identities (\<open>identity.rs\<close>), the camera
  recording modes (\<open>src/src/cameras/mod.rs\<close>) and the conversion between durations and media
  timescale ticks (\<open>src/src/media_time.rs\<close>), with the round trip of that conversion.
\<close>

section \<open>Frames\<close>

datatype VideoCodec = H264 | H265

datatype AudioCodec = Aac | G711Alaw | G711Ulaw | Adpcm

definition default_sample_rate :: "AudioCodec \<Rightarrow> nat" where
  "default_sample_rate c =
     (case c of Aac \<Rightarrow> 16000 | G711Alaw \<Rightarrow> 8000 | G711Ulaw \<Rightarrow> 8000 | Adpcm \<Rightarrow> 8000)"

record VideoFrame =
  v_codec :: VideoCodec
  v_is_keyframe :: bool
  v_width :: nat
  v_height :: nat
  v_data :: "byte list"

record AudioFrame =
  a_codec :: AudioCodec
  a_sample_rate :: nat
  a_duration :: duration
  a_data :: "byte list"

datatype MediaFrame = Video VideoFrame | Audio AudioFrame

fun media_byte_len :: "MediaFrame \<Rightarrow> usize" where
  "media_byte_len (Video v) = length (v_data v)"
| "media_byte_len (Audio a) = length (a_data a)"

fun media_is_video_keyframe :: "MediaFrame \<Rightarrow> bool" where
  "media_is_video_keyframe (Video v) = v_is_keyframe v"
| "media_is_video_keyframe (Audio a) = False"

fun media_is_video :: "MediaFrame \<Rightarrow> bool" where
  "media_is_video (Video v) = True"
| "media_is_video (Audio a) = False"

fun media_is_audio :: "MediaFrame \<Rightarrow> bool" where
  "media_is_audio (Video v) = False"
| "media_is_audio (Audio a) = True"

record RecordingFrame =
  received_at :: instant
  timestamp :: "duration option"
  media :: MediaFrame

definition byte_len :: "RecordingFrame \<Rightarrow> usize" where
  "byte_len f = media_byte_len (media f)"

definition is_video_keyframe :: "RecordingFrame \<Rightarrow> bool" where
  "is_video_keyframe f = media_is_video_keyframe (media f)"

abbreviation is_video :: "RecordingFrame \<Rightarrow> bool" where
  "is_video f \<equiv> media_is_video (media f)"

abbreviation is_audio :: "RecordingFrame \<Rightarrow> bool" where
  "is_audio f \<equiv> media_is_audio (media f)"

text \<open>The end of an audio packet, when the clock can represent it.\<close>

definition audio_end :: "RecordingFrame \<Rightarrow> AudioFrame \<Rightarrow> instant option" where
  "audio_end f a = checked_add_instant (received_at f) (a_duration a)"

lemma keyframe_is_video: "is_video_keyframe f \<Longrightarrow> is_video f"
  by (cases "media f") (simp_all add: is_video_keyframe_def)

lemma not_video_is_audio: "\<not> is_video f \<longleftrightarrow> (\<exists>a. media f = Audio a)"
  by (cases "media f") auto

section \<open>Stream identities and recording modes\<close>

record RecordingStreamIdentity =
  source_id :: string
  stream_id :: string
  storage_key :: string

text \<open>\<open>str::rsplit_once('/')\<close>: the parts before and after the last slash.\<close>

fun rsplit_once_slash :: "string \<Rightarrow> (string \<times> string) option" where
  "rsplit_once_slash [] = None"
| "rsplit_once_slash (c # cs) =
     (case rsplit_once_slash cs of
        Some (l, r) \<Rightarrow> Some (c # l, r)
      | None \<Rightarrow> if c = CHR ''/'' then Some ([], cs) else None)"

definition identity_new :: "string \<Rightarrow> string \<Rightarrow> string \<Rightarrow> RecordingStreamIdentity" where
  "identity_new source stream storage_label =
     \<lparr>source_id = source, stream_id = stream, storage_key = storage_label @ ''/'' @ stream\<rparr>"

definition identity_legacy :: "string \<Rightarrow> RecordingStreamIdentity" where
  "identity_legacy key =
     (case rsplit_once_slash key of
        None \<Rightarrow> \<lparr>source_id = key, stream_id = ''main'', storage_key = key\<rparr>
      | Some (source, stream) \<Rightarrow> \<lparr>source_id = source, stream_id = stream, storage_key = key\<rparr>)"

definition with_recording_stream :: "RecordingStreamIdentity \<Rightarrow> string \<Rightarrow> RecordingStreamIdentity" where
  "with_recording_stream i stream =
     (let storage_label = (case rsplit_once_slash (storage_key i) of
                             None \<Rightarrow> storage_key i
                           | Some (label, _) \<Rightarrow> label)
      in i\<lparr>storage_key := storage_label @ ''/'' @ stream, stream_id := stream\<rparr>)"

datatype CameraRecordingMode = Off | Sub | Main | Both | EventBoost | EventOnly

datatype EventRecordingStream = StreamSub | StreamMain

lemma rsplit_once_slash_None: "rsplit_once_slash s = None \<longleftrightarrow> CHR ''/'' \<notin> set s"
  by (induction s) (auto split: option.splits)

lemma rsplit_once_slash_join:
  "CHR ''/'' \<notin> set r \<Longrightarrow> rsplit_once_slash (l @ CHR ''/'' # r) = Some (l, r)"
  using rsplit_once_slash_None [of r] by (induction l) auto

lemma rsplit_once_slash_Some:
  "rsplit_once_slash s = Some (l, r) \<Longrightarrow> s = l @ CHR ''/'' # r \<and> CHR ''/'' \<notin> set r"
proof (induction s arbitrary: l)
  case (Cons c s)
  then show ?case
    by (auto simp: rsplit_once_slash_None split: option.splits if_splits)
qed simp

lemma with_recording_stream_new:
  "CHR ''/'' \<notin> set stream \<Longrightarrow>
   with_recording_stream (identity_new source stream label) stream' = identity_new source stream' label"
  by (simp add: with_recording_stream_def identity_new_def rsplit_once_slash_join)

section \<open>Durations and timescale ticks\<close>

definition duration_to_ticks :: "duration \<Rightarrow> nat \<Rightarrow> u64" where
  "duration_to_ticks d timescale =
     (let whole_seconds = saturating_mul_u64 (d div 1000000000) timescale;
          fractional = saturating_add_u64 (saturating_mul_u64 (d mod 1000000000) timescale) 500000000
                         div 1000000000
      in saturating_add_u64 whole_seconds fractional)"

definition ticks_to_duration :: "u64 \<Rightarrow> nat \<Rightarrow> duration" where
  "ticks_to_duration ticks timescale =
     (if timescale = 0 then 0
      else let seconds = ticks div timescale;
               remainder = ticks mod timescale;
               nanos = saturating_mul_u64 remainder 1000000000 div timescale
           in seconds * 1000000000 + (if nanos < 2 ^ 32 then nanos else 999999999))"

lemma ticks_nanos_exact:
  fixes r ts :: nat
  assumes "r < ts" "ts < 2 ^ 32"
  shows "saturating_mul_u64 r 1000000000 div ts = r * 1000000000 div ts"
    and "r * 1000000000 div ts < 1000000000"
proof -
  have "r * 1000000000 \<le> u64_max" using assms by (simp add: u64_max_def)
  then show "saturating_mul_u64 r 1000000000 div ts = r * 1000000000 div ts"
    by (simp add: machine_arith)
  have "r * 1000000000 < 1000000000 * ts" using assms by simp
  then show "r * 1000000000 div ts < 1000000000"
    by (simp add: less_mult_imp_div_less)
qed

lemma nearest_tick:
  fixes r ts :: nat
  assumes "r < ts" "ts \<le> 500000000"
  shows "(r * 1000000000 div ts * ts + 500000000) div 1000000000 = r"
proof -
  define q where "q = r * 1000000000 div ts"
  have up: "q * ts \<le> r * 1000000000" by (simp add: q_def)
  have "r * 1000000000 = q * ts + r * 1000000000 mod ts" by (simp add: q_def)
  moreover have "r * 1000000000 mod ts < ts" using assms by simp
  ultimately have lo: "r * 1000000000 < q * ts + ts" by linarith
  have "(q * ts + 500000000) div 1000000000 = r"
  proof (rule div_nat_eqI)
    show "1000000000 * r \<le> q * ts + 500000000" using lo assms by linarith
    show "q * ts + 500000000 < 1000000000 * Suc r" using up by simp
  qed
  then show ?thesis by (simp add: q_def)
qed

lemma ticks_duration_parts:
  assumes "0 < ts" "ts < 2 ^ 32"
  shows "ticks_to_duration t ts div 1000000000 = t div ts"
    and "ticks_to_duration t ts mod 1000000000 = (t mod ts) * 1000000000 div ts"
proof -
  have r: "t mod ts < ts" using assms by simp
  note e = ticks_nanos_exact [OF r assms(2)]
  have "ticks_to_duration t ts = t div ts * 1000000000 + (t mod ts) * 1000000000 div ts"
    using assms(1) e by (simp add: ticks_to_duration_def Let_def)
  then show "ticks_to_duration t ts div 1000000000 = t div ts"
    and "ticks_to_duration t ts mod 1000000000 = (t mod ts) * 1000000000 div ts"
    using e(2) by simp_all
qed

text \<open>
  Fact C6 (round trip): for every timescale up to 500 MHz, converting ticks to a duration and
  back gives the same tick count, over the whole range of a 64-bit tick counter.
\<close>

theorem ticks_roundtrip:
  assumes "0 < ts" "ts \<le> 500000000" "t \<le> u64_max"
  shows "duration_to_ticks (ticks_to_duration t ts) ts = t"
proof -
  have ts: "ts < 2 ^ 32" using assms(2) by simp
  have r: "t mod ts < ts" using assms(1) by simp
  note parts = ticks_duration_parts [OF assms(1) ts, of t]
  have whole: "saturating_mul_u64 (t div ts) ts = t div ts * ts"
    using le_trans [OF div_times_less_eq_dividend assms(3)] by (simp add: machine_arith min_absorb1)
  have "(t mod ts) * 1000000000 div ts < 1000000000"
    by (rule ticks_nanos_exact(2) [OF r ts])
  then have "(t mod ts) * 1000000000 div ts * ts \<le> 1000000000 * 500000000"
    using assms(2) by (intro mult_le_mono) simp_all
  then have frac: "saturating_add_u64 (saturating_mul_u64 ((t mod ts) * 1000000000 div ts) ts) 500000000
      = (t mod ts) * 1000000000 div ts * ts + 500000000"
    by (simp add: machine_arith u64_max_def)
  have "duration_to_ticks (ticks_to_duration t ts) ts = saturating_add_u64 (t div ts * ts) (t mod ts)"
    by (simp add: duration_to_ticks_def Let_def parts whole frac nearest_tick [OF r assms(2)])
  then show ?thesis
    using assms(3) by (simp add: machine_arith)
qed

theorem ticks_roundtrip_witness:
  "duration_to_ticks (ticks_to_duration 93000 90000) 90000 = 93000"
  by (rule ticks_roundtrip) (simp_all add: u64_max_def)

end
