(* ===== verification/Pre_Record.thy ===== *)
theory Pre_Record
  imports Media_Frame
begin

text \<open>
  The pre-recording buffers (\<open>src/src/storage/pre_record.rs\<close>): per stream, the groups of
  pictures (GOPs) of the last seconds, held in memory under a byte and a frame budget per
  stream and one shared by all streams.

  The code shares its budgets through \<open>Arc<Budget>\<close>: a stream history, the registry and
  every buffered frame's reservation point to the same counters, and a frame that has left
  the buffers still holds its reservation until it is dropped. The model keeps the budgets
  in an explicit store (\<open>Heap\<close>) addressed by an identity; dropping a value is the explicit
  step \<open>drop_frames\<close>.
\<close>

section \<open>Budgets and reservations\<close>

definition MAX_STREAMS :: usize where "MAX_STREAMS = 254"
definition MAX_STREAM_FRAMES :: usize where "MAX_STREAM_FRAMES = 16384"
definition MAX_GLOBAL_FRAMES :: usize where "MAX_GLOBAL_FRAMES = 131072"
definition MAX_ID_BYTES :: usize where "MAX_ID_BYTES = 256"

record Budget =
  b_bytes :: usize
  b_frames :: usize
  b_max_bytes :: usize
  b_max_frames :: usize

definition Budget_new :: "usize \<Rightarrow> usize \<Rightarrow> Budget" where
  "Budget_new max_bytes max_frames =
     \<lparr>b_bytes = 0, b_frames = 0, b_max_bytes = max_bytes, b_max_frames = max_frames\<rparr>"

definition budget_fits :: "Budget \<Rightarrow> usize \<Rightarrow> bool" where
  "budget_fits b n \<longleftrightarrow>
     is_some_and (checked_add_u64 (b_bytes b) n) (\<lambda>total. total \<le> b_max_bytes b)
     \<and> b_frames b < b_max_frames b"

definition budget_acquire :: "Budget \<Rightarrow> usize \<Rightarrow> Budget \<times> bool" where
  "budget_acquire b n =
     (if \<not> budget_fits b n then (b, False)
      else (b\<lparr>b_bytes := wrapping_add_u64 (b_bytes b) n,
              b_frames := wrapping_add_u64 (b_frames b) 1\<rparr>, True))"

definition budget_release :: "Budget \<Rightarrow> usize \<Rightarrow> Budget" where
  "budget_release b n =
     b\<lparr>b_bytes := wrapping_sub_u64 (b_bytes b) n,
       b_frames := wrapping_sub_u64 (b_frames b) 1\<rparr>"

text \<open>The allocated budgets; a fresh \<open>Arc\<close> takes the next identity.\<close>

record Heap =
  budgets :: "nat \<Rightarrow> Budget"
  next_budget :: nat

definition arc_new :: "Budget \<Rightarrow> Heap \<Rightarrow> nat \<times> Heap" where
  "arc_new b hp = (next_budget hp,
     hp\<lparr>budgets := (budgets hp)(next_budget hp := b), next_budget := Suc (next_budget hp)\<rparr>)"

definition heap_release :: "nat \<Rightarrow> usize \<Rightarrow> Heap \<Rightarrow> Heap" where
  "heap_release i n hp = hp\<lparr>budgets := (budgets hp)(i := budget_release (budgets hp i) n)\<rparr>"

record Reservation =
  r_bytes :: usize
  r_stream_budget :: nat
  r_global_budget :: nat

record BufferedFrame =
  bf_frame :: RecordingFrame
  bf_reservation :: Reservation

text \<open>\<open>Reservation::drop\<close>, for one frame and for a collection dropped in order.\<close>

definition drop_reservation :: "Reservation \<Rightarrow> Heap \<Rightarrow> Heap" where
  "drop_reservation r hp =
     heap_release (r_global_budget r) (r_bytes r) (heap_release (r_stream_budget r) (r_bytes r) hp)"

definition drop_frames :: "BufferedFrame list \<Rightarrow> Heap \<Rightarrow> Heap" where
  "drop_frames fs hp = foldl (\<lambda>h f. drop_reservation (bf_reservation f) h) hp fs"

record Gop =
  g_start :: instant
  g_frames :: "BufferedFrame list"

datatype HistoryReason =
  Ready | ReplayPending | Startup | MissingKeyframe | DurationEviction
| StreamPressure | GlobalPressure | InvalidOrder

record HistorySnapshot =
  requested :: duration
  available :: duration
  retained_bytes :: usize
  pending_bytes :: usize
  snap_reason :: HistoryReason

section \<open>One stream's history\<close>

record StreamHistory =
  h_duration :: duration
  h_budget :: nat
  h_gops :: "Gop list"
  h_awaiting_keyframe :: bool
  h_discontinuous :: bool
  h_last_received_at :: "instant option"
  h_reason :: HistoryReason
  h_continuous :: bool
  h_released :: "BufferedFrame list"

text \<open>\<open>evict_oldest\<close>: the oldest GOP leaves; a continuous stream hands its frames over for
  recording, any other stream drops them.\<close>

fun evict_oldest :: "StreamHistory \<Rightarrow> Heap \<Rightarrow> StreamHistory \<times> Heap \<times> bool" where
  "evict_oldest h hp =
     (case h_gops h of
        [] \<Rightarrow> (h\<lparr>h_awaiting_keyframe := True\<rparr>, hp, False)
      | g # gs \<Rightarrow>
          (let h1 = h\<lparr>h_gops := gs\<rparr>;
               (h2, hp2) = (if h_continuous h
                            then (h1\<lparr>h_released := h_released h1 @ g_frames g\<rparr>, hp)
                            else (h1, drop_frames (g_frames g) hp));
               h3 = (if gs = [] then h2\<lparr>h_awaiting_keyframe := True\<rparr> else h2)
           in (h3, hp2, True)))"

declare evict_oldest.simps [simp del]

lemma evict_oldest_gops:
  "evict_oldest h hp = (h', hp', present) \<Longrightarrow>
     h_gops h' = tl (h_gops h) \<and> present = (h_gops h \<noteq> [])"
  by (auto simp: evict_oldest.simps Let_def split: list.splits if_splits)

function history_expire :: "instant \<Rightarrow> StreamHistory \<Rightarrow> Heap \<Rightarrow> StreamHistory \<times> Heap" where
  "history_expire now h hp =
     (if h_gops h \<noteq> [] \<and> saturating_duration_since now (g_start (hd (h_gops h))) > h_duration h
      then let (h', hp', _) = evict_oldest (h\<lparr>h_reason := DurationEviction\<rparr>) hp
           in history_expire now h' hp'
      else (h, hp))"
  by pat_completeness auto
termination
  by (relation "measure (\<lambda>(now, h, hp). length (h_gops h))")
    (auto dest!: evict_oldest_gops [OF sym])

declare history_expire.simps [simp del]

text \<open>\<open>while self.evict_oldest() {}\<close>\<close>

function evict_all :: "StreamHistory \<Rightarrow> Heap \<Rightarrow> StreamHistory \<times> Heap" where
  "evict_all h hp =
     (let (h', hp', present) = evict_oldest h hp
      in if present then evict_all h' hp' else (h', hp'))"
  by pat_completeness auto
termination
  by (relation "measure (\<lambda>(h, hp). length (h_gops h))")
    (auto dest!: evict_oldest_gops [OF sym])

declare evict_all.simps [simp del]

definition discard_open :: "StreamHistory \<Rightarrow> Heap \<Rightarrow> StreamHistory \<times> Heap" where
  "discard_open h hp =
     (let (h1, hp1) =
        (if h_continuous h then evict_all h hp
         else if \<not> h_awaiting_keyframe h then
           (case rev (h_gops h) of
              [] \<Rightarrow> (h, hp)
            | g # gs \<Rightarrow> (h\<lparr>h_gops := rev gs\<rparr>, drop_frames (g_frames g) hp))
         else (h, hp))
      in (h1\<lparr>h_awaiting_keyframe := True, h_discontinuous := True\<rparr>, hp1))"

text \<open>\<open>self.gops.clear()\<close>: every buffered frame of the GOPs is dropped.\<close>

definition clear_gops :: "StreamHistory \<Rightarrow> Heap \<Rightarrow> StreamHistory \<times> Heap" where
  "clear_gops h hp = (h\<lparr>h_gops := []\<rparr>, drop_frames (concat (map g_frames (h_gops h))) hp)"

text \<open>The loop of \<open>admit\<close> that makes room in the stream's own budget.\<close>

function make_stream_room :: "usize \<Rightarrow> StreamHistory \<Rightarrow> Heap \<Rightarrow> StreamHistory \<times> Heap \<times> bool" where
  "make_stream_room n h hp =
     (if budget_fits (budgets hp (h_budget h)) n then (h, hp, True)
      else let (h', hp', present) = evict_oldest (h\<lparr>h_reason := StreamPressure\<rparr>) hp
           in if present then make_stream_room n h' hp' else (h', hp', False))"
  by pat_completeness auto
termination
  by (relation "measure (\<lambda>(n, h, hp). length (h_gops h))")
    (auto dest!: evict_oldest_gops [OF sym])

declare make_stream_room.simps [simp del]

definition admit :: "RecordingFrame \<Rightarrow> instant \<Rightarrow> usize \<Rightarrow> StreamHistory \<Rightarrow> Heap \<Rightarrow> StreamHistory \<times> Heap \<times> bool" where
  "admit f now global_limit h hp =
     (let (h, hp) = history_expire now h hp in
      if received_at f > now
         \<or> saturating_duration_since now (received_at f) > h_duration h
         \<or> is_some_and (h_last_received_at h) (\<lambda>last. received_at f < last)
      then let h = h\<lparr>h_reason := (if saturating_duration_since now (received_at f) > h_duration h
                                    then DurationEviction else InvalidOrder)\<rparr>;
               (h, hp) = discard_open h hp
           in (h, hp, False)
      else
        let h = h\<lparr>h_last_received_at := Some (received_at f)\<rparr>;
            keyframe = is_video_keyframe f in
        if h_awaiting_keyframe h \<and> \<not> keyframe
        then ((if h_reason h = Startup then h\<lparr>h_reason := MissingKeyframe\<rparr> else h), hp, False)
        else
          let n = byte_len f;
              h = (if keyframe then h\<lparr>h_awaiting_keyframe := True\<rparr> else h);
              max_bytes = b_max_bytes (budgets hp (h_budget h)) in
          if n > max_bytes \<or> n > global_limit
          then let h = h\<lparr>h_reason := (if n > max_bytes then StreamPressure else GlobalPressure)\<rparr>;
                   (h, hp) = discard_open h hp
               in (h, hp, False)
          else
            let (h, hp) = (if keyframe \<and> h_discontinuous h
                           then let (h, hp) = clear_gops h hp
                                in (h\<lparr>h_discontinuous := False\<rparr>, hp)
                           else (h, hp));
                (h, hp, room) = make_stream_room n h hp in
            if \<not> room then (h, hp, False)
            else if h_awaiting_keyframe h \<and> \<not> keyframe then (h, hp, False)
            else (h, hp, True))"

section \<open>The registry of stream histories\<close>

type_synonym streams = "(string, (string, StreamHistory) btree) btree"

record PreRecordBuffers =
  p_streams :: streams
  p_stream_count :: usize
  p_stream_bytes :: usize
  p_global_budget :: nat

definition PreRecordBuffers_new :: "usize \<Rightarrow> usize \<Rightarrow> Heap \<Rightarrow> PreRecordBuffers \<times> Heap" where
  "PreRecordBuffers_new stream_bytes global_bytes hp =
     (let (arc, hp) = arc_new (Budget_new global_bytes MAX_GLOBAL_FRAMES) hp
      in (\<lparr>p_streams = [], p_stream_count = 0, p_stream_bytes = stream_bytes, p_global_budget = arc\<rparr>, hp))"

text \<open>\<open>stream_mut\<close>: reading the entry, and writing back what the borrow mutated.\<close>

definition nested_get :: "streams \<Rightarrow> string \<times> string \<Rightarrow> StreamHistory option" where
  "nested_get m k = (case bt_get m (fst k) of None \<Rightarrow> None | Some inner \<Rightarrow> bt_get inner (snd k))"

definition nested_update :: "string \<times> string \<Rightarrow> StreamHistory \<Rightarrow> streams \<Rightarrow> streams" where
  "nested_update k h m =
     (case bt_get m (fst k) of None \<Rightarrow> m | Some inner \<Rightarrow> bt_update (fst k) (bt_update (snd k) h inner) m)"

text \<open>\<open>entry(source).or_default().insert(stream, history)\<close>\<close>

definition nested_insert :: "string \<times> string \<Rightarrow> StreamHistory \<Rightarrow> streams \<Rightarrow> streams" where
  "nested_insert k h m =
     bt_insert (fst k) (bt_insert (snd k) h (case bt_get m (fst k) of None \<Rightarrow> [] | Some inner \<Rightarrow> inner)) m"

definition nested_entries :: "streams \<Rightarrow> ((string \<times> string) \<times> StreamHistory) list" where
  "nested_entries m = concat (map (\<lambda>(s, inner). map (\<lambda>(t, h). ((s, t), h)) inner) m)"

definition stream_mut :: "PreRecordBuffers \<Rightarrow> string \<Rightarrow> string \<Rightarrow> StreamHistory option" where
  "stream_mut b source stream = nested_get (p_streams b) (source, stream)"

definition stream_set :: "string \<Rightarrow> string \<Rightarrow> StreamHistory \<Rightarrow> PreRecordBuffers \<Rightarrow> PreRecordBuffers" where
  "stream_set source stream h b = b\<lparr>p_streams := nested_update (source, stream) h (p_streams b)\<rparr>"

text \<open>The six assignments that \<open>configure\<close>, \<open>clear_source\<close> and \<open>clear_stream\<close> share.\<close>

definition clear_history :: "StreamHistory \<Rightarrow> Heap \<Rightarrow> StreamHistory \<times> Heap" where
  "clear_history h hp =
     (let (h1, hp1) = clear_gops h hp;
          hp2 = drop_frames (h_released h1) hp1
      in (h1\<lparr>h_released := [], h_awaiting_keyframe := True, h_discontinuous := False,
             h_last_received_at := None, h_reason := Startup\<rparr>, hp2))"

definition configure :: "string \<Rightarrow> string \<Rightarrow> duration \<Rightarrow> PreRecordBuffers \<Rightarrow> Heap \<Rightarrow> PreRecordBuffers \<times> Heap \<times> bool" where
  "configure source stream d b hp =
     (if source = [] \<or> length source > MAX_ID_BYTES
         \<or> \<not> (stream = ''main'' \<or> stream = ''sub'')
         \<or> d = 0 \<or> d > from_secs 30
         \<or> p_stream_bytes b = 0
         \<or> b_max_bytes (budgets hp (p_global_budget b)) = 0
      then (b, hp, False)
      else case stream_mut b source stream of
        Some h \<Rightarrow>
          (let (h, hp) = clear_history h hp
           in (stream_set source stream (h\<lparr>h_duration := d\<rparr>) b, hp, True))
      | None \<Rightarrow>
          if p_stream_count b = MAX_STREAMS then (b, hp, False)
          else
            (let (arc, hp) = arc_new (Budget_new (p_stream_bytes b) MAX_STREAM_FRAMES) hp;
                 h = \<lparr>h_duration = d, h_budget = arc, h_gops = [], h_awaiting_keyframe = True,
                      h_discontinuous = False, h_last_received_at = None, h_reason = Startup,
                      h_continuous = False, h_released = []\<rparr>
             in (b\<lparr>p_streams := nested_insert (source, stream) h (p_streams b),
                   p_stream_count := Suc (p_stream_count b)\<rparr>, hp, True)))"

text \<open>The oldest first GOP over all streams, ties broken by the names.\<close>

definition gop_fronts :: "streams \<Rightarrow> (instant \<times> string \<times> string) list" where
  "gop_fronts m =
     concat (map (\<lambda>((s, t), h). case h_gops h of [] \<Rightarrow> [] | g # _ \<Rightarrow> [(g_start g, s, t)]) (nested_entries m))"

definition oldest_gop :: "streams \<Rightarrow> (instant \<times> string \<times> string) option" where
  "oldest_gop m = (case gop_fronts m of [] \<Rightarrow> None | c # cs \<Rightarrow> Some (foldl min c cs))"

definition gop_count :: "streams \<Rightarrow> nat" where
  "gop_count m = sum_list (map (\<lambda>e. length (h_gops (snd e))) (nested_entries m))"

lemma gop_count_alt:
  "gop_count m = sum_list (map (\<lambda>e. sum_list (map (\<lambda>e. length (h_gops (snd e))) (snd e))) m)"
  by (induction m) (auto simp: gop_count_def nested_entries_def comp_def case_prod_beta)

lemma gop_count_update:
  assumes "nested_get m k = Some h" "length (h_gops h') < length (h_gops h)"
  shows "gop_count (nested_update k h' m) < gop_count m"
proof -
  obtain inner where i: "bt_get m (fst k) = Some inner" "bt_get inner (snd k) = Some h"
    using assms(1) by (auto simp: nested_get_def split: option.splits)
  let ?f = "\<lambda>e. sum_list (map (\<lambda>e. length (h_gops (snd e))) (snd e))"
  let ?g = "\<lambda>e. length (h_gops (snd e))"
  have "sum_list (map ?f (bt_update (fst k) (bt_update (snd k) h' inner) m)) + ?f (fst k, inner)
      = sum_list (map ?f m) + ?f (fst k, bt_update (snd k) h' inner)"
    by (rule sum_bt_update [OF i(1)])
  moreover have "sum_list (map ?g (bt_update (snd k) h' inner)) + ?g (snd k, h)
      = sum_list (map ?g inner) + ?g (snd k, h')"
    by (rule sum_bt_update [OF i(2)])
  ultimately show ?thesis
    using assms(2) by (simp add: gop_count_alt nested_update_def i(1))
qed

text \<open>
  \<open>make_global_room\<close>. The selected stream is registered and has a first GOP
  (\<open>oldest_gop_registered\<close> below), so the last branch, the code's \<open>expect\<close>, is never taken
  on a well-formed registry.
\<close>

function make_global_room :: "string \<Rightarrow> string \<Rightarrow> RecordingFrame \<Rightarrow> PreRecordBuffers \<Rightarrow> Heap \<Rightarrow> PreRecordBuffers \<times> Heap \<times> bool" where
  "make_global_room source stream f b hp =
     (if budget_fits (budgets hp (p_global_budget b)) (byte_len f) then (b, hp, True)
      else case oldest_gop (p_streams b) of
        None \<Rightarrow> (b, hp, False)
      | Some (oldest_time, oldest_source, oldest_stream) \<Rightarrow>
          if is_video_keyframe f \<and> (received_at f, source, stream) < (oldest_time, oldest_source, oldest_stream)
          then (b, hp, False)
          else case stream_mut b oldest_source oldest_stream of
            Some h \<Rightarrow>
              if h_gops h = [] then (b, hp, False)
              else
                (let (h', hp', _) = evict_oldest (h\<lparr>h_reason := GlobalPressure\<rparr>) hp;
                     b' = stream_set oldest_source oldest_stream h' b
                 in if \<not> is_video_keyframe f
                       \<and> is_some_and (stream_mut b' source stream) h_awaiting_keyframe
                    then (b', hp', False)
                    else make_global_room source stream f b' hp')
          | None \<Rightarrow> (b, hp, False))"
  by pat_completeness auto
termination
  by (relation "measure (\<lambda>(source, stream, f, b, hp). gop_count (p_streams b))")
    (auto simp: stream_set_def stream_mut_def dest!: evict_oldest_gops [OF sym]
       intro!: gop_count_update)

declare make_global_room.simps [simp del]

definition push_owned ::
  "string \<Rightarrow> string \<Rightarrow> RecordingFrame \<Rightarrow> instant \<Rightarrow> PreRecordBuffers \<Rightarrow> Heap
     \<Rightarrow> PreRecordBuffers \<times> Heap \<times> RecordingFrame option" where
  "push_owned source stream f now b hp =
     (let global_limit = b_max_bytes (budgets hp (p_global_budget b)) in
      case stream_mut b source stream of
        None \<Rightarrow> (b, hp, Some f)
      | Some h \<Rightarrow>
          let (h, hp, admitted) = admit f now global_limit h hp;
              b = stream_set source stream h b in
          if \<not> admitted then (b, hp, Some f)
          else
            let n = byte_len f;
                keyframe = is_video_keyframe f;
                (b, hp, room) = make_global_room source stream f b hp in
            case stream_mut b source stream of
              None \<Rightarrow> (b, hp, Some f)
            | Some h \<Rightarrow>
                if \<not> room then (stream_set source stream (h\<lparr>h_reason := GlobalPressure\<rparr>) b, hp, Some f)
                else if h_awaiting_keyframe h \<and> \<not> keyframe then (b, hp, Some f)
                else
                  let (sb, got) = budget_acquire (budgets hp (h_budget h)) n;
                      hp = hp\<lparr>budgets := (budgets hp)(h_budget h := sb)\<rparr> in
                  if \<not> got then (b, hp, Some f)
                  else
                    let (gb, got) = budget_acquire (budgets hp (p_global_budget b)) n;
                        hp = hp\<lparr>budgets := (budgets hp)(p_global_budget b := gb)\<rparr> in
                    if \<not> got
                    then let hp = heap_release (h_budget h) n hp;
                             (h, hp) = discard_open h hp
                         in (stream_set source stream h b, hp, Some f)
                    else
                      let retained = \<lparr>bf_frame = f,
                            bf_reservation = \<lparr>r_bytes = n, r_stream_budget = h_budget h,
                                              r_global_budget = p_global_budget b\<rparr>\<rparr> in
                      if keyframe
                      then let h = (if h_reason h = MissingKeyframe \<or> h_reason h = InvalidOrder
                                    then h\<lparr>h_reason := Startup\<rparr> else h);
                               h = h\<lparr>h_gops := h_gops h @ [\<lparr>g_start = received_at f, g_frames = [retained]\<rparr>],
                                     h_awaiting_keyframe := False\<rparr>
                           in (stream_set source stream h b, hp, None)
                      else (case rev (h_gops h) of
                              g # gs \<Rightarrow>
                                (stream_set source stream
                                   (h\<lparr>h_gops := rev gs @ [g\<lparr>g_frames := g_frames g @ [retained]\<rparr>]\<rparr>) b, hp, None)
                            | [] \<Rightarrow> (b, drop_frames [retained] hp, None)))"

definition set_continuous :: "string \<Rightarrow> string \<Rightarrow> bool \<Rightarrow> PreRecordBuffers \<Rightarrow> PreRecordBuffers" where
  "set_continuous source stream continuous b =
     (case stream_mut b source stream of
        None \<Rightarrow> b
      | Some h \<Rightarrow> stream_set source stream (h\<lparr>h_continuous := continuous\<rparr>) b)"

text \<open>A loop over \<open>values_mut\<close> that threads the heap.\<close>

fun update_values :: "(StreamHistory \<Rightarrow> Heap \<Rightarrow> StreamHistory \<times> Heap) \<Rightarrow> (string, StreamHistory) btree \<Rightarrow> Heap
    \<Rightarrow> (string, StreamHistory) btree \<times> Heap" where
  "update_values f [] hp = ([], hp)"
| "update_values f ((t, h) # m) hp =
     (let (h', hp1) = f h hp; (m', hp2) = update_values f m hp1 in ((t, h') # m', hp2))"

fun update_all_values :: "(StreamHistory \<Rightarrow> Heap \<Rightarrow> StreamHistory \<times> Heap) \<Rightarrow> streams \<Rightarrow> Heap \<Rightarrow> streams \<times> Heap" where
  "update_all_values f [] hp = ([], hp)"
| "update_all_values f ((s, inner) # m) hp =
     (let (inner', hp1) = update_values f inner hp; (m', hp2) = update_all_values f m hp1
      in ((s, inner') # m', hp2))"

definition clear_source :: "string \<Rightarrow> PreRecordBuffers \<Rightarrow> Heap \<Rightarrow> PreRecordBuffers \<times> Heap" where
  "clear_source source b hp =
     (case bt_get (p_streams b) source of
        None \<Rightarrow> (b, hp)
      | Some inner \<Rightarrow>
          let (inner', hp') = update_values clear_history inner hp
          in (b\<lparr>p_streams := bt_update source inner' (p_streams b)\<rparr>, hp'))"

definition clear_stream :: "string \<Rightarrow> string \<Rightarrow> PreRecordBuffers \<Rightarrow> Heap \<Rightarrow> PreRecordBuffers \<times> Heap" where
  "clear_stream source stream b hp =
     (case stream_mut b source stream of
        None \<Rightarrow> (b, hp)
      | Some h \<Rightarrow> let (h', hp') = clear_history h hp in (stream_set source stream h' b, hp'))"

definition hist_frames :: "StreamHistory \<Rightarrow> BufferedFrame list" where
  "hist_frames h = concat (map g_frames (h_gops h)) @ h_released h"

definition remove_source :: "string \<Rightarrow> PreRecordBuffers \<Rightarrow> Heap \<Rightarrow> PreRecordBuffers \<times> Heap" where
  "remove_source source b hp =
     (case bt_get (p_streams b) source of
        None \<Rightarrow> (b, hp)
      | Some inner \<Rightarrow>
          (b\<lparr>p_streams := bt_remove source (p_streams b),
             p_stream_count := p_stream_count b - length inner\<rparr>,
           drop_frames (concat (map (\<lambda>e. hist_frames (snd e)) inner)) hp))"

text \<open>\<open>next_released\<close>: the first released frame in stream order.\<close>

fun first_released :: "((string \<times> string) \<times> StreamHistory) list \<Rightarrow> ((string \<times> string) \<times> StreamHistory \<times> BufferedFrame \<times> BufferedFrame list) option" where
  "first_released [] = None"
| "first_released ((k, h) # es) =
     (case h_released h of [] \<Rightarrow> first_released es | f # fs \<Rightarrow> Some (k, h, f, fs))"

definition next_released :: "PreRecordBuffers \<Rightarrow> PreRecordBuffers \<times> (string \<times> string \<times> BufferedFrame) option" where
  "next_released b =
     (case first_released (nested_entries (p_streams b)) of
        None \<Rightarrow> (b, None)
      | Some ((source, stream), h, f, fs) \<Rightarrow>
          (stream_set source stream (h\<lparr>h_released := fs\<rparr>) b, Some (source, stream, f)))"

definition expire :: "instant \<Rightarrow> PreRecordBuffers \<Rightarrow> Heap \<Rightarrow> PreRecordBuffers \<times> Heap" where
  "expire now b hp =
     (let (m, hp') = update_all_values (history_expire now) (p_streams b) hp
      in (b\<lparr>p_streams := m\<rparr>, hp'))"

text \<open>
  \<open>trim_audio_to_video\<close> keeps every video frame and the audio packets that lie between the
  first and the last video frame and do not overlap the previous kept packet; the result also
  lists the frames \<open>retain\<close> drops.
\<close>

fun retain_audio :: "instant \<Rightarrow> instant \<Rightarrow> BufferedFrame list \<Rightarrow> BufferedFrame list \<times> BufferedFrame list" where
  "retain_audio audio_until wall_end [] = ([], [])"
| "retain_audio audio_until wall_end (f # fs) =
     (case media (bf_frame f) of
        Video v \<Rightarrow> let (kept, dropped) = retain_audio audio_until wall_end fs in (f # kept, dropped)
      | Audio a \<Rightarrow>
          (case audio_end (bf_frame f) a of
             None \<Rightarrow> let (kept, dropped) = retain_audio audio_until wall_end fs in (kept, f # dropped)
           | Some e \<Rightarrow>
               if received_at (bf_frame f) < audio_until \<or> e > wall_end \<or> a_duration a = 0
               then let (kept, dropped) = retain_audio audio_until wall_end fs in (kept, f # dropped)
               else let (kept, dropped) = retain_audio e wall_end fs in (f # kept, dropped)))"

definition trim_audio_to_video :: "BufferedFrame list \<Rightarrow> BufferedFrame list \<times> BufferedFrame list" where
  "trim_audio_to_video fs =
     (case filter (\<lambda>f. is_video (bf_frame f)) fs of
        [] \<Rightarrow> ([], fs)
      | first # video \<Rightarrow>
          let last_video = (if video = [] then first else last video)
          in retain_audio (received_at (bf_frame first)) (received_at (bf_frame last_video)) fs)"

definition buffers_take :: "string \<Rightarrow> string \<Rightarrow> instant \<Rightarrow> PreRecordBuffers \<Rightarrow> Heap
    \<Rightarrow> PreRecordBuffers \<times> Heap \<times> BufferedFrame list" where
  "buffers_take source stream now b hp =
     (case stream_mut b source stream of
        None \<Rightarrow> (b, hp, [])
      | Some h \<Rightarrow>
          let (h, hp) = history_expire now h hp;
              fs = concat (map g_frames (h_gops h));
              h = h\<lparr>h_awaiting_keyframe := True, h_gops := []\<rparr>;
              h = (if fs \<noteq> [] then h\<lparr>h_reason := Startup\<rparr> else h);
              (kept, dropped) = trim_audio_to_video fs
          in (stream_set source stream h b, drop_frames dropped hp, kept))"

definition snapshot :: "string \<Rightarrow> string \<Rightarrow> instant \<Rightarrow> PreRecordBuffers \<Rightarrow> Heap
    \<Rightarrow> PreRecordBuffers \<times> Heap \<times> HistorySnapshot option" where
  "snapshot source stream now b hp =
     (case stream_mut b source stream of
        None \<Rightarrow> (b, hp, None)
      | Some h \<Rightarrow>
          let (h, hp) = history_expire now h hp;
              start = (case h_gops h of [] \<Rightarrow> None | g # _ \<Rightarrow> Some (g_start g));
              finish = (case rev (h_gops h) of
                          [] \<Rightarrow> None
                        | g # _ \<Rightarrow> map_option (\<lambda>f. received_at (bf_frame f))
                            (find (\<lambda>f. is_video (bf_frame f)) (rev (g_frames g))));
              retained = sum_list (map (\<lambda>f. byte_len (bf_frame f)) (concat (map g_frames (h_gops h))));
              reserved = b_bytes (budgets hp (h_budget h));
              avail = (case (start, finish) of (Some s, Some e) \<Rightarrow> saturating_duration_since e s | _ \<Rightarrow> 0);
              pending = saturating_sub_u64 reserved retained;
              reason = (if avail \<ge> h_duration h then Ready
                        else if h_gops h = [] \<and> pending > 0 then ReplayPending
                        else h_reason h)
          in (stream_set source stream h b, hp,
              Some \<lparr>requested = h_duration h, available = avail, retained_bytes = retained,
                    pending_bytes = pending, snap_reason = reason\<rparr>))"

end
