(* ===== verification/Pre_Record_Laws.thy ===== *)
theory Pre_Record_Laws
  imports Pre_Record
begin

text \<open>
  What the pre-recording buffers guarantee. Three layers:
  \<^item> the registry is a keyed map (an interpretation of \<open>insert_map\<close>);
  \<^item> memory accounting: every budget counts exactly the frames that still hold a reservation
    on it, wherever they are, and never exceeds its limits (\<open>accounts\<close>);
  \<^item> shape: every history is a sequence of decodable GOPs in arrival order (\<open>history_ok\<close>).
  Each operation keeps all three, so they hold after any sequence of operations.
\<close>

section \<open>The registry as a keyed map\<close>

definition nested_ok :: "streams \<Rightarrow> bool" where
  "nested_ok m \<longleftrightarrow> bt_ok m \<and> (\<forall>(s, inner) \<in> set m. bt_ok inner)"

lemma nested_ok_inner: "nested_ok m \<Longrightarrow> bt_get m s = Some inner \<Longrightarrow> bt_ok inner"
  by (auto simp: nested_ok_def bt_get_def dest: map_of_SomeD)

lemma nested_ok_insert_inner:
  assumes "nested_ok m" "bt_ok inner"
  shows "nested_ok (bt_insert s inner m)"
  using assms bt.entries_ins_cases [of m _ _ s inner]
  by (fastforce simp: nested_ok_def bt_ok_insert)

lemma nested_ok_update_inner:
  assumes "nested_ok m" "bt_get m s = Some old" "bt_ok inner"
  shows "nested_ok (bt_update s inner m)"
  using assms bt.entries_upd [of m s old inner]
  by (auto simp: nested_ok_def bt_ok_update)

lemma set_nested_entries:
  "((s, t), h) \<in> set (nested_entries m) \<longleftrightarrow> (\<exists>inner. (s, inner) \<in> set m \<and> (t, h) \<in> set inner)"
  by (fastforce simp: nested_entries_def)

lemma nested_entries_get:
  "nested_ok m \<Longrightarrow> (k, h) \<in> set (nested_entries m) \<longleftrightarrow> nested_get m k = Some h"
proof (cases k)
  case (Pair s t)
  assume ok: "nested_ok m"
  then have "(s, inner) \<in> set m \<longleftrightarrow> bt_get m s = Some inner" for inner
    using bt.entries_get [of m s inner] by (simp add: nested_ok_def)
  moreover have "(t, h) \<in> set inner \<longleftrightarrow> bt_get inner t = Some h" if "bt_get m s = Some inner" for inner
    using bt.entries_get [of inner t h] nested_ok_inner [OF ok that] by simp
  ultimately show ?thesis
    using Pair by (auto simp: set_nested_entries nested_get_def split: option.splits)
qed

lemma nested_entries_Cons:
  "nested_entries ((s, inner) # m) = map (\<lambda>(t, h). ((s, t), h)) inner @ nested_entries m"
  by (simp add: nested_entries_def)

lemma distinct_nested_entries: "nested_ok m \<Longrightarrow> distinct (nested_entries m)"
proof (induction m)
  case (Cons e m)
  obtain s inner where e: "e = (s, inner)" by (cases e)
  with Cons.prems have ok: "nested_ok m" "bt_ok inner" "s \<notin> fst ` set m"
    by (auto simp: nested_ok_def bt_ok_Cons)
  from ok(2) have "distinct (map (\<lambda>(t, h). ((s, t), h)) inner)"
    using bt.distinct_entries [of inner] by (auto simp: distinct_map inj_on_def)
  moreover have "x \<notin> set (nested_entries m)" if "x \<in> set (map (\<lambda>(t, h). ((s, t), h)) inner)" for x
    using that ok(3) by (force simp: nested_entries_def)
  ultimately show ?case
    unfolding e nested_entries_Cons distinct_append using Cons.IH [OF ok(1)] by blast
qed (simp add: nested_entries_def)

interpretation nested: insert_map nested_get nested_update nested_entries nested_ok nested_insert
proof unfold_locales
  fix m :: streams and k k' :: "string \<times> string" and u v :: StreamHistory
  assume ok: "nested_ok m"
  show "nested_get (nested_insert k v m) k' = (if k' = k then Some v else nested_get m k')"
    by (cases k; cases k')
      (auto simp: nested_get_def nested_insert_def bt_get_insert split: option.splits)
  show "nested_ok (nested_insert k v m)"
    using ok nested_ok_inner [OF ok]
    by (auto simp: nested_insert_def bt_ok_insert bt_ok_Cons intro!: nested_ok_insert_inner split: option.splits)
  assume get: "nested_get m k = Some u"
  show "nested_get (nested_update k v m) k' = (if k' = k then Some v else nested_get m k')"
    using get by (cases k; cases k')
      (auto simp: nested_get_def nested_update_def bt_get_update split: option.splits)
  show "nested_ok (nested_update k v m)"
    using ok get nested_ok_inner [OF ok]
    by (auto simp: nested_update_def nested_get_def bt_ok_update
         intro!: nested_ok_update_inner split: option.splits)
next
  fix m k v
  show "nested_ok m \<Longrightarrow> ((k, v) \<in> set (nested_entries m)) = (nested_get m k = Some v)"
    by (rule nested_entries_get)
  show "nested_ok m \<Longrightarrow> distinct (nested_entries m)"
    by (rule distinct_nested_entries)
qed

section \<open>Accounting\<close>

definition on_budget :: "nat \<Rightarrow> BufferedFrame \<Rightarrow> bool" where
  "on_budget i f \<longleftrightarrow> r_stream_budget (bf_reservation f) = i \<or> r_global_budget (bf_reservation f) = i"

definition reserved_bytes :: "nat \<Rightarrow> BufferedFrame list \<Rightarrow> nat" where
  "reserved_bytes i fs = sum_list (map (\<lambda>f. r_bytes (bf_reservation f)) (filter (on_budget i) fs))"

definition reserved_frames :: "nat \<Rightarrow> BufferedFrame list \<Rightarrow> nat" where
  "reserved_frames i fs = length (filter (on_budget i) fs)"

text \<open>A reservation points to two different, allocated budgets.\<close>

definition reservation_ok :: "Heap \<Rightarrow> BufferedFrame \<Rightarrow> bool" where
  "reservation_ok hp f \<longleftrightarrow>
     r_stream_budget (bf_reservation f) \<noteq> r_global_budget (bf_reservation f)
     \<and> r_stream_budget (bf_reservation f) < next_budget hp
     \<and> r_global_budget (bf_reservation f) < next_budget hp"

definition budget_exact :: "Budget \<Rightarrow> nat \<Rightarrow> nat \<Rightarrow> bool" where
  "budget_exact b n k \<longleftrightarrow>
     b_bytes b = n \<and> b_frames b = k \<and> n \<le> b_max_bytes b \<and> k \<le> b_max_frames b
     \<and> b_max_bytes b \<le> u64_max \<and> b_max_frames b \<le> u64_max"

text \<open>\<open>fs\<close> are all the frames that hold a reservation.\<close>

definition accounts :: "Heap \<Rightarrow> BufferedFrame list \<Rightarrow> bool" where
  "accounts hp fs \<longleftrightarrow>
     (\<forall>f \<in> set fs. reservation_ok hp f)
     \<and> (\<forall>i < next_budget hp. budget_exact (budgets hp i) (reserved_bytes i fs) (reserved_frames i fs))"

lemma reserved_simps [simp]:
  "reserved_bytes i [] = 0"
  "reserved_frames i [] = 0"
  "reserved_bytes i (f # fs) = (if on_budget i f then r_bytes (bf_reservation f) else 0) + reserved_bytes i fs"
  "reserved_frames i (f # fs) = (if on_budget i f then 1 else 0) + reserved_frames i fs"
  "reserved_bytes i (fs @ gs) = reserved_bytes i fs + reserved_bytes i gs"
  "reserved_frames i (fs @ gs) = reserved_frames i fs + reserved_frames i gs"
  by (simp_all add: reserved_bytes_def reserved_frames_def)

lemma reserved_mset:
  assumes "mset fs = mset gs"
  shows "reserved_bytes i fs = reserved_bytes i gs" "reserved_frames i fs = reserved_frames i gs"
proof -
  have m: "mset (filter (on_budget i) fs) = mset (filter (on_budget i) gs)"
    using assms by simp
  then show "reserved_bytes i fs = reserved_bytes i gs"
    unfolding reserved_bytes_def by (rule sum_list_mset_cong)
  from m show "reserved_frames i fs = reserved_frames i gs"
    unfolding reserved_frames_def by (rule mset_eq_length)
qed

lemma accounts_mset: "mset fs = mset gs \<Longrightarrow> accounts hp fs = accounts hp gs"
  using reserved_mset [of fs gs] mset_eq_setD [of fs gs] by (simp add: accounts_def)

lemma accountsD:
  "accounts hp fs \<Longrightarrow> i < next_budget hp \<Longrightarrow>
     budget_exact (budgets hp i) (reserved_bytes i fs) (reserved_frames i fs)"
  by (simp add: accounts_def)

lemma budget_release_exact:
  assumes "budget_exact b (n + m) (Suc k)"
  shows "budget_exact (budget_release b n) m k"
  using assms by (simp add: budget_exact_def budget_release_def wrapping_sub_exact)

lemma next_budget_drop [simp]: "next_budget (drop_reservation r hp) = next_budget hp"
  by (simp add: drop_reservation_def heap_release_def)

lemma budgets_drop:
  assumes "r_stream_budget r \<noteq> r_global_budget r"
  shows "budgets (drop_reservation r hp) i =
    (if i = r_stream_budget r \<or> i = r_global_budget r
     then budget_release (budgets hp i) (r_bytes r) else budgets hp i)"
  using assms by (simp add: drop_reservation_def heap_release_def)

lemma accounts_drop1:
  assumes "accounts hp (f # fs)"
  shows "accounts (drop_reservation (bf_reservation f) hp) fs"
proof -
  let ?hp = "drop_reservation (bf_reservation f) hp"
  have ok: "reservation_ok hp f" and oks: "\<forall>g \<in> set fs. reservation_ok ?hp g"
    using assms by (auto simp: accounts_def reservation_ok_def)
  have "budget_exact (budgets ?hp i) (reserved_bytes i fs) (reserved_frames i fs)"
    if "i < next_budget hp" for i
  proof (cases "on_budget i f")
    case True
    with accountsD [OF assms that] have "budget_exact (budgets hp i)
        (r_bytes (bf_reservation f) + reserved_bytes i fs) (Suc (reserved_frames i fs))"
      by simp
    with True ok show ?thesis
      by (auto simp: budgets_drop reservation_ok_def on_budget_def intro: budget_release_exact)
  next
    case False
    with accountsD [OF assms that] ok show ?thesis
      by (auto simp: budgets_drop reservation_ok_def on_budget_def)
  qed
  with oks show ?thesis by (simp add: accounts_def)
qed

lemma drop_frames_simps [simp]:
  "drop_frames [] hp = hp"
  "drop_frames (f # fs) hp = drop_frames fs (drop_reservation (bf_reservation f) hp)"
  "drop_frames (fs @ gs) hp = drop_frames gs (drop_frames fs hp)"
  by (simp_all add: drop_frames_def)

lemma accounts_drop: "accounts hp (ds @ fs) \<Longrightarrow> accounts (drop_frames ds hp) fs"
  by (induction ds arbitrary: hp) (auto dest: accounts_drop1)

lemma next_budget_drop_frames [simp]: "next_budget (drop_frames ds hp) = next_budget hp"
  by (induction ds arbitrary: hp) auto

lemma budget_limits_drop [simp]:
  "b_max_bytes (budgets (drop_frames ds hp) i) = b_max_bytes (budgets hp i)"
  "b_max_frames (budgets (drop_frames ds hp) i) = b_max_frames (budgets hp i)"
  by (induction ds arbitrary: hp)
    (simp_all add: drop_reservation_def heap_release_def budget_release_def)

lemma budget_acquire_exact:
  assumes "budget_exact b n k" "budget_fits b m"
  shows "budget_exact (fst (budget_acquire b m)) (m + n) (Suc k)"
  using assms
  by (auto simp: budget_exact_def budget_acquire_def budget_fits_def is_some_and_iff
        checked_add_u64_def wrapping_add_exact split: if_splits)

section \<open>Histories only shed frames\<close>

text \<open>
  Between two states of a history, frames either stay or are dropped: \<open>sheds\<close> says that the
  heap changed by exactly the drops of the frames that left.
\<close>

definition sheds :: "StreamHistory \<Rightarrow> Heap \<Rightarrow> StreamHistory \<Rightarrow> Heap \<Rightarrow> bool" where
  "sheds h hp h' hp' \<longleftrightarrow>
     h_budget h' = h_budget h \<and> h_continuous h' = h_continuous h
     \<and> (\<exists>ds. mset (hist_frames h) = mset (hist_frames h') + mset ds \<and> hp' = drop_frames ds hp)"

lemma sheds_same:
  "mset (hist_frames h) = mset (hist_frames h') \<Longrightarrow> h_budget h' = h_budget h \<Longrightarrow>
   h_continuous h' = h_continuous h \<Longrightarrow> sheds h hp h' hp"
  unfolding sheds_def by (intro conjI exI [of _ "[]"]) simp_all

lemma sheds_refl [simp]: "sheds h hp h hp"
  by (rule sheds_same) simp_all

lemma sheds_trans: "sheds h hp h1 hp1 \<Longrightarrow> sheds h1 hp1 h2 hp2 \<Longrightarrow> sheds h hp h2 hp2"
  unfolding sheds_def
proof (elim conjE exE, intro conjI)
  fix ds es
  assume "mset (hist_frames h) = mset (hist_frames h1) + mset ds" "hp1 = drop_frames ds hp"
    "mset (hist_frames h1) = mset (hist_frames h2) + mset es" "hp2 = drop_frames es hp1"
  then show "\<exists>ds. mset (hist_frames h) = mset (hist_frames h2) + mset ds \<and> hp2 = drop_frames ds hp"
    by (intro exI [of _ "ds @ es"]) (simp add: add_ac)
qed simp_all

lemma sheds_drop:
  "mset (hist_frames h) = mset (hist_frames h') + mset ds \<Longrightarrow> h_budget h' = h_budget h \<Longrightarrow>
   h_continuous h' = h_continuous h \<Longrightarrow> sheds h hp h' (drop_frames ds hp)"
  unfolding sheds_def by blast

lemma hist_frames_cong [simp]:
  "hist_frames (h\<lparr>h_reason := r\<rparr>) = hist_frames h"
  "hist_frames (h\<lparr>h_awaiting_keyframe := a\<rparr>) = hist_frames h"
  "hist_frames (h\<lparr>h_discontinuous := a\<rparr>) = hist_frames h"
  "hist_frames (h\<lparr>h_last_received_at := l\<rparr>) = hist_frames h"
  "hist_frames (h\<lparr>h_continuous := a\<rparr>) = hist_frames h"
  "hist_frames (h\<lparr>h_duration := d\<rparr>) = hist_frames h"
  by (simp_all add: hist_frames_def)

text \<open>Changing a scalar field before or after shedding does not matter.\<close>

lemma sheds_field [simp]:
  "sheds (h\<lparr>h_reason := r\<rparr>) hp h' hp' = sheds h hp h' hp'"
  "sheds (h\<lparr>h_awaiting_keyframe := a\<rparr>) hp h' hp' = sheds h hp h' hp'"
  "sheds (h\<lparr>h_discontinuous := a\<rparr>) hp h' hp' = sheds h hp h' hp'"
  "sheds (h\<lparr>h_last_received_at := l\<rparr>) hp h' hp' = sheds h hp h' hp'"
  "sheds h hp (h'\<lparr>h_reason := r\<rparr>) hp' = sheds h hp h' hp'"
  "sheds h hp (h'\<lparr>h_awaiting_keyframe := a\<rparr>) hp' = sheds h hp h' hp'"
  "sheds h hp (h'\<lparr>h_discontinuous := a\<rparr>) hp' = sheds h hp h' hp'"
  "sheds h hp (h'\<lparr>h_last_received_at := l\<rparr>) hp' = sheds h hp h' hp'"
  "sheds h hp (h'\<lparr>h_duration := d\<rparr>) hp' = sheds h hp h' hp'"
  by (simp_all add: sheds_def)

lemma evict_oldest_sheds:
  assumes "evict_oldest h hp = (h', hp', present)"
  shows "sheds h hp h' hp'"
proof (cases "h_gops h")
  case Nil
  with assms show ?thesis by (auto simp: evict_oldest.simps)
next
  case (Cons g gs)
  show ?thesis
  proof (cases "h_continuous h")
    case True
    with assms Cons show ?thesis
      by (auto simp: evict_oldest.simps Let_def hist_frames_def intro!: sheds_same split: if_splits)
  next
    case False
    with assms Cons show ?thesis
      by (auto simp: evict_oldest.simps Let_def hist_frames_def intro!: sheds_drop split: if_splits)
  qed
qed

lemma history_expire_sheds:
  "history_expire now h hp = (h', hp') \<Longrightarrow> sheds h hp h' hp'"
proof (induction now h hp rule: history_expire.induct)
  case (1 now h hp)
  show ?case
  proof (cases "h_gops h \<noteq> [] \<and> saturating_duration_since now (g_start (hd (h_gops h))) > h_duration h")
    case True
    obtain h1 hp1 p where e: "evict_oldest (h\<lparr>h_reason := DurationEviction\<rparr>) hp = (h1, hp1, p)"
      by (cases "evict_oldest (h\<lparr>h_reason := DurationEviction\<rparr>) hp") auto
    with True "1.prems" have "history_expire now h1 hp1 = (h', hp')"
      by (simp add: history_expire.simps [of now h])
    with "1.IH" [OF True, of "(h1, hp1, p)"] e have "sheds h1 hp1 h' hp'" by simp
    with evict_oldest_sheds [OF e] show ?thesis by (auto intro: sheds_trans)
  next
    case False
    with "1.prems" show ?thesis by (auto simp: history_expire.simps [of now h])
  qed
qed

lemma evict_all_sheds: "evict_all h hp = (h', hp') \<Longrightarrow> sheds h hp h' hp'"
proof (induction h hp rule: evict_all.induct)
  case (1 h hp)
  obtain h1 hp1 p where e: "evict_oldest h hp = (h1, hp1, p)"
    by (cases "evict_oldest h hp") auto
  with "1.prems" have "(if p then evict_all h1 hp1 else (h1, hp1)) = (h', hp')"
    by (simp add: evict_all.simps [of h])
  with "1.IH" [OF e [symmetric]] evict_oldest_sheds [OF e] show ?case
    by (auto intro: sheds_trans split: if_splits)
qed

lemma clear_gops_sheds: "clear_gops h hp = (h', hp') \<Longrightarrow> sheds h hp h' hp'"
  by (auto simp: clear_gops_def hist_frames_def intro!: sheds_drop)

lemma discard_open_sheds:
  assumes "discard_open h hp = (h', hp')"
  shows "sheds h hp h' hp'"
proof (cases "h_continuous h")
  case True
  with assms show ?thesis
    by (auto simp: discard_open_def split: prod.splits dest: evict_all_sheds)
next
  case False
  show ?thesis
  proof (cases "rev (h_gops h)")
    case Nil
    with assms False show ?thesis by (auto simp: discard_open_def split: if_splits)
  next
    case (Cons g gs)
    then have "h_gops h = rev gs @ [g]" by (simp add: rev_eq_Cons_iff)
    with assms False Cons show ?thesis
      by (auto simp: discard_open_def hist_frames_def intro!: sheds_drop split: if_splits)
  qed
qed

lemma clear_history_sheds:
  assumes "clear_history h hp = (h', hp')"
  shows "sheds h hp h' hp'" "h_gops h' = []" "h_released h' = []"
proof -
  have "hp' = drop_frames (concat (map g_frames (h_gops h)) @ h_released h) hp"
    and h': "h_gops h' = []" "h_released h' = []" "h_budget h' = h_budget h" "h_continuous h' = h_continuous h"
    using assms by (auto simp: clear_history_def clear_gops_def)
  then show "sheds h hp h' hp'" "h_gops h' = []" "h_released h' = []"
    by (auto simp: hist_frames_def simp del: drop_frames_simps intro!: sheds_drop)
qed

lemma make_stream_room_sheds:
  "make_stream_room n h hp = (h', hp', room) \<Longrightarrow>
     sheds h hp h' hp' \<and> (room \<longrightarrow> budget_fits (budgets hp' (h_budget h')) n)"
proof (induction n h hp rule: make_stream_room.induct)
  case (1 n h hp)
  show ?case
  proof (cases "budget_fits (budgets hp (h_budget h)) n")
    case True
    with "1.prems" show ?thesis by (auto simp: make_stream_room.simps [of n h])
  next
    case False
    obtain h1 hp1 p where e: "evict_oldest (h\<lparr>h_reason := StreamPressure\<rparr>) hp = (h1, hp1, p)"
      by (cases "evict_oldest (h\<lparr>h_reason := StreamPressure\<rparr>) hp") auto
    with "1.prems" False have "(if p then make_stream_room n h1 hp1 else (h1, hp1, False)) = (h', hp', room)"
      by (simp add: make_stream_room.simps [of n h])
    with "1.IH" [OF False e [symmetric]] evict_oldest_sheds [OF e] show ?thesis
      by (auto intro: sheds_trans split: if_splits)
  qed
qed

lemma admit_sheds:
  assumes "admit f now gl h hp = (h', hp', ok)"
  shows "sheds h hp h' hp'"
proof -
  obtain h1 hp1 where e: "history_expire now h hp = (h1, hp1)"
    by (cases "history_expire now h hp") auto
  have "sheds h1 hp1 h' hp'"
    using assms e
    by (auto simp: admit_def Let_def split: prod.splits if_splits
        dest!: discard_open_sheds clear_gops_sheds make_stream_room_sheds
        intro: sheds_trans)
  with history_expire_sheds [OF e] show ?thesis by (rule sheds_trans)
qed

section \<open>The shape of a history\<close>

text \<open>A GOP starts at its keyframe and holds no other.\<close>

definition gop_ok :: "Gop \<Rightarrow> bool" where
  "gop_ok g \<longleftrightarrow>
     (\<exists>k fs. g_frames g = k # fs \<and> is_video_keyframe (bf_frame k) \<and> g_start g = received_at (bf_frame k)
        \<and> (\<forall>f \<in> set fs. \<not> is_video_keyframe (bf_frame f)))"

definition arrivals :: "Gop list \<Rightarrow> instant list" where
  "arrivals gs = map (\<lambda>f. received_at (bf_frame f)) (concat (map g_frames gs))"

definition gops_ok :: "instant option \<Rightarrow> Gop list \<Rightarrow> bool" where
  "gops_ok l gs \<longleftrightarrow>
     (\<forall>g \<in> set gs. gop_ok g) \<and> sorted (arrivals gs) \<and> (\<forall>t \<in> set (arrivals gs). is_some_and l (\<lambda>l. t \<le> l))"

text \<open>A frame's reservation is on its stream's budget and covers its payload.\<close>

definition owns :: "StreamHistory \<Rightarrow> BufferedFrame \<Rightarrow> bool" where
  "owns h f \<longleftrightarrow> r_stream_budget (bf_reservation f) = h_budget h
     \<and> r_bytes (bf_reservation f) = byte_len (bf_frame f)"

definition history_ok :: "StreamHistory \<Rightarrow> bool" where
  "history_ok h \<longleftrightarrow>
     gops_ok (h_last_received_at h) (h_gops h)
     \<and> (h_gops h = [] \<longrightarrow> h_awaiting_keyframe h)
     \<and> (\<forall>f \<in> set (hist_frames h). owns h f)"

lemma arrivals_simps [simp]:
  "arrivals [] = []"
  "arrivals (g # gs) = map (\<lambda>f. received_at (bf_frame f)) (g_frames g) @ arrivals gs"
  "arrivals (gs @ gs') = arrivals gs @ arrivals gs'"
  by (simp_all add: arrivals_def)

lemma gops_ok_Nil [simp]: "gops_ok l []"
  by (simp add: gops_ok_def)

lemma gops_ok_tl: "gops_ok l gs \<Longrightarrow> gops_ok l (tl gs)"
  by (cases gs) (auto simp: gops_ok_def sorted_append)

lemma gops_ok_butlast: "gops_ok l (gs @ gs') \<Longrightarrow> gops_ok l gs"
  by (auto simp: gops_ok_def sorted_append)

lemma gops_ok_later: "gops_ok l gs \<Longrightarrow> is_none_or l (\<lambda>l. l \<le> t) \<Longrightarrow> gops_ok (Some t) gs"
  by (fastforce simp: gops_ok_def is_some_and_iff is_none_or_iff)

text \<open>The operations that shed frames keep a suffix or a prefix of the GOPs.\<close>

lemma owns_sheds:
  assumes "sheds h hp h' hp'" "\<forall>f \<in> set (hist_frames h). owns h f"
  shows "\<forall>f \<in> set (hist_frames h'). owns h' f"
proof -
  have "set (hist_frames h') \<subseteq> set (hist_frames h)" and "h_budget h' = h_budget h"
    using assms(1) by (auto simp: sheds_def dest!: arg_cong [where f = set_mset])
  then show ?thesis using assms(2) by (auto simp: owns_def)
qed

lemma evict_oldest_ok:
  assumes "evict_oldest h hp = (h', hp', p)" "history_ok h"
  shows "history_ok h'" "h_last_received_at h' = h_last_received_at h" "h_duration h' = h_duration h"
    "h_awaiting_keyframe h \<Longrightarrow> h_awaiting_keyframe h'" "h_discontinuous h' = h_discontinuous h"
proof -
  have fields: "h_last_received_at h' = h_last_received_at h" "h_duration h' = h_duration h"
    "h_awaiting_keyframe h \<Longrightarrow> h_awaiting_keyframe h'" "h_discontinuous h' = h_discontinuous h"
    "h_gops h' = [] \<longrightarrow> h_awaiting_keyframe h'"
    using assms(1) by (auto simp: evict_oldest.simps Let_def split: list.splits if_splits)
  moreover have "gops_ok (h_last_received_at h) (h_gops h')"
    using assms(2) evict_oldest_gops [OF assms(1)] by (simp add: history_ok_def gops_ok_tl)
  ultimately show "history_ok h'"
    using owns_sheds [OF evict_oldest_sheds [OF assms(1)]] assms(2) by (simp add: history_ok_def)
  show "h_last_received_at h' = h_last_received_at h" "h_duration h' = h_duration h"
    "h_awaiting_keyframe h \<Longrightarrow> h_awaiting_keyframe h'" "h_discontinuous h' = h_discontinuous h"
    by (fact fields)+
qed

lemma history_ok_field [simp]:
  "history_ok (h\<lparr>h_reason := r\<rparr>) = history_ok h"
  "history_ok (h\<lparr>h_discontinuous := a\<rparr>) = history_ok h"
  "history_ok (h\<lparr>h_duration := d\<rparr>) = history_ok h"
  "history_ok (h\<lparr>h_continuous := c\<rparr>) = history_ok h"
  by (simp_all add: history_ok_def owns_def)

lemma history_ok_await: "history_ok h \<Longrightarrow> history_ok (h\<lparr>h_awaiting_keyframe := True\<rparr>)"
  by (simp add: history_ok_def owns_def)

text \<open>What every eviction loop keeps, whatever it evicts.\<close>

definition evicts :: "StreamHistory \<Rightarrow> StreamHistory \<Rightarrow> bool" where
  "evicts h h' \<longleftrightarrow> history_ok h' \<and> h_last_received_at h' = h_last_received_at h
     \<and> h_duration h' = h_duration h \<and> (h_awaiting_keyframe h \<longrightarrow> h_awaiting_keyframe h')
     \<and> h_discontinuous h' = h_discontinuous h \<and> (\<exists>gs. h_gops h = gs @ h_gops h')"

lemma evicts_trans: "evicts h h1 \<Longrightarrow> evicts h1 h2 \<Longrightarrow> evicts h h2"
  by (auto simp: evicts_def)

lemma evicts_reason [simp]:
  "evicts (h\<lparr>h_reason := r\<rparr>) h' = evicts h h'" "evicts h (h'\<lparr>h_reason := r\<rparr>) = evicts h h'"
  by (simp_all add: evicts_def)

lemma evict_oldest_evicts:
  assumes "evict_oldest h hp = (h', hp', p)" "history_ok h"
  shows "evicts h h'"
  using evict_oldest_ok [OF assms] evict_oldest_gops [OF assms(1)]
  by (cases "h_gops h") (auto simp: evicts_def)

lemma history_expire_evicts:
  "history_expire now h hp = (h', hp') \<Longrightarrow> history_ok h \<Longrightarrow>
     evicts h h' \<and> (h_gops h' \<noteq> [] \<longrightarrow> now - g_start (hd (h_gops h')) \<le> h_duration h)"
proof (induction now h hp rule: history_expire.induct)
  case (1 now h hp)
  show ?case
  proof (cases "h_gops h \<noteq> [] \<and> saturating_duration_since now (g_start (hd (h_gops h))) > h_duration h")
    case True
    obtain h1 hp1 p where e: "evict_oldest (h\<lparr>h_reason := DurationEviction\<rparr>) hp = (h1, hp1, p)"
      by (cases "evict_oldest (h\<lparr>h_reason := DurationEviction\<rparr>) hp") auto
    with True "1.prems" have "history_expire now h1 hp1 = (h', hp')"
      by (simp add: history_expire.simps [of now h])
    moreover have step: "evicts h h1"
      using evict_oldest_evicts [OF e] "1.prems"(2) by simp
    moreover have d: "history_ok h1" "h_duration h1 = h_duration h"
      using step by (simp_all add: evicts_def)
    ultimately have "evicts h1 h' \<and> (h_gops h' \<noteq> [] \<longrightarrow> now - g_start (hd (h_gops h')) \<le> h_duration h1)"
      using "1.IH" [OF True, of "(h1, hp1, p)"] e by simp
    with step d show ?thesis by (auto intro: evicts_trans)
  next
    case False
    with "1.prems" show ?thesis
      by (auto simp: history_expire.simps [of now h] evicts_def saturating_duration_since_def)
  qed
qed

lemma make_stream_room_evicts:
  "make_stream_room n h hp = (h', hp', room) \<Longrightarrow> history_ok h \<Longrightarrow> evicts h h'"
proof (induction n h hp rule: make_stream_room.induct)
  case (1 n h hp)
  show ?case
  proof (cases "budget_fits (budgets hp (h_budget h)) n")
    case True
    with "1.prems" show ?thesis by (auto simp: make_stream_room.simps [of n h] evicts_def)
  next
    case False
    obtain h1 hp1 p where e: "evict_oldest (h\<lparr>h_reason := StreamPressure\<rparr>) hp = (h1, hp1, p)"
      by (cases "evict_oldest (h\<lparr>h_reason := StreamPressure\<rparr>) hp") auto
    have step: "evicts h h1" using evict_oldest_evicts [OF e] "1.prems"(2) by simp
    then have "history_ok h1" by (simp add: evicts_def)
    moreover have "(if p then make_stream_room n h1 hp1 else (h1, hp1, False)) = (h', hp', room)"
      using "1.prems"(1) False e by (simp add: make_stream_room.simps [of n h])
    ultimately show ?thesis
      using "1.IH" [OF False e [symmetric]] step by (auto intro: evicts_trans split: if_splits)
  qed
qed

lemma evict_all_evicts:
  "evict_all h hp = (h', hp') \<Longrightarrow> history_ok h \<Longrightarrow> evicts h h' \<and> h_gops h' = []"
proof (induction h hp rule: evict_all.induct)
  case (1 h hp)
  obtain h1 hp1 p where e: "evict_oldest h hp = (h1, hp1, p)"
    by (cases "evict_oldest h hp") auto
  have step: "evicts h h1" using evict_oldest_evicts [OF e "1.prems"(2)] .
  then have "history_ok h1" by (simp add: evicts_def)
  moreover have "(if p then evict_all h1 hp1 else (h1, hp1)) = (h', hp')"
    using "1.prems"(1) e by (simp add: evict_all.simps [of h])
  ultimately show ?case
    using "1.IH" [OF e [symmetric]] evict_oldest_gops [OF e] step
    by (auto intro: evicts_trans split: if_splits)
qed

lemma discard_open_ok:
  assumes "discard_open h hp = (h', hp')" "history_ok h"
  shows "history_ok h' \<and> h_last_received_at h' = h_last_received_at h \<and> h_duration h' = h_duration h"
proof -
  have "gops_ok (h_last_received_at h) (h_gops h') \<and> h_last_received_at h' = h_last_received_at h
      \<and> h_duration h' = h_duration h \<and> h_awaiting_keyframe h'"
  proof (cases "h_continuous h")
    case True
    with assms show ?thesis
      by (auto simp: discard_open_def evicts_def split: prod.splits dest: evict_all_evicts)
  next
    case False
    with assms show ?thesis
      by (auto simp: discard_open_def history_ok_def rev_eq_Cons_iff gops_ok_butlast
            split: if_splits list.splits prod.splits)
  qed
  then show ?thesis
    using owns_sheds [OF discard_open_sheds [OF assms(1)]] assms(2) by (simp add: history_ok_def)
qed

lemma clear_gops_ok:
  "clear_gops h hp = (h', hp') \<Longrightarrow> history_ok h \<Longrightarrow> h_awaiting_keyframe h \<Longrightarrow> history_ok h'"
  using owns_sheds [OF clear_gops_sheds, of h hp h' hp'] by (auto simp: clear_gops_def history_ok_def)

lemma clear_history_ok:
  assumes "clear_history h hp = (h', hp')"
  shows "history_ok h'"
  using clear_history_sheds(2,3) [OF assms] assms
  by (auto simp: clear_history_def clear_gops_def history_ok_def hist_frames_def)

lemma history_ok_stamp:
  "history_ok h \<Longrightarrow> \<not> is_some_and (h_last_received_at h) (\<lambda>l. t < l) \<Longrightarrow>
   history_ok (h\<lparr>h_last_received_at := Some t\<rparr>)"
  using gops_ok_later [of "h_last_received_at h" "h_gops h" t]
  by (cases "h_last_received_at h") (auto simp: history_ok_def owns_def)

lemma evictsD:
  "evicts h h' \<Longrightarrow> history_ok h'" "evicts h h' \<Longrightarrow> h_duration h' = h_duration h"
  "evicts h h' \<Longrightarrow> h_last_received_at h' = h_last_received_at h"
  by (simp_all add: evicts_def)

lemma make_stream_room_ok:
  assumes "make_stream_room n h hp = (h', hp', room)" "history_ok h"
  shows "history_ok h' \<and> h_duration h' = h_duration h \<and> h_last_received_at h' = h_last_received_at h
    \<and> (room \<longrightarrow> budget_fits (budgets hp' (h_budget h')) n)"
  using make_stream_room_sheds [OF assms(1)] make_stream_room_evicts [OF assms] by (simp add: evicts_def)

lemma clear_gops_fields:
  assumes "clear_gops h hp = (h', hp')" "history_ok h" "h_awaiting_keyframe h"
  shows "history_ok h' \<and> h_duration h' = h_duration h \<and> h_last_received_at h' = h_last_received_at h"
  using clear_gops_ok [OF assms] assms(1) by (auto simp: clear_gops_def)

lemma admit_ok:
  assumes "admit f now gl h hp = (h', hp', ok)" "history_ok h"
  shows "history_ok h' \<and> h_duration h' = h_duration h
    \<and> (ok \<longrightarrow> h_last_received_at h' = Some (received_at f)
           \<and> (is_video_keyframe f \<or> \<not> h_awaiting_keyframe h')
           \<and> budget_fits (budgets hp' (h_budget h')) (byte_len f)
           \<and> received_at f \<le> now \<and> now - received_at f \<le> h_duration h \<and> byte_len f \<le> gl)"
proof -
  obtain h1 hp1 where e: "history_expire now h hp = (h1, hp1)"
    by (cases "history_expire now h hp") auto
  have h1: "history_ok h1" "h_duration h1 = h_duration h"
    using history_expire_evicts [OF e assms(2)] by (auto dest: evictsD)
  note stamp = history_ok_stamp [OF h1(1), of "received_at f"]
  show ?thesis
    using assms(1) e h1 stamp
    by (auto simp: admit_def Let_def saturating_duration_since_def
        split: prod.splits if_splits
        dest!: discard_open_ok clear_gops_fields make_stream_room_ok
        intro: history_ok_await)
qed

section \<open>The registry invariant\<close>

definition held :: "PreRecordBuffers \<Rightarrow> BufferedFrame list" where
  "held b = concat (map (\<lambda>e. hist_frames (snd e)) (nested_entries (p_streams b)))"

definition stream_ok :: "PreRecordBuffers \<Rightarrow> Heap \<Rightarrow> StreamHistory \<Rightarrow> bool" where
  "stream_ok b hp h \<longleftrightarrow>
     history_ok h
     \<and> h_budget h \<noteq> p_global_budget b \<and> h_budget h < next_budget hp
     \<and> b_max_bytes (budgets hp (h_budget h)) = p_stream_bytes b
     \<and> b_max_frames (budgets hp (h_budget h)) = MAX_STREAM_FRAMES
     \<and> (\<forall>f \<in> set (hist_frames h). r_global_budget (bf_reservation f) = p_global_budget b)"

text \<open>No two streams share a budget.\<close>

definition isolated :: "streams \<Rightarrow> bool" where
  "isolated m \<longleftrightarrow> (\<forall>k k' h h'. nested_get m k = Some h \<longrightarrow> nested_get m k' = Some h' \<longrightarrow>
      h_budget h = h_budget h' \<longrightarrow> k = k')"

text \<open>\<open>G\<close> are the byte limits the registry was created with, of a stream and of all streams.\<close>

definition buffers_ok :: "usize \<times> usize \<Rightarrow> PreRecordBuffers \<Rightarrow> Heap \<Rightarrow> bool" where
  "buffers_ok G b hp \<longleftrightarrow>
     nested_ok (p_streams b)
     \<and> (\<forall>k h. nested_get (p_streams b) k = Some h \<longrightarrow> stream_ok b hp h)
     \<and> isolated (p_streams b)
     \<and> p_global_budget b < next_budget hp
     \<and> p_stream_count b = length (nested_entries (p_streams b)) \<and> p_stream_count b \<le> MAX_STREAMS
     \<and> p_stream_bytes b \<le> u64_max \<and> p_stream_bytes b = fst G
     \<and> b_max_bytes (budgets hp (p_global_budget b)) = snd G
     \<and> b_max_frames (budgets hp (p_global_budget b)) = MAX_GLOBAL_FRAMES"

text \<open>A frame outside the buffers still holds its reservation on the registry's budget.\<close>

definition charged :: "PreRecordBuffers \<Rightarrow> BufferedFrame \<Rightarrow> bool" where
  "charged b f \<longleftrightarrow> r_global_budget (bf_reservation f) = p_global_budget b
     \<and> r_bytes (bf_reservation f) = byte_len (bf_frame f)"

text \<open>\<open>ext\<close> are the frames that have been handed out and not been dropped yet.\<close>

definition pre_inv :: "usize \<times> usize \<Rightarrow> PreRecordBuffers \<Rightarrow> Heap \<Rightarrow> BufferedFrame list \<Rightarrow> bool" where
  "pre_inv G b hp ext \<longleftrightarrow>
     buffers_ok G b hp \<and> accounts hp (held b @ ext) \<and> (\<forall>f \<in> set ext. charged b f)"

lemma mset_held:
  "mset (held b) = (\<Sum>e \<in># mset (nested_entries (p_streams b)). mset (hist_frames (snd e)))"
  by (simp add: held_def mset_concat sum_mset_sum_list comp_def flip: mset_map)

lemma stream_set_fields [simp]:
  "p_stream_count (stream_set s t h b) = p_stream_count b"
  "p_stream_bytes (stream_set s t h b) = p_stream_bytes b"
  "p_global_budget (stream_set s t h b) = p_global_budget b"
  "p_streams (stream_set s t h b) = nested_update (s, t) h (p_streams b)"
  by (simp_all add: stream_set_def)

lemma charged_set [simp]: "charged (stream_set s t h b) f = charged b f"
  by (simp add: charged_def)

lemma held_stream_set:
  assumes "nested_ok (p_streams b)" "stream_mut b s t = Some h"
  shows "mset (held (stream_set s t h' b)) + mset (hist_frames h) = mset (held b) + mset (hist_frames h')"
proof -
  let ?F = "\<lambda>E. \<Sum>e \<in># E. mset (hist_frames (snd e))"
  have "?F (add_mset ((s, t), h) (mset (nested_entries (nested_update (s, t) h' (p_streams b)))))
      = ?F (add_mset ((s, t), h') (mset (nested_entries (p_streams b))))"
    using nested.upd_over [of "p_streams b" "(s, t)" h h'] assms by (simp add: stream_mut_def)
  then show ?thesis by (simp add: mset_held add_ac)
qed

lemma stream_mut_set:
  assumes "nested_ok (p_streams b)" "stream_mut b s t = Some h"
  shows "stream_mut (stream_set s t h' b) s' t' = (if (s', t') = (s, t) then Some h' else stream_mut b s' t')"
  using nested.get_upd [OF assms(1), of "(s, t)" h h' "(s', t')"] assms(2) by (simp add: stream_mut_def)

lemma buffers_ok_stream:
  "buffers_ok G b hp \<Longrightarrow> nested_get (p_streams b) k = Some h \<Longrightarrow> stream_ok b hp h"
  unfolding buffers_ok_def by blast

lemma history_expire_ok: "history_expire now h hp = (h', hp') \<Longrightarrow> history_ok h \<Longrightarrow> history_ok h'"
  using history_expire_evicts [of now h hp h' hp'] by (simp add: evicts_def)

lemma stream_ok_cong:
  "stream_ok b hp h \<Longrightarrow> p_global_budget b' = p_global_budget b \<Longrightarrow> p_stream_bytes b' = p_stream_bytes b \<Longrightarrow>
   stream_ok b' (drop_frames ds hp) h"
  by (simp add: stream_ok_def)

lemma buffers_ok_set:
  assumes ok: "buffers_ok G b hp" and get: "stream_mut b s t = Some h"
    and h': "history_ok h'" "h_budget h' = h_budget h" "set (hist_frames h') \<subseteq> set (hist_frames h)"
  shows "buffers_ok G (stream_set s t h' b) (drop_frames ds hp)"
proof -
  have get': "nested_get (p_streams b) (s, t) = Some h" using get by (simp add: stream_mut_def)
  have nest: "nested_ok (p_streams b)" using ok by (simp add: buffers_ok_def)
  note upd = nested.get_upd [OF nest get'] and ok_upd = nested.ok_upd [OF nest get']
  have "stream_ok b hp h" by (rule buffers_ok_stream [OF ok get'])
  then have new: "stream_ok (stream_set s t h' b) (drop_frames ds hp) h'"
    using h' by (auto simp: stream_ok_def)
  have "stream_ok (stream_set s t h' b) (drop_frames ds hp) g"
    if "nested_get (nested_update (s, t) h' (p_streams b)) k = Some g" for k g
    using that new stream_ok_cong [OF buffers_ok_stream [OF ok, of k g]] by (simp add: upd split: if_splits)
  moreover have "isolated (nested_update (s, t) h' (p_streams b))"
    using ok h'(2) get' by (auto simp: upd isolated_def buffers_ok_def split: if_splits)
  ultimately show ?thesis
    using ok by (simp add: buffers_ok_def ok_upd nested.length_upd [OF nest get'])
qed

lemma pre_inv_set:
  assumes inv: "pre_inv G b hp ext" and get: "stream_mut b s t = Some h"
    and h': "history_ok h'" "h_budget h' = h_budget h"
    and frames: "mset (hist_frames h) = mset (hist_frames h') + mset ds + mset out"
  shows "pre_inv G (stream_set s t h' b) (drop_frames ds hp) (out @ ext)"
proof -
  have nest: "nested_ok (p_streams b)" and bok: "buffers_ok G b hp"
    using inv by (simp_all add: pre_inv_def buffers_ok_def)
  have sub: "set (hist_frames h') \<subseteq> set (hist_frames h)" "set out \<subseteq> set (hist_frames h)"
    using arg_cong [OF frames, where f = set_mset] by auto
  have "mset (held (stream_set s t h' b)) + mset (hist_frames h') + mset ds + mset out
      = mset (held b) + mset (hist_frames h')"
    using held_stream_set [OF nest get, of h'] frames by (simp add: add_ac)
  then have "mset (held b @ ext) = mset (ds @ (held (stream_set s t h' b) @ out @ ext))"
    by (simp add: add_ac)
  from accounts_mset [OF this] have "accounts hp (ds @ (held (stream_set s t h' b) @ out @ ext))"
    using inv by (simp add: pre_inv_def)
  moreover have "charged b f" if "f \<in> set out" for f
  proof -
    have "stream_ok b hp h"
      using buffers_ok_stream [OF bok] get by (simp add: stream_mut_def)
    then show ?thesis
      using that sub(2) by (auto simp: stream_ok_def history_ok_def owns_def charged_def)
  qed
  ultimately show ?thesis
    using inv accounts_drop buffers_ok_set [OF bok get h' sub(1)]
    by (auto simp: pre_inv_def)
qed

lemma pre_inv_sheds:
  assumes "pre_inv G b hp ext" "stream_mut b s t = Some h" "sheds h hp h' hp'" "history_ok h'"
  shows "pre_inv G (stream_set s t h' b) hp' ext"
proof -
  obtain ds where "mset (hist_frames h) = mset (hist_frames h') + mset ds" "hp' = drop_frames ds hp"
    using assms(3) by (auto simp: sheds_def)
  then show ?thesis
    using pre_inv_set [OF assms(1,2,4), of ds "[]"] assms(3) by (simp add: sheds_def)
qed

lemma pre_inv_get: "pre_inv G b hp ext \<Longrightarrow> stream_mut b s t = Some h \<Longrightarrow> stream_ok b hp h"
  by (auto simp: pre_inv_def stream_mut_def dest: buffers_ok_stream)

lemma pre_inv_get_ok: "pre_inv G b hp ext \<Longrightarrow> stream_mut b s t = Some h \<Longrightarrow> history_ok h"
  using pre_inv_get by (simp add: stream_ok_def)

lemma pre_inv_nested: "pre_inv G b hp ext \<Longrightarrow> nested_ok (p_streams b)"
  by (simp add: pre_inv_def buffers_ok_def)

section \<open>Every operation keeps the invariant\<close>

lemma set_continuous_inv: "pre_inv G b hp ext \<Longrightarrow> pre_inv G (set_continuous s t c b) hp ext"
  unfolding set_continuous_def
  using pre_inv_set [of G b hp ext s t _ _ "[]" "[]"] pre_inv_get_ok
  by (auto split: option.splits)

lemma clear_stream_inv:
  "clear_stream s t b hp = (b', hp') \<Longrightarrow> pre_inv G b hp ext \<Longrightarrow> pre_inv G b' hp' ext"
  unfolding clear_stream_def
  by (auto split: option.splits prod.splits intro: pre_inv_sheds clear_history_sheds(1) clear_history_ok)

lemma snapshot_inv:
  assumes "snapshot s t now b hp = (b', hp', r)" "pre_inv G b hp ext"
  shows "pre_inv G b' hp' ext"
proof (cases "stream_mut b s t")
  case None
  with assms show ?thesis by (simp add: snapshot_def)
next
  case (Some h)
  obtain h1 hp1 where e: "history_expire now h hp = (h1, hp1)"
    by (cases "history_expire now h hp") auto
  have "b' = stream_set s t h1 b" "hp' = hp1"
    using assms(1) Some e by (auto simp: snapshot_def Let_def)
  with pre_inv_sheds [OF assms(2) Some history_expire_sheds [OF e]]
    history_expire_ok [OF e pre_inv_get_ok [OF assms(2) Some]]
  show ?thesis by simp
qed

lemma retain_audio_mset:
  "retain_audio a w fs = (kept, dropped) \<Longrightarrow> mset fs = mset kept + mset dropped"
  by (induction a w fs arbitrary: kept dropped rule: retain_audio.induct)
    (auto simp: Let_def split: MediaFrame.splits option.splits if_splits prod.splits)

lemma trim_audio_mset:
  "trim_audio_to_video fs = (kept, dropped) \<Longrightarrow> mset fs = mset kept + mset dropped"
  by (auto simp: trim_audio_to_video_def Let_def retain_audio_mset split: list.splits)

lemma buffers_take_inv:
  assumes "buffers_take s t now b hp = (b', hp', out)" "pre_inv G b hp ext"
  shows "pre_inv G b' hp' (out @ ext)"
proof (cases "stream_mut b s t")
  case None
  with assms show ?thesis by (simp add: buffers_take_def)
next
  case (Some h)
  obtain h1 hp1 where e: "history_expire now h hp = (h1, hp1)"
    by (cases "history_expire now h hp") auto
  let ?fs = "concat (map g_frames (h_gops h1))"
  obtain kept dropped where t: "trim_audio_to_video ?fs = (kept, dropped)"
    by (cases "trim_audio_to_video ?fs") auto
  define h2 where "h2 = (let h2 = h1\<lparr>h_awaiting_keyframe := True, h_gops := []\<rparr>
      in if ?fs \<noteq> [] then h2\<lparr>h_reason := Startup\<rparr> else h2)"
  have r: "b' = stream_set s t h2 b" "hp' = drop_frames dropped hp1" "out = kept"
    using assms(1) Some e t by (auto simp: buffers_take_def Let_def h2_def)
  obtain ds where ds: "mset (hist_frames h) = mset (hist_frames h1) + mset ds" "hp1 = drop_frames ds hp"
    and hb: "h_budget h1 = h_budget h"
    using history_expire_sheds [OF e] by (auto simp: sheds_def)
  have ok1: "history_ok h1"
    by (rule history_expire_ok [OF e pre_inv_get_ok [OF assms(2) Some]])
  have h2: "hist_frames h2 = h_released h1" "h_budget h2 = h_budget h"
    using hb by (simp_all add: h2_def hist_frames_def Let_def)
  moreover have "history_ok h2"
    using ok1 by (auto simp: h2_def history_ok_def hist_frames_def owns_def Let_def)
  moreover have "mset (hist_frames h) = mset (hist_frames h2) + mset (ds @ dropped) + mset out"
    unfolding h2(1) ds(1) r(3) using trim_audio_mset [OF t] by (simp add: hist_frames_def add_ac)
  ultimately show ?thesis
    using pre_inv_set [OF assms(2) Some, of h2 "ds @ dropped" out] r ds(2) by simp
qed

lemma first_released_Some:
  "first_released es = Some (k, h, f, fs) \<Longrightarrow> (k, h) \<in> set es \<and> h_released h = f # fs"
  by (induction es rule: first_released.induct) (auto split: list.splits)

lemma next_released_inv:
  assumes "next_released b = (b', r)" "pre_inv G b hp ext"
  shows "pre_inv G b' hp ((case r of None \<Rightarrow> [] | Some (s, t, f) \<Rightarrow> [f]) @ ext)"
proof (cases "first_released (nested_entries (p_streams b))")
  case None
  with assms show ?thesis by (auto simp: next_released_def)
next
  case (Some x)
  then obtain s t h f fs where x: "first_released (nested_entries (p_streams b)) = Some ((s, t), h, f, fs)"
    by (metis prod_cases5 surj_pair)
  have get: "stream_mut b s t = Some h" and rel: "h_released h = f # fs"
    using first_released_Some [OF x] nested.entries_get [OF pre_inv_nested [OF assms(2)]]
    by (simp_all add: stream_mut_def)
  have "b' = stream_set s t (h\<lparr>h_released := fs\<rparr>) b" "r = Some (s, t, f)"
    using assms(1) x by (auto simp: next_released_def)
  moreover have "history_ok (h\<lparr>h_released := fs\<rparr>)"
    using pre_inv_get_ok [OF assms(2) get] rel by (auto simp: history_ok_def hist_frames_def owns_def)
  ultimately show ?thesis
    using pre_inv_set [OF assms(2) get, of "h\<lparr>h_released := fs\<rparr>" "[]" "[f]"] rel
    by (simp add: hist_frames_def)
qed

text \<open>Loops over all streams: each history is replaced by one that kept some of its frames.\<close>

definition kept :: "StreamHistory \<Rightarrow> StreamHistory \<Rightarrow> bool" where
  "kept h h' \<longleftrightarrow> history_ok h' \<and> h_budget h' = h_budget h \<and> set (hist_frames h') \<subseteq> set (hist_frames h)"

abbreviation inner_rel :: "(string, StreamHistory) btree \<Rightarrow> (string, StreamHistory) btree \<Rightarrow> bool" where
  "inner_rel \<equiv> list_all2 (\<lambda>e e'. fst e' = fst e \<and> kept (snd e) (snd e'))"

abbreviation outer_rel :: "streams \<Rightarrow> streams \<Rightarrow> bool" where
  "outer_rel \<equiv> list_all2 (\<lambda>e e'. fst e' = fst e \<and> inner_rel (snd e) (snd e'))"

definition inner_frames :: "(string, StreamHistory) btree \<Rightarrow> BufferedFrame list" where
  "inner_frames m = concat (map (\<lambda>e. hist_frames (snd e)) m)"

lemma inner_frames_simps [simp]:
  "inner_frames [] = []"
  "inner_frames (e # m) = hist_frames (snd e) @ inner_frames m"
  by (simp_all add: inner_frames_def)

lemma held_alt: "held b = concat (map (\<lambda>e. inner_frames (snd e)) (p_streams b))"
proof -
  have "concat (map (\<lambda>e. hist_frames (snd e)) (nested_entries m)) = concat (map (\<lambda>e. inner_frames (snd e)) m)" for m
    by (induction m) (auto simp: nested_entries_def inner_frames_def comp_def case_prod_beta)
  then show ?thesis by (simp add: held_def)
qed

lemma sheds_kept: "sheds h hp h' hp' \<Longrightarrow> history_ok h' \<Longrightarrow> kept h h'"
  by (auto simp: sheds_def kept_def dest!: arg_cong [where f = set_mset])

lemma update_values_rel:
  assumes F: "\<And>h hp h' hp'. f h hp = (h', hp') \<Longrightarrow> history_ok h \<Longrightarrow> sheds h hp h' hp' \<and> history_ok h'"
  shows "update_values f m hp = (m', hp') \<Longrightarrow> \<forall>e \<in> set m. history_ok (snd e) \<Longrightarrow>
    inner_rel m m' \<and> (\<exists>ds. mset (inner_frames m) = mset (inner_frames m') + mset ds \<and> hp' = drop_frames ds hp)"
proof (induction m arbitrary: hp m')
  case (Cons e m)
  obtain t h where e: "e = (t, h)" by (cases e)
  obtain h1 hp1 where 1: "f h hp = (h1, hp1)" by (cases "f h hp")
  obtain m1 where 2: "update_values f m hp1 = (m1, hp')" and m': "m' = (t, h1) # m1"
    using Cons.prems(1) e 1 by (auto split: prod.splits)
  have step: "sheds h hp h1 hp1" "history_ok h1" using F [OF 1] Cons.prems(2) e by auto
  obtain ds1 where "mset (hist_frames h) = mset (hist_frames h1) + mset ds1" "hp1 = drop_frames ds1 hp"
    using step(1) by (auto simp: sheds_def)
  moreover obtain ds2 where "inner_rel m m1" "mset (inner_frames m) = mset (inner_frames m1) + mset ds2"
      "hp' = drop_frames ds2 hp1"
    using Cons.IH [OF 2] Cons.prems(2) by auto
  ultimately show ?case
    using sheds_kept [OF step] e m' by (auto intro!: exI [of _ "ds1 @ ds2"])
qed simp

lemma update_all_values_rel:
  assumes F: "\<And>h hp h' hp'. f h hp = (h', hp') \<Longrightarrow> history_ok h \<Longrightarrow> sheds h hp h' hp' \<and> history_ok h'"
  shows "update_all_values f m hp = (m', hp') \<Longrightarrow> \<forall>e \<in> set m. \<forall>e' \<in> set (snd e). history_ok (snd e') \<Longrightarrow>
    outer_rel m m' \<and> (\<exists>ds. mset (concat (map (\<lambda>e. inner_frames (snd e)) m))
        = mset (concat (map (\<lambda>e. inner_frames (snd e)) m')) + mset ds \<and> hp' = drop_frames ds hp)"
proof (induction m arbitrary: hp m')
  case (Cons e m)
  obtain s i where e: "e = (s, i)" by (cases e)
  obtain i1 hp1 where 1: "update_values f i hp = (i1, hp1)" by (cases "update_values f i hp")
  obtain m1 where 2: "update_all_values f m hp1 = (m1, hp')" and m': "m' = (s, i1) # m1"
    using Cons.prems(1) e 1 by (auto split: prod.splits)
  obtain ds1 where "inner_rel i i1" "mset (inner_frames i) = mset (inner_frames i1) + mset ds1"
      "hp1 = drop_frames ds1 hp"
    using update_values_rel [OF F 1] Cons.prems(2) e by auto
  moreover obtain ds2 where "outer_rel m m1"
      "mset (concat (map (\<lambda>e. inner_frames (snd e)) m)) = mset (concat (map (\<lambda>e. inner_frames (snd e)) m1)) + mset ds2"
      "hp' = drop_frames ds2 hp1"
    using Cons.IH [OF 2] Cons.prems(2) by auto
  ultimately show ?case
    using e m' by (auto intro!: exI [of _ "ds1 @ ds2"])
qed simp

lemma rel_keys: "list_all2 (\<lambda>e e'. fst e' = fst e \<and> R (snd e) (snd e')) m m' \<Longrightarrow> map fst m' = map fst m"
  by (induction rule: list_all2_induct) auto

lemma rel_get:
  assumes "list_all2 (\<lambda>e e'. fst e' = fst e \<and> R (snd e) (snd e')) m m'"
  shows "bt_get m' k = Some v' \<Longrightarrow> \<exists>v. bt_get m k = Some v \<and> R v v'"
  using assms by (induction rule: list_all2_induct) (auto simp: bt_get_def split: if_splits)

lemma outer_get:
  assumes "outer_rel m m'" "nested_get m' k = Some h'"
  shows "\<exists>h. nested_get m k = Some h \<and> kept h h'"
proof -
  obtain i' where i': "bt_get m' (fst k) = Some i'" "bt_get i' (snd k) = Some h'"
    using assms(2) by (auto simp: nested_get_def split: option.splits)
  obtain i where i: "bt_get m (fst k) = Some i" "inner_rel i i'"
    using rel_get [OF assms(1) i'(1)] by auto
  from rel_get [OF i(2) i'(2)] i(1) show ?thesis by (auto simp: nested_get_def)
qed

lemma outer_rel_nested_ok:
  assumes "outer_rel m m'" "nested_ok m"
  shows "nested_ok m'"
proof -
  have "bt_ok i'" if mem: "(s, i') \<in> set m'" for s i'
  proof -
    obtain n where "n < length m'" "m' ! n = (s, i')" using mem by (auto simp: in_set_conv_nth)
    with assms(1) have rel: "inner_rel (snd (m ! n)) i'" and "m ! n \<in> set m"
      by (auto simp: list_all2_conv_all_nth)
    then have "bt_ok (snd (m ! n))" using assms(2) by (auto simp: nested_ok_def)
    then show ?thesis by (simp add: bt_ok_def rel_keys [OF rel])
  qed
  moreover have "bt_ok m'"
    using assms(2) rel_keys [OF assms(1)] by (simp add: nested_ok_def bt_ok_def)
  ultimately show ?thesis by (auto simp: nested_ok_def)
qed

lemma outer_rel_length: "outer_rel m m' \<Longrightarrow> length (nested_entries m') = length (nested_entries m)"
  by (induction rule: list_all2_induct)
    (auto simp: nested_entries_def case_prod_beta dest: list_all2_lengthD)

lemma pre_inv_pointwise:
  assumes inv: "pre_inv G b hp ext" and rel: "outer_rel (p_streams b) m'"
    and frames: "mset (held b) = mset (held (b\<lparr>p_streams := m'\<rparr>)) + mset ds"
  shows "pre_inv G (b\<lparr>p_streams := m'\<rparr>) (drop_frames ds hp) ext"
proof -
  let ?b = "b\<lparr>p_streams := m'\<rparr>"
  have bok: "buffers_ok G b hp" using inv by (simp add: pre_inv_def)
  have "stream_ok ?b (drop_frames ds hp) h'" if get: "nested_get m' k = Some h'" for k h'
  proof -
    obtain h where "nested_get (p_streams b) k = Some h" "kept h h'"
      using outer_get [OF rel get] by blast
    then show ?thesis
      using buffers_ok_stream [OF bok, of k h] by (auto simp: stream_ok_def kept_def)
  qed
  moreover have "isolated m'"
  proof (unfold isolated_def, intro allI impI)
    fix k k' h h'
    assume g: "nested_get m' k = Some h" "nested_get m' k' = Some h'" "h_budget h = h_budget h'"
    obtain a c where "nested_get (p_streams b) k = Some a" "nested_get (p_streams b) k' = Some c"
        "kept a h" "kept c h'"
      using outer_get [OF rel g(1)] outer_get [OF rel g(2)] by blast
    with g(3) bok show "k = k'" unfolding buffers_ok_def isolated_def kept_def by metis
  qed
  ultimately have "buffers_ok G ?b (drop_frames ds hp)"
    using bok outer_rel_nested_ok [OF rel] outer_rel_length [OF rel]
    by (simp add: buffers_ok_def)
  moreover have "accounts hp (ds @ held ?b @ ext)"
    using inv accounts_mset [of "held b @ ext" "ds @ held ?b @ ext" hp] frames
    by (simp add: pre_inv_def add_ac)
  ultimately show ?thesis
    using inv accounts_drop by (auto simp: pre_inv_def charged_def)
qed

lemma pre_inv_all_ok: "pre_inv G b hp ext \<Longrightarrow> e \<in> set (p_streams b) \<Longrightarrow> e' \<in> set (snd e) \<Longrightarrow> history_ok (snd e')"
proof (cases e; cases e')
  fix s i t h
  assume inv: "pre_inv G b hp ext" "e \<in> set (p_streams b)" "e' \<in> set (snd e)"
    and e: "e = (s, i)" "e' = (t, h)"
  then have "((s, t), h) \<in> set (nested_entries (p_streams b))"
    by (auto simp: set_nested_entries)
  then show ?thesis
    using nested.entries_get [OF pre_inv_nested [OF inv(1)]] pre_inv_get_ok [OF inv(1)] e
    by (simp add: stream_mut_def)
qed

lemma expire_inv:
  assumes "expire now b hp = (b', hp')" "pre_inv G b hp ext"
  shows "pre_inv G b' hp' ext"
proof -
  obtain m' where u: "update_all_values (history_expire now) (p_streams b) hp = (m', hp')"
    and b': "b' = b\<lparr>p_streams := m'\<rparr>"
    using assms(1) by (auto simp: expire_def split: prod.splits)
  obtain ds where "outer_rel (p_streams b) m'" "hp' = drop_frames ds hp"
      "mset (held b) = mset (held b') + mset ds"
    using update_all_values_rel [OF _ u] pre_inv_all_ok [OF assms(2)]
      history_expire_sheds history_expire_ok b' by (auto simp: held_alt)
  with pre_inv_pointwise [OF assms(2)] b' show ?thesis by simp
qed

lemma outer_rel_refl: "(\<And>e e'. e \<in> set m \<Longrightarrow> e' \<in> set (snd e) \<Longrightarrow> history_ok (snd e')) \<Longrightarrow> outer_rel m m"
  by (intro list.rel_refl_strong conjI refl) (auto simp: kept_def)

lemma outer_rel_update:
  assumes "outer_rel m m" "bt_get m s = Some i" "inner_rel i i'"
  shows "outer_rel m (bt_update s i' m)"
  using assms by (induction s i' m rule: bt_update.induct) (auto simp: bt_get_def split: if_splits)

lemma frames_bt_update:
  assumes "bt_get m s = Some i"
  shows "mset (concat (map (\<lambda>e. inner_frames (snd e)) (bt_update s i' m))) + mset (inner_frames i)
    = mset (concat (map (\<lambda>e. inner_frames (snd e)) m)) + mset (inner_frames i')"
  using assms by (induction s i' m rule: bt_update.induct) (auto simp: bt_get_def split: if_splits)

lemma clear_source_inv:
  assumes "clear_source s b hp = (b', hp')" "pre_inv G b hp ext"
  shows "pre_inv G b' hp' ext"
proof (cases "bt_get (p_streams b) s")
  case None
  with assms show ?thesis by (simp add: clear_source_def)
next
  case (Some i)
  obtain i' where u: "update_values clear_history i hp = (i', hp')"
    and b': "b' = b\<lparr>p_streams := bt_update s i' (p_streams b)\<rparr>"
    using assms(1) Some by (auto simp: clear_source_def split: prod.splits)
  have "(s, i) \<in> set (p_streams b)" using Some by (simp add: bt_get_def map_of_SomeD)
  then have "\<forall>e \<in> set i. history_ok (snd e)" using pre_inv_all_ok [OF assms(2)] by fastforce
  then obtain ds where rel: "inner_rel i i'"
    and ds: "mset (inner_frames i) = mset (inner_frames i') + mset ds" "hp' = drop_frames ds hp"
    using update_values_rel [OF _ u] clear_history_sheds(1) clear_history_ok by blast
  have "outer_rel (p_streams b) (bt_update s i' (p_streams b))"
    using outer_rel_update [OF outer_rel_refl Some rel] pre_inv_all_ok [OF assms(2)] by blast
  moreover have "mset (held b) = mset (held b') + mset ds"
    using frames_bt_update [OF Some, of i'] ds(1) b' by (simp add: held_alt add_ac)
  ultimately show ?thesis
    using pre_inv_pointwise [OF assms(2)] b' ds(2) by simp
qed

lemma remove_source_inv:
  assumes "remove_source s b hp = (b', hp')" "pre_inv G b hp ext"
  shows "pre_inv G b' hp' ext"
proof (cases "bt_get (p_streams b) s")
  case None
  with assms show ?thesis by (simp add: remove_source_def)
next
  case (Some i)
  let ?m = "bt_remove s (p_streams b)"
  have b': "b' = b\<lparr>p_streams := ?m, p_stream_count := p_stream_count b - length i\<rparr>"
    and hp': "hp' = drop_frames (inner_frames i) hp"
    using assms(1) Some by (auto simp: remove_source_def inner_frames_def)
  have bok: "buffers_ok G b hp" and nest: "nested_ok (p_streams b)"
    using assms(2) by (simp_all add: pre_inv_def buffers_ok_def)
  have m: "mset (p_streams b) = add_mset (s, i) (mset ?m)"
    using bt.del_present [of "p_streams b" s i] Some nest by (simp add: nested_ok_def)
  have get: "nested_get ?m k = (if fst k = s then None else nested_get (p_streams b) k)" for k
    by (simp add: nested_get_def bt_get_remove)
  have nest': "nested_ok ?m"
    using nest bt_ok_remove [of "p_streams b" s] by (auto simp: nested_ok_def bt_remove_def)
  have len: "length (nested_entries (p_streams b)) = length i + length (nested_entries ?m)"
  proof -
    have L: "length (nested_entries m) = (\<Sum>e \<in># mset m. length (snd e))" for m :: streams
      by (induction m) (auto simp: nested_entries_def case_prod_beta)
    show ?thesis unfolding L m by simp
  qed
  have held: "mset (held b) = mset (inner_frames i) + mset (held b')"
  proof -
    have H: "mset (held c) = (\<Sum>e \<in># mset (p_streams c). mset (inner_frames (snd e)))" for c :: PreRecordBuffers
      by (simp add: held_alt mset_concat sum_mset_sum_list comp_def flip: mset_map)
    show ?thesis unfolding H b' by (simp add: m)
  qed
  have "stream_ok b' hp' h" if "nested_get ?m k = Some h" for k h
  proof -
    have "stream_ok b hp h" using that buffers_ok_stream [OF bok, of k h] by (simp add: get split: if_splits)
    then show ?thesis by (simp add: b' hp' stream_ok_def)
  qed
  moreover have "isolated ?m"
    using bok by (auto simp: buffers_ok_def isolated_def get split: if_splits)
  ultimately have "buffers_ok G b' hp'"
    using bok nest' len by (simp add: buffers_ok_def b' hp')
  moreover have "accounts hp (inner_frames i @ held b' @ ext)"
    using assms(2) accounts_mset [of "held b @ ext" "inner_frames i @ held b' @ ext" hp] held
    by (simp add: pre_inv_def add_ac)
  ultimately show ?thesis
    using assms(2) accounts_drop by (auto simp: pre_inv_def charged_def b' hp')
qed

lemma accounts_arc_new:
  assumes "accounts hp fs" "arc_new (Budget_new n k) hp = (i, hp')" "n \<le> u64_max" "k \<le> u64_max"
  shows "accounts hp' fs"
proof -
  have hp': "i = next_budget hp" "hp' = hp\<lparr>budgets := (budgets hp)(i := Budget_new n k), next_budget := Suc i\<rparr>"
    using assms(2) by (auto simp: arc_new_def)
  have res: "reservation_ok hp f" if "f \<in> set fs" for f
    using assms(1) that by (simp add: accounts_def)
  then have "\<not> on_budget i f" if "f \<in> set fs" for f
    using that hp'(1) by (fastforce simp: reservation_ok_def on_budget_def)
  then have zero: "reserved_bytes i fs = 0" "reserved_frames i fs = 0"
    by (simp_all add: reserved_bytes_def reserved_frames_def filter_empty_conv flip: not_ex)
  have "budget_exact (budgets hp' j) (reserved_bytes j fs) (reserved_frames j fs)" if "j < next_budget hp'" for j
  proof (cases "j = i")
    case True
    then show ?thesis using zero assms(3,4) by (simp add: hp'(2) budget_exact_def Budget_new_def)
  next
    case False
    then show ?thesis using that accountsD [OF assms(1), of j] hp' by simp
  qed
  moreover have "reservation_ok hp' f" if "f \<in> set fs" for f
    using res [OF that] hp' by (auto simp: reservation_ok_def)
  ultimately show ?thesis by (simp add: accounts_def)
qed

lemma configure_inv:
  assumes c: "configure s t d b hp = (b', hp', r)" and inv: "pre_inv G b hp ext"
  shows "pre_inv G b' hp' ext"
proof (cases "stream_mut b s t")
  case (Some h)
  obtain h1 hp1 where e: "clear_history h hp = (h1, hp1)" by (cases "clear_history h hp")
  have "pre_inv G (stream_set s t (h1\<lparr>h_duration := d\<rparr>) b) hp1 ext"
    using pre_inv_sheds [OF inv Some, of "h1\<lparr>h_duration := d\<rparr>" hp1]
      clear_history_sheds(1) [OF e] clear_history_ok [OF e] by simp
  with c inv Some e show ?thesis by (auto simp: configure_def split: if_splits)
next
  case None
  show ?thesis
  proof (cases "r")
    case False
    with c inv None show ?thesis by (auto simp: configure_def arc_new_def Let_def split: if_splits)
  next
    case True
    let ?arc = "arc_new (Budget_new (p_stream_bytes b) MAX_STREAM_FRAMES) hp"
    define h where "h = \<lparr>h_duration = d, h_budget = next_budget hp, h_gops = [], h_awaiting_keyframe = True,
                      h_discontinuous = False, h_last_received_at = None, h_reason = Startup,
                      h_continuous = False, h_released = []\<rparr>"
    have b': "b' = b\<lparr>p_streams := nested_insert (s, t) h (p_streams b), p_stream_count := Suc (p_stream_count b)\<rparr>"
      and hp': "?arc = (next_budget hp, hp')" and room: "p_stream_count b \<noteq> MAX_STREAMS"
      using c None True by (auto simp: configure_def arc_new_def Let_def h_def split: if_splits)
    have hp'_eq: "hp' = hp\<lparr>budgets := (budgets hp)(next_budget hp := Budget_new (p_stream_bytes b) MAX_STREAM_FRAMES),
        next_budget := Suc (next_budget hp)\<rparr>"
      using hp' by (simp add: arc_new_def)
    have bok: "buffers_ok G b hp" and nest: "nested_ok (p_streams b)"
      using inv by (simp_all add: pre_inv_def buffers_ok_def)
    have none: "nested_get (p_streams b) (s, t) = None" using None by (simp add: stream_mut_def)
    note get = nested.get_ins [OF nest, of "(s, t)" h]
    have old: "stream_ok b' hp' g \<and> h_budget g \<noteq> next_budget hp" if "nested_get (p_streams b) k = Some g" for k g
      using buffers_ok_stream [OF bok that] by (auto simp: stream_ok_def b' hp'_eq)
    have new: "stream_ok b' hp' h"
      using bok by (auto simp: stream_ok_def h_def b' hp'_eq history_ok_def hist_frames_def Budget_new_def buffers_ok_def)
    have "stream_ok b' hp' g" if "nested_get (p_streams b') k = Some g" for k g
      using that old new by (auto simp: b' get split: if_splits)
    moreover have "isolated (p_streams b')"
    proof (unfold isolated_def, intro allI impI)
      fix k k' g g'
      assume "nested_get (p_streams b') k = Some g" "nested_get (p_streams b') k' = Some g'" "h_budget g = h_budget g'"
      moreover have "h_budget h = next_budget hp" by (simp add: h_def)
      moreover have "isolated (p_streams b)" using bok by (simp add: buffers_ok_def)
      ultimately show "k = k'"
        using old unfolding isolated_def by (cases k; cases k') (auto simp: b' get split: if_splits)
    qed
    ultimately have "buffers_ok G b' hp'"
      using bok room nested.ok_ins [OF nest] nested.length_ins_new [OF nest none]
      by (simp add: buffers_ok_def b' hp'_eq)
    moreover have "mset (held b') = mset (held b)"
      using nested.ins_new [OF nest none, of h] by (simp add: mset_held b') (simp add: h_def hist_frames_def)
    then have "accounts hp' (held b' @ ext)"
      using accounts_arc_new [OF _ hp'] inv bok accounts_mset [of "held b @ ext" "held b' @ ext"]
      by (simp add: pre_inv_def buffers_ok_def MAX_STREAM_FRAMES_def u64_max_def)
    ultimately show ?thesis
      using inv by (simp add: pre_inv_def charged_def b')
  qed
qed


lemma foldl_min_in: "foldl min c cs \<in> set (c # cs)" for c :: "'a::linorder"
proof (induction cs arbitrary: c)
  case (Cons d cs)
  have "foldl min (min c d) cs \<in> set (min c d # cs)" by (rule Cons.IH)
  then show ?case by (cases "c \<le> d") (auto simp: min_absorb1 min_absorb2)
qed simp

lemma oldest_gop_registered:
  assumes "nested_ok m" "oldest_gop m = Some (t0, s, t)"
  shows "\<exists>h g gs. nested_get m (s, t) = Some h \<and> h_gops h = g # gs \<and> g_start g = t0"
proof -
  obtain c cs where "gop_fronts m = c # cs" "foldl min c cs = (t0, s, t)"
    using assms(2) by (auto simp: oldest_gop_def split: list.splits)
  then have "(t0, s, t) \<in> set (gop_fronts m)"
    using foldl_min_in [of c cs] by simp
  then obtain h where "((s, t), h) \<in> set (nested_entries m)"
    and "(t0, s, t) \<in> set (case h_gops h of [] \<Rightarrow> [] | g # _ \<Rightarrow> [(g_start g, s, t)])"
    by (auto simp: gop_fronts_def split: list.splits)
  then show ?thesis
    using nested.entries_get [OF assms(1)] by (cases "h_gops h") auto
qed

text \<open>What making room may do to the stream that asked for it.\<close>

definition same_stream :: "StreamHistory \<Rightarrow> StreamHistory \<Rightarrow> bool" where
  "same_stream h h' \<longleftrightarrow> h_last_received_at h' = h_last_received_at h \<and> h_duration h' = h_duration h
     \<and> h_budget h' = h_budget h \<and> (h_awaiting_keyframe h \<longrightarrow> h_awaiting_keyframe h')"

lemma evict_oldest_same: "evict_oldest h hp = (h', hp', p) \<Longrightarrow> same_stream h h'"
  by (auto simp: evict_oldest.simps same_stream_def Let_def split: list.splits if_splits)

lemma evict_same: "evict_oldest (h\<lparr>h_reason := r\<rparr>) hp = (h', hp', p) \<Longrightarrow> same_stream h h'"
  using evict_oldest_same [of "h\<lparr>h_reason := r\<rparr>" hp h' hp' p] by (simp add: same_stream_def)

text \<open>
  What a run of \<open>make_global_room\<close> on a well-formed registry is made of: it ends with room, with no
  GOP left to evict, at a GOP younger than the incoming keyframe or with the asking stream's open GOP
  evicted; any other turn evicts the oldest GOP and goes on.
\<close>

lemma make_global_room_induct [consumes 2, case_names fits none young stop step]:
  assumes run: "make_global_room s t f b hp = r" and inv: "pre_inv G b hp ext"
    and fits: "\<And>b hp. pre_inv G b hp ext \<Longrightarrow> budget_fits (budgets hp (p_global_budget b)) (byte_len f) \<Longrightarrow>
      P b hp (b, hp, True)"
    and none: "\<And>b hp. pre_inv G b hp ext \<Longrightarrow> oldest_gop (p_streams b) = None \<Longrightarrow> P b hp (b, hp, False)"
    and young: "\<And>b hp t0 s0 t1. pre_inv G b hp ext \<Longrightarrow> oldest_gop (p_streams b) = Some (t0, s0, t1) \<Longrightarrow>
      is_video_keyframe f \<Longrightarrow> (received_at f, s, t) < (t0, s0, t1) \<Longrightarrow> P b hp (b, hp, False)"
    and stop: "\<And>b hp s0 t1 h0 h1 hp1 p. pre_inv G b hp ext \<Longrightarrow> stream_mut b s0 t1 = Some h0 \<Longrightarrow>
      evict_oldest (h0\<lparr>h_reason := GlobalPressure\<rparr>) hp = (h1, hp1, p) \<Longrightarrow>
      pre_inv G (stream_set s0 t1 h1 b) hp1 ext \<Longrightarrow> \<not> is_video_keyframe f \<Longrightarrow>
      is_some_and (stream_mut (stream_set s0 t1 h1 b) s t) h_awaiting_keyframe \<Longrightarrow>
      P b hp (stream_set s0 t1 h1 b, hp1, False)"
    and step: "\<And>b hp s0 t1 h0 h1 hp1 p r. pre_inv G b hp ext \<Longrightarrow> stream_mut b s0 t1 = Some h0 \<Longrightarrow>
      evict_oldest (h0\<lparr>h_reason := GlobalPressure\<rparr>) hp = (h1, hp1, p) \<Longrightarrow>
      pre_inv G (stream_set s0 t1 h1 b) hp1 ext \<Longrightarrow> P (stream_set s0 t1 h1 b) hp1 r \<Longrightarrow> P b hp r"
  shows "P b hp r"
  using assms
proof (induction s t f b hp rule: make_global_room.induct)
  case (1 s t f b hp)
  note run = "1.prems"(1) and inv = "1.prems"(2)
  show ?case
  proof (cases "budget_fits (budgets hp (p_global_budget b)) (byte_len f)")
    case True
    with run "1.prems"(3) [OF inv] show ?thesis by (simp add: make_global_room.simps [of s t f b])
  next
    case nofit: False
    show ?thesis
    proof (cases "oldest_gop (p_streams b)")
      case None
      with nofit run "1.prems"(4) [OF inv] show ?thesis by (simp add: make_global_room.simps [of s t f b])
    next
      case (Some o1)
      then obtain t0 s0 t1 where o: "oldest_gop (p_streams b) = Some (t0, s0, t1)" by (cases o1) auto
      obtain h0 where h0: "stream_mut b s0 t1 = Some h0" "h_gops h0 \<noteq> []"
        using oldest_gop_registered [OF pre_inv_nested [OF inv] o] by (auto simp: stream_mut_def)
      obtain h1 hp1 p where e: "evict_oldest (h0\<lparr>h_reason := GlobalPressure\<rparr>) hp = (h1, hp1, p)"
        by (cases "evict_oldest (h0\<lparr>h_reason := GlobalPressure\<rparr>) hp") auto
      define b1 where "b1 = stream_set s0 t1 h1 b"
      have inv1: "pre_inv G b1 hp1 ext"
        unfolding b1_def using evict_oldest_sheds [OF e] evict_oldest_ok(1) [OF e] pre_inv_get_ok [OF inv h0(1)]
        by (intro pre_inv_sheds [OF inv h0(1)]) simp_all
      let ?young = "is_video_keyframe f \<and> (received_at f, s, t) < (t0, s0, t1)"
      let ?stop = "\<not> is_video_keyframe f \<and> is_some_and (stream_mut b1 s t) h_awaiting_keyframe"
      have r: "r = (if ?young then (b, hp, False) else if ?stop then (b1, hp1, False)
          else make_global_room s t f b1 hp1)"
        using run nofit o h0 e
        by (simp add: make_global_room.simps [of s t f b] Let_def flip: b1_def cong: if_cong)
      consider (y) ?young | (st) "\<not> ?young" ?stop | (go) "\<not> ?young" "\<not> ?stop" by blast
      then show ?thesis
      proof cases
        case y
        then have "r = (b, hp, False)" using r by (simp only: simp_thms if_True)
        with y "1.prems"(5) [OF inv o] show ?thesis by blast
      next
        case st
        then have "r = (b1, hp1, False)" using r by (simp only: simp_thms if_True if_False)
        with st "1.prems"(6) [OF inv h0(1) e] inv1 show ?thesis unfolding b1_def by blast
      next
        case go
        then have rec: "make_global_room s t f b1 hp1 = r"
          using r by (simp only: if_False simp_thms)
        have "P b1 hp1 r"
          by (rule "1.IH" [OF nofit o refl refl go(1) h0 e [symmetric] refl refl b1_def go(2) rec inv1 "1.prems"(3-7)])
        with "1.prems"(7) [OF inv h0(1) e] inv1 show ?thesis by (simp add: b1_def)
      qed
    qed
  qed
qed

lemma same_stream_refl [simp]: "same_stream h h"
  by (simp add: same_stream_def)

lemma same_stream_trans: "same_stream h h1 \<Longrightarrow> same_stream h1 h2 \<Longrightarrow> same_stream h h2"
  by (auto simp: same_stream_def)

lemma make_global_room_inv:
  assumes "make_global_room s t f b hp = (b', hp', room)" "pre_inv G b hp ext"
  shows "pre_inv G b' hp' ext" "p_global_budget b' = p_global_budget b"
    "room \<Longrightarrow> budget_fits (budgets hp' (p_global_budget b')) (byte_len f)"
proof -
  have "pre_inv G (fst r) (fst (snd r)) ext \<and> p_global_budget (fst r) = p_global_budget b
      \<and> (snd (snd r) \<longrightarrow> budget_fits (budgets (fst (snd r)) (p_global_budget (fst r))) (byte_len f))"
    if "make_global_room s t f b hp = r" for r
    using that assms(2) by (induction rule: make_global_room_induct) auto
  from this [OF assms(1)] show "pre_inv G b' hp' ext" "p_global_budget b' = p_global_budget b"
    "room \<Longrightarrow> budget_fits (budgets hp' (p_global_budget b')) (byte_len f)" by auto
qed

lemma make_global_room_streams:
  assumes "make_global_room s t f b hp = (b', hp', room)" "pre_inv G b hp ext"
    and refl: "\<And>h. R h h" and trans: "\<And>h h1 h2. R h h1 \<Longrightarrow> R h1 h2 \<Longrightarrow> R h h2"
    and evict: "\<And>h hp h' hp' p. evict_oldest (h\<lparr>h_reason := GlobalPressure\<rparr>) hp = (h', hp', p) \<Longrightarrow> R h h'"
    and get: "stream_mut b x y = Some h"
  shows "\<exists>h'. stream_mut b' x y = Some h' \<and> R h h'"
proof -
  have one: "\<exists>h2. stream_mut (stream_set s0 t1 h1 b) x y = Some h2 \<and> R h h2"
    if "pre_inv G b hp ext" "stream_mut b s0 t1 = Some h0" "stream_mut b x y = Some h"
      "evict_oldest (h0\<lparr>h_reason := GlobalPressure\<rparr>) hp = (h1, hp1, p)" for b hp s0 t1 h0 h1 hp1 p h
    using stream_mut_set [OF pre_inv_nested [OF that(1)] that(2), of h1 x y] that(2,3) evict [OF that(4)] refl
    by auto
  have "\<exists>h'. stream_mut (fst r) x y = Some h' \<and> R h h'"
    if "make_global_room s t f b hp = r" for r
    using that assms(2) get
  proof (induction arbitrary: h rule: make_global_room_induct)
    case (step b hp s0 t1 h0 h1 hp1 p r)
    from one [OF step(1,2,6,3)] step(5) trans show ?case by blast
  qed (use refl one in auto)
  from this [OF assms(1)] show ?thesis by simp
qed


lemma budget_fits_less:
  assumes "budget_exact b n k" "budget_exact b' n' k'" "n' \<le> n" "k' \<le> k"
    "b_max_bytes b' = b_max_bytes b" "b_max_frames b' = b_max_frames b" "budget_fits b m"
  shows "budget_fits b' m"
  using assms by (auto simp: budget_fits_def budget_exact_def is_some_and_iff checked_add_u64_def split: if_splits)

text \<open>Dropping frames only makes room.\<close>

lemma budget_fits_drop:
  assumes "accounts hp (ds @ fs)" "i < next_budget hp" "budget_fits (budgets hp i) n"
  shows "budget_fits (budgets (drop_frames ds hp) i) n"
  using accountsD [OF assms(1,2)] accountsD [OF accounts_drop [OF assms(1)], of i] assms(2,3)
  by (intro budget_fits_less [of "budgets hp i" _ _ "budgets (drop_frames ds hp) i" _ _ n]) auto

lemma evict_fits:
  assumes inv: "pre_inv G b hp ext" and get: "stream_mut b s t = Some h"
    and e: "evict_oldest (h\<lparr>h_reason := r\<rparr>) hp = (h', hp', p)"
    and i: "i < next_budget hp" "budget_fits (budgets hp i) n"
  shows "i < next_budget hp' \<and> budget_fits (budgets hp' i) n"
proof -
  obtain ds where ds: "mset (hist_frames h) = mset (hist_frames h') + mset ds" "hp' = drop_frames ds hp"
    using evict_oldest_sheds [OF e] by (auto simp: sheds_def)
  have "mset (held b @ ext) = mset (ds @ held (stream_set s t h' b) @ ext)"
    using held_stream_set [OF pre_inv_nested [OF inv] get, of h'] ds(1) by (simp add: add_ac)
  then have "accounts hp (ds @ held (stream_set s t h' b) @ ext)"
    using inv accounts_mset by (metis pre_inv_def)
  with i show ?thesis by (simp add: ds(2) budget_fits_drop)
qed

lemma make_global_room_fits:
  assumes "make_global_room s t f b hp = (b', hp', room)" "pre_inv G b hp ext"
    and "i < next_budget hp" "budget_fits (budgets hp i) n"
  shows "budget_fits (budgets hp' i) n"
proof -
  have "budget_fits (budgets (fst (snd r)) i) n" if "make_global_room s t f b hp = r" for r
    using that assms(2-4)
    by (induction rule: make_global_room_induct) (auto dest: evict_fits)
  from this [OF assms(1)] show ?thesis by simp
qed

text \<open>Reserving a frame on two budgets.\<close>

definition reserve :: "nat \<Rightarrow> nat \<Rightarrow> usize \<Rightarrow> Heap \<Rightarrow> Heap" where
  "reserve i j n hp = hp\<lparr>budgets := (budgets hp)
     (i := fst (budget_acquire (budgets hp i) n), j := fst (budget_acquire (budgets hp j) n))\<rparr>"

lemma reserve_fields [simp]:
  "next_budget (reserve i j n hp) = next_budget hp"
  "b_max_bytes (budgets (reserve i j n hp) k) = b_max_bytes (budgets hp k)"
  "b_max_frames (budgets (reserve i j n hp) k) = b_max_frames (budgets hp k)"
  by (simp_all add: reserve_def budget_acquire_def)

lemma accounts_reserve:
  assumes acc: "accounts hp fs" and ij: "i \<noteq> j" "i < next_budget hp" "j < next_budget hp"
    and fits: "budget_fits (budgets hp i) n" "budget_fits (budgets hp j) n"
    and r: "bf_reservation f = \<lparr>r_bytes = n, r_stream_budget = i, r_global_budget = j\<rparr>"
  shows "accounts (reserve i j n hp) (f # fs)"
proof -
  have "budget_exact (budgets (reserve i j n hp) k) (reserved_bytes k (f # fs)) (reserved_frames k (f # fs))"
    if "k < next_budget hp" for k
    using budget_acquire_exact [OF accountsD [OF acc that], of n] accountsD [OF acc that] fits ij(1)
    by (auto simp: reserve_def on_budget_def r)
  then show ?thesis
    using acc ij by (simp add: accounts_def reservation_ok_def r)
qed

lemma buffers_ok_grow:
  assumes ok: "buffers_ok G b hp" and get: "stream_mut b s t = Some h"
    and h': "history_ok h'" "h_budget h' = h_budget h"
    and frames: "mset (hist_frames h') = add_mset f (mset (hist_frames h))"
    and r: "r_global_budget (bf_reservation f) = p_global_budget b"
  shows "buffers_ok G (stream_set s t h' b) (reserve i j n hp)"
proof -
  have get': "nested_get (p_streams b) (s, t) = Some h" using get by (simp add: stream_mut_def)
  have nest: "nested_ok (p_streams b)" using ok by (simp add: buffers_ok_def)
  note upd = nested.get_upd [OF nest get'] and ok_upd = nested.ok_upd [OF nest get']
  have "set (hist_frames h') = insert f (set (hist_frames h))"
    using arg_cong [OF frames, where f = set_mset] by simp
  then have new: "stream_ok (stream_set s t h' b) (reserve i j n hp) h'"
    using h' r buffers_ok_stream [OF ok get'] by (auto simp: stream_ok_def)
  have "stream_ok (stream_set s t h' b) (reserve i j n hp) g"
    if "nested_get (nested_update (s, t) h' (p_streams b)) k = Some g" for k g
    using that new buffers_ok_stream [OF ok, of k g] by (simp add: upd stream_ok_def split: if_splits)
  moreover have "isolated (nested_update (s, t) h' (p_streams b))"
    using ok h'(2) get' by (auto simp: upd isolated_def buffers_ok_def split: if_splits)
  ultimately show ?thesis
    using ok by (simp add: buffers_ok_def ok_upd nested.length_upd [OF nest get'])
qed

lemma pre_inv_grow:
  assumes inv: "pre_inv G b hp ext" and get: "stream_mut b s t = Some h"
    and h': "history_ok h'" "h_budget h' = h_budget h"
    and frames: "mset (hist_frames h') = add_mset f (mset (hist_frames h))"
    and r: "bf_reservation f = \<lparr>r_bytes = n, r_stream_budget = h_budget h, r_global_budget = p_global_budget b\<rparr>"
    and fits: "budget_fits (budgets hp (h_budget h)) n" "budget_fits (budgets hp (p_global_budget b)) n"
  shows "pre_inv G (stream_set s t h' b) (reserve (h_budget h) (p_global_budget b) n hp) ext"
proof -
  have bok: "buffers_ok G b hp" and st: "stream_ok b hp h"
    using inv pre_inv_get [OF inv get] by (simp_all add: pre_inv_def)
  have "mset (held (stream_set s t h' b)) = add_mset f (mset (held b))"
    using held_stream_set [OF pre_inv_nested [OF inv] get, of h'] by (simp add: frames)
  then have m: "mset (held (stream_set s t h' b) @ ext) = mset (f # held b @ ext)" by simp
  have "accounts (reserve (h_budget h) (p_global_budget b) n hp) (f # held b @ ext)"
    using inv st bok by (intro accounts_reserve fits r) (simp_all add: pre_inv_def stream_ok_def buffers_ok_def)
  then show ?thesis
    using inv accounts_mset [OF m] buffers_ok_grow [OF bok get h' frames] r
    by (simp add: pre_inv_def)
qed

text \<open>The retained frame goes to the end of the history.\<close>

definition history_push :: "BufferedFrame \<Rightarrow> StreamHistory \<Rightarrow> StreamHistory" where
  "history_push r h =
     (if is_video_keyframe (bf_frame r)
      then (if h_reason h = MissingKeyframe \<or> h_reason h = InvalidOrder then h\<lparr>h_reason := Startup\<rparr> else h)
        \<lparr>h_gops := h_gops h @ [\<lparr>g_start = received_at (bf_frame r), g_frames = [r]\<rparr>], h_awaiting_keyframe := False\<rparr>
      else h\<lparr>h_gops := butlast (h_gops h) @ [(last (h_gops h))\<lparr>g_frames := g_frames (last (h_gops h)) @ [r]\<rparr>]\<rparr>)"

lemma history_push_fields [simp]:
  "h_budget (history_push r h) = h_budget h" "h_last_received_at (history_push r h) = h_last_received_at h"
  "h_released (history_push r h) = h_released h" "h_duration (history_push r h) = h_duration h"
  "h_gops (history_push r h) \<noteq> []"
  by (simp_all add: history_push_def)

lemma history_push_frames:
  assumes "is_video_keyframe (bf_frame r) \<or> h_gops h \<noteq> []"
  shows "concat (map g_frames (h_gops (history_push r h))) = concat (map g_frames (h_gops h)) @ [r]"
proof (cases "is_video_keyframe (bf_frame r)")
  case False
  then obtain gs g where "h_gops h = gs @ [g]" using assms by (cases "h_gops h" rule: rev_cases) auto
  with False show ?thesis by (simp add: history_push_def)
qed (simp add: history_push_def)

lemma history_push_ok:
  assumes ok: "history_ok h" and room: "is_video_keyframe (bf_frame r) \<or> \<not> h_awaiting_keyframe h"
    and own: "owns h r" and last: "h_last_received_at h = Some (received_at (bf_frame r))"
  shows "history_ok (history_push r h) \<and> mset (hist_frames (history_push r h)) = add_mset r (mset (hist_frames h))"
proof -
  have ne: "is_video_keyframe (bf_frame r) \<or> h_gops h \<noteq> []"
    using ok room by (auto simp: history_ok_def)
  note frames = history_push_frames [OF ne]
  have arr: "arrivals (h_gops (history_push r h)) = arrivals (h_gops h) @ [received_at (bf_frame r)]"
    by (simp add: arrivals_def frames)
  have gop: "gop_ok g" if "g \<in> set (h_gops (history_push r h))" for g
  proof (cases "is_video_keyframe (bf_frame r)")
    case True
    with that ok show ?thesis by (auto simp: history_push_def gop_ok_def history_ok_def gops_ok_def)
  next
    case False
    with ne obtain gs g' where "h_gops h = gs @ [g']" by (cases "h_gops h" rule: rev_cases) auto
    with False that ok show ?thesis by (auto simp: history_push_def gop_ok_def history_ok_def gops_ok_def)
  qed
  have m: "mset (hist_frames (history_push r h)) = add_mset r (mset (hist_frames h))"
    by (simp add: hist_frames_def frames)
  have "set (hist_frames (history_push r h)) = insert r (set (hist_frames h))"
    using arg_cong [OF m, where f = set_mset] by simp
  then have "history_ok (history_push r h)"
    using ok own gop last arr by (auto simp: history_ok_def gops_ok_def sorted_append owns_def)
  with m show ?thesis by blast
qed


text \<open>What a push does once the stream is known and the frame admitted.\<close>

definition retain_frame :: "RecordingFrame \<Rightarrow> StreamHistory \<Rightarrow> PreRecordBuffers \<Rightarrow> BufferedFrame" where
  "retain_frame f h b = \<lparr>bf_frame = f, bf_reservation =
     \<lparr>r_bytes = byte_len f, r_stream_budget = h_budget h, r_global_budget = p_global_budget b\<rparr>\<rparr>"

lemma push_owned_cases:
  assumes push: "push_owned s t f now b hp = (b', hp', res)" and inv: "pre_inv G b hp ext"
  obtains
    (unknown) "stream_mut b s t = None" "b' = b" "hp' = hp" "res = Some f"
  | (rejected) h h1 where "stream_mut b s t = Some h"
      "admit f now (b_max_bytes (budgets hp (p_global_budget b))) h hp = (h1, hp', False)"
      "b' = stream_set s t h1 b" "res = Some f"
  | (admitted) h h1 hp1 b2 hp2 h2 room where "stream_mut b s t = Some h"
      "admit f now (b_max_bytes (budgets hp (p_global_budget b))) h hp = (h1, hp1, True)"
      "pre_inv G (stream_set s t h1 b) hp1 ext" "stream_mut (stream_set s t h1 b) s t = Some h1"
      "make_global_room s t f (stream_set s t h1 b) hp1 = (b2, hp2, room)" "pre_inv G b2 hp2 ext"
      "stream_mut b2 s t = Some h2" "same_stream h1 h2" "budget_fits (budgets hp2 (h_budget h2)) (byte_len f)"
      "\<not> room \<and> b' = stream_set s t (h2\<lparr>h_reason := GlobalPressure\<rparr>) b2 \<and> hp' = hp2 \<and> res = Some f
       \<or> room \<and> h_awaiting_keyframe h2 \<and> \<not> is_video_keyframe f \<and> b' = b2 \<and> hp' = hp2 \<and> res = Some f
       \<or> room \<and> (h_awaiting_keyframe h2 \<longrightarrow> is_video_keyframe f)
         \<and> b' = stream_set s t (history_push (retain_frame f h2 b2) h2) b2
         \<and> hp' = reserve (h_budget h2) (p_global_budget b2) (byte_len f) hp2 \<and> res = None"
proof (cases "stream_mut b s t")
  case None
  with push show ?thesis by (intro unknown) (auto simp: push_owned_def)
next
  case (Some h)
  obtain h1 hp1 ok where a: "admit f now (b_max_bytes (budgets hp (p_global_budget b))) h hp = (h1, hp1, ok)"
    by (cases "admit f now (b_max_bytes (budgets hp (p_global_budget b))) h hp") auto
  show ?thesis
  proof (cases ok)
    case False
    with push Some a show ?thesis by (intro rejected) (auto simp: push_owned_def)
  next
    case True
    note ok1 = admit_ok [OF a pre_inv_get_ok [OF inv Some]]
    define b1 where "b1 = stream_set s t h1 b"
    have inv1: "pre_inv G b1 hp1 ext"
      unfolding b1_def using pre_inv_sheds [OF inv Some admit_sheds [OF a]] ok1 by blast
    have get1: "stream_mut b1 s t = Some h1"
      using stream_mut_set [OF pre_inv_nested [OF inv] Some] by (simp add: b1_def)
    obtain b2 hp2 room where m: "make_global_room s t f b1 hp1 = (b2, hp2, room)"
      by (cases "make_global_room s t f b1 hp1") auto
    note inv2 = make_global_room_inv [OF m inv1]
    obtain h2 where get2: "stream_mut b2 s t = Some h2" "same_stream h1 h2"
      using make_global_room_streams [OF m inv1, where R = same_stream] same_stream_trans evict_same get1
      by (metis same_stream_refl)
    have fit2: "budget_fits (budgets hp2 (h_budget h2)) (byte_len f)"
      using make_global_room_fits [OF m inv1, of "h_budget h1" "byte_len f"] ok1 True get2(2)
        pre_inv_get [OF inv1 get1] by (simp add: same_stream_def stream_ok_def)
    have ne: "h_budget h2 \<noteq> p_global_budget b2"
      using pre_inv_get [OF inv2(1) get2(1)] by (simp add: stream_ok_def)
    have gops: "h_gops h2 = [] \<Longrightarrow> h_awaiting_keyframe h2"
      using pre_inv_get_ok [OF inv2(1) get2(1)] by (simp add: history_ok_def)
    note defs = push_owned_def Some a b1_def [symmetric] m get2(1) True Let_def
    have "\<not> room \<and> b' = stream_set s t (h2\<lparr>h_reason := GlobalPressure\<rparr>) b2 \<and> hp' = hp2 \<and> res = Some f
       \<or> room \<and> h_awaiting_keyframe h2 \<and> \<not> is_video_keyframe f \<and> b' = b2 \<and> hp' = hp2 \<and> res = Some f
       \<or> room \<and> (h_awaiting_keyframe h2 \<longrightarrow> is_video_keyframe f)
         \<and> b' = stream_set s t (history_push (retain_frame f h2 b2) h2) b2
         \<and> hp' = reserve (h_budget h2) (p_global_budget b2) (byte_len f) hp2 \<and> res = None"
      using push fit2 ne inv2(3) gops
      by (cases "h_gops h2" rule: rev_cases)
        (auto simp: defs budget_acquire_def reserve_def history_push_def retain_frame_def split: if_splits)
    moreover have "admit f now (b_max_bytes (budgets hp (p_global_budget b))) h hp = (h1, hp1, True)"
      using a True by simp
    ultimately show ?thesis
      using admitted [OF Some _ inv1 [unfolded b1_def] get1 [unfolded b1_def] m [unfolded b1_def] inv2(1) get2 fit2]
      by blast
  qed
qed

lemma push_owned_inv:
  assumes "push_owned s t f now b hp = (b', hp', res)" "pre_inv G b hp ext"
  shows "pre_inv G b' hp' ext"
  using assms
proof (cases rule: push_owned_cases)
  case (rejected h h1)
  with assms show ?thesis
    using pre_inv_sheds [OF assms(2) rejected(1) admit_sheds [OF rejected(2)]]
      admit_ok [OF rejected(2) pre_inv_get_ok] by blast
next
  case (admitted h h1 hp1 b2 hp2 h2 room)
  let ?r = "retain_frame f h2 b2"
  have last: "h_last_received_at h2 = Some (received_at f)"
    using admit_ok [OF admitted(2) pre_inv_get_ok [OF assms(2) admitted(1)]] admitted(8) by (simp add: same_stream_def)
  have r: "bf_reservation ?r = \<lparr>r_bytes = byte_len f, r_stream_budget = h_budget h2, r_global_budget = p_global_budget b2\<rparr>"
    by (simp add: retain_frame_def)
  from admitted(10) show ?thesis
  proof (elim disjE conjE)
    assume "b' = stream_set s t (h2\<lparr>h_reason := GlobalPressure\<rparr>) b2" "hp' = hp2"
    then show ?thesis
      using pre_inv_sheds [OF admitted(6,7), of "h2\<lparr>h_reason := GlobalPressure\<rparr>" hp'] pre_inv_get_ok [OF admitted(6,7)]
      by simp
  next
    assume room and key: "h_awaiting_keyframe h2 \<longrightarrow> is_video_keyframe f"
      and eq: "b' = stream_set s t (history_push ?r h2) b2"
        "hp' = reserve (h_budget h2) (p_global_budget b2) (byte_len f) hp2"
    have "history_ok (history_push ?r h2) \<and> mset (hist_frames (history_push ?r h2)) = add_mset ?r (mset (hist_frames h2))"
      using key last pre_inv_get_ok [OF admitted(6,7)]
      by (intro history_push_ok) (auto simp: retain_frame_def owns_def)
    then show ?thesis
      unfolding eq using admitted(9) \<open>room\<close> make_global_room_inv [OF admitted(5,3)] r
      by (intro pre_inv_grow [OF admitted(6,7), where f = ?r]) simp_all
  qed (use admitted(6) in simp)
qed (use assms in simp_all)

end
