(* ===== verification/Pre_Record_Gaps.thy ===== *)
theory Pre_Record_Gaps
  imports Pre_Record_Laws "HOL-Library.Sublist"
begin

text \<open>
  The frames a stream history retains are consecutive frames of what the stream was given: an
  eviction only ever takes the oldest GOPs away, and a frame that is lost in the middle either
  leaves no older GOP behind or marks the history discontinuous, so that the next keyframe starts
  it afresh. The file follows one push through \<open>admit\<close>, \<open>make_global_room\<close> and \<open>push_owned\<close>
  and lifts the result to the registry.
\<close>

section \<open>Histories have no gaps\<close>

definition retained :: "StreamHistory \<Rightarrow> RecordingFrame list" where
  "retained h = map bf_frame (concat (map g_frames (h_gops h)))"

text \<open>
  \<open>log\<close> are the frames the stream was given. The retained ones are consecutive frames of the log,
  and its last ones while the stream does not wait for a keyframe.
\<close>

definition gapless :: "RecordingFrame list \<Rightarrow> StreamHistory \<Rightarrow> bool" where
  "gapless log h \<longleftrightarrow> sublist (retained h) log
     \<and> (h_awaiting_keyframe h \<longrightarrow> h_gops h = [] \<or> h_discontinuous h)
     \<and> (\<not> h_awaiting_keyframe h \<longrightarrow> suffix (retained h) log)"

lemma retained_Nil [simp]: "h_gops h = [] \<Longrightarrow> retained h = []"
  by (simp add: retained_def)

lemma gapless_fields [simp]:
  "gapless log (h\<lparr>h_reason := r\<rparr>) = gapless log h"
  "gapless log (h\<lparr>h_last_received_at := l\<rparr>) = gapless log h"
  "gapless log (h\<lparr>h_continuous := c\<rparr>) = gapless log h"
  "gapless log (h\<lparr>h_released := rs\<rparr>) = gapless log h"
  "gapless log (h\<lparr>h_duration := d\<rparr>) = gapless log h"
  by (simp_all add: gapless_def retained_def)

lemma gapless_empty: "h_gops h = [] \<Longrightarrow> gapless log h"
  by (simp add: gapless_def)

text \<open>A history that lost its first GOPs, and waits for a keyframe if it lost all of them.\<close>

definition shorter :: "StreamHistory \<Rightarrow> StreamHistory \<Rightarrow> bool" where
  "shorter h h' \<longleftrightarrow> suffix (h_gops h') (h_gops h) \<and> h_discontinuous h' = h_discontinuous h
     \<and> (h_awaiting_keyframe h \<longrightarrow> h_awaiting_keyframe h')
     \<and> (h_awaiting_keyframe h' \<longrightarrow> h_awaiting_keyframe h \<or> h_gops h' = [])"

lemma shorter_refl [simp]: "shorter h h"
  by (simp add: shorter_def)

lemma shorter_trans: "shorter h h1 \<Longrightarrow> shorter h1 h2 \<Longrightarrow> shorter h h2"
  unfolding shorter_def by (metis suffix_bot.extremum_uniqueI suffix_order.order_trans)

lemma shorter_reason [simp]: "shorter (h\<lparr>h_reason := r\<rparr>) h' = shorter h h'"
  by (simp add: shorter_def)

lemma shorter_retained: "shorter h h' \<Longrightarrow> suffix (retained h') (retained h)"
  by (auto simp: shorter_def retained_def suffix_def)

lemma shorter_gapless: "shorter h h' \<Longrightarrow> gapless log h \<Longrightarrow> gapless log h'"
  using shorter_retained [of h h'] suffix_imp_sublist [of "retained h'" "retained h"]
  by (auto simp: gapless_def shorter_def intro: sublist_order.order_trans suffix_order.order_trans)

lemma evict_oldest_shorter:
  "evict_oldest h hp = (h', hp', p) \<Longrightarrow> shorter h h' \<and> (\<not> p \<longrightarrow> h_gops h' = [] \<and> h_awaiting_keyframe h')"
  by (auto simp: evict_oldest.simps shorter_def Let_def suffix_def split: list.splits if_splits)

lemma history_expire_shorter:
  "history_expire now h hp = (h', hp') \<Longrightarrow> shorter h h'"
proof (induction now h hp rule: history_expire.induct)
  case (1 now h hp)
  show ?case
  proof (cases "h_gops h \<noteq> [] \<and> saturating_duration_since now (g_start (hd (h_gops h))) > h_duration h")
    case True
    obtain h1 hp1 p where e: "evict_oldest (h\<lparr>h_reason := DurationEviction\<rparr>) hp = (h1, hp1, p)"
      by (cases "evict_oldest (h\<lparr>h_reason := DurationEviction\<rparr>) hp") auto
    with True "1.prems" have "history_expire now h1 hp1 = (h', hp')"
      by (simp add: history_expire.simps [of now h])
    from "1.IH" [OF True e [symmetric] refl refl this] evict_oldest_shorter [OF e] show ?thesis
      by (auto intro: shorter_trans)
  next
    case False
    with "1.prems" show ?thesis by (auto simp: history_expire.simps [of now h])
  qed
qed

lemma make_stream_room_shorter:
  "make_stream_room n h hp = (h', hp', room) \<Longrightarrow>
     shorter h h' \<and> (\<not> room \<longrightarrow> h_gops h' = [] \<and> h_awaiting_keyframe h')"
proof (induction n h hp rule: make_stream_room.induct)
  case (1 n h hp)
  obtain h1 hp1 p where e: "evict_oldest (h\<lparr>h_reason := StreamPressure\<rparr>) hp = (h1, hp1, p)"
    by (cases "evict_oldest (h\<lparr>h_reason := StreamPressure\<rparr>) hp") auto
  show ?case
  proof (cases "budget_fits (budgets hp (h_budget h)) n \<or> \<not> p")
    case True
    with "1.prems" e evict_oldest_shorter [OF e] show ?thesis
      by (auto simp: make_stream_room.simps [of n h] split: if_splits)
  next
    case False
    with "1.prems" e have "make_stream_room n h1 hp1 = (h', hp', room)"
      by (simp add: make_stream_room.simps [of n h])
    with "1.IH" [OF _ e [symmetric] refl refl] False evict_oldest_shorter [OF e] show ?thesis
      by (auto intro: shorter_trans)
  qed
qed

lemma evict_all_empty: "evict_all h hp = (h', hp') \<Longrightarrow> h_gops h' = []"
proof (induction h hp rule: evict_all.induct)
  case (1 h hp)
  obtain h1 hp1 p where e: "evict_oldest h hp = (h1, hp1, p)" by (cases "evict_oldest h hp") auto
  show ?case
    using "1.IH" [OF e [symmetric] refl refl] "1.prems" e evict_oldest_shorter [OF e]
    by (cases p) (auto simp: evict_all.simps [of h])
qed

lemma discard_open_gapless:
  assumes "discard_open h hp = (h', hp')" "sublist (retained h) log"
  shows "gapless log h'"
proof -
  have "sublist (retained h') (retained h)"
  proof (cases "h_continuous h")
    case True
    with assms(1) show ?thesis by (auto simp: discard_open_def retained_def dest: evict_all_empty split: prod.splits)
  next
    case False
    with assms(1) show ?thesis
      by (cases "h_gops h" rule: rev_cases) (auto simp: discard_open_def retained_def split: if_splits)
  qed
  moreover have "h_awaiting_keyframe h' \<and> h_discontinuous h'"
    using assms(1) by (auto simp: discard_open_def Let_def split: prod.splits)
  ultimately show ?thesis
    using assms(2) by (auto simp: gapless_def intro: sublist_order.order_trans)
qed

lemma admit_gapless:
  assumes a: "admit f now gl h hp = (h', hp', ok)" and g: "gapless log h"
  shows "(ok \<longrightarrow> suffix (retained h') log \<and> (h_awaiting_keyframe h' \<longrightarrow> is_video_keyframe f))
       \<and> (\<not> ok \<longrightarrow> gapless (log @ [f]) h')"
proof -
  obtain h1 hp1 where e: "history_expire now h hp = (h1, hp1)" by (cases "history_expire now h hp")
  have g1: "gapless log h1" by (rule shorter_gapless [OF history_expire_shorter [OF e] g])
  then have sub: "sublist (retained h1) (log @ [f])"
    by (auto simp: gapless_def sublist_append)
  let ?late = "received_at f > now \<or> saturating_duration_since now (received_at f) > h_duration h1
    \<or> is_some_and (h_last_received_at h1) (\<lambda>last. received_at f < last)"
  let ?big = "byte_len f > b_max_bytes (budgets hp1 (h_budget h1)) \<or> byte_len f > gl"
  consider (late) ?late | (skip) "\<not> ?late" "h_awaiting_keyframe h1" "\<not> is_video_keyframe f"
    | (big) "\<not> ?late" "\<not> (h_awaiting_keyframe h1 \<and> \<not> is_video_keyframe f)" ?big
    | (fit) "\<not> ?late" "\<not> (h_awaiting_keyframe h1 \<and> \<not> is_video_keyframe f)" "\<not> ?big" by blast
  then show ?thesis
  proof cases
    case late
    with a e sub show ?thesis
      by (auto simp: admit_def Let_def retained_def split: prod.splits dest!: discard_open_gapless [where log = "log @ [f]"])
  next
    case skip
    then have "gapless (log @ [f]) h1" using g1 sub by (simp add: gapless_def)
    with skip a e show ?thesis by (auto simp: admit_def Let_def split: if_splits)
  next
    case big
    with a e sub show ?thesis
      by (cases "is_video_keyframe f") (auto simp: admit_def Let_def retained_def split: prod.splits dest!: discard_open_gapless [where log = "log @ [f]"])
  next
    case fit
    define h2 where "h2 = (let h = h1\<lparr>h_last_received_at := Some (received_at f)\<rparr>;
        h = (if is_video_keyframe f then h\<lparr>h_awaiting_keyframe := True\<rparr> else h)
      in if is_video_keyframe f \<and> h_discontinuous h then h\<lparr>h_gops := [], h_discontinuous := False\<rparr> else h)"
    obtain hp2 where a2: "(let (h3, hp3, room) = make_stream_room (byte_len f) h2 hp2
        in if \<not> room then (h3, hp3, False)
           else if h_awaiting_keyframe h3 \<and> \<not> is_video_keyframe f then (h3, hp3, False)
           else (h3, hp3, True)) = (h', hp', ok)"
      using a e fit by (auto simp: admit_def Let_def clear_gops_def h2_def split: if_splits)
    have h2: "suffix (retained h2) log" "h_awaiting_keyframe h2 = is_video_keyframe f"
      using g1 fit by (auto simp: gapless_def h2_def retained_def Let_def)
    obtain h3 hp3 room where m: "make_stream_room (byte_len f) h2 hp2 = (h3, hp3, room)"
      by (cases "make_stream_room (byte_len f) h2 hp2")
    note sh = make_stream_room_shorter [OF m]
    have "h' = h3" "ok \<longleftrightarrow> room \<and> (h_awaiting_keyframe h3 \<longrightarrow> is_video_keyframe f)"
      using a2 m by (auto split: if_splits)
    moreover have "suffix (retained h3) log"
      using sh shorter_retained [of h2 h3] h2(1) by (auto intro: suffix_order.order_trans)
    ultimately show ?thesis
      using sh h2(2) by (auto simp: shorter_def intro: gapless_empty)
  qed
qed

lemma foldl_min_le: "d \<in> set (c # cs) \<Longrightarrow> foldl min c cs \<le> d" for c :: "'a::linorder"
proof (induction cs arbitrary: c d)
  case (Cons e es)
  have le: "foldl min (min c e) es \<le> min c e" by (rule Cons.IH) simp
  from Cons.prems consider "d = c" | "d = e" | "d \<in> set es" by auto
  then show ?case
  proof cases
    case 3
    with Cons.IH [of d "min c e"] show ?thesis by simp
  qed (use le in simp_all)
qed simp

lemma oldest_gop_le:
  assumes "x \<in> set (gop_fronts m)" "oldest_gop m = Some y"
  shows "y \<le> x"
proof -
  obtain c cs where c: "gop_fronts m = c # cs" "foldl min c cs = y"
    using assms by (auto simp: oldest_gop_def split: list.splits)
  from foldl_min_le [of x c cs] assms(1) show ?thesis unfolding c by blast
qed

lemma gop_front_in:
  assumes "nested_ok m" "nested_get m (s, t) = Some h" "h_gops h = g # gs"
  shows "(g_start g, s, t) \<in> set (gop_fronts m)"
proof -
  have "((s, t), h) \<in> set (nested_entries m)" using assms nested.entries_get by simp
  with assms(3) show ?thesis unfolding gop_fronts_def by force
qed

text \<open>Making room fails only once the asking stream has no GOP left, unless its frame came out of order.\<close>

lemma make_global_room_fails:
  assumes "make_global_room s t f b hp = (b', hp', False)" "pre_inv G b hp ext" "stream_mut b s t = Some h"
    and last: "h_last_received_at h = Some (received_at f)" and "h_awaiting_keyframe h \<longrightarrow> is_video_keyframe f \<or> h_gops h = []"
  shows "\<exists>h'. stream_mut b' s t = Some h' \<and> h_gops h' = []"
proof -
  have emp: "h_gops h = []" if "pre_inv G b hp ext" "stream_mut b s t = Some h" "oldest_gop (p_streams b) = None" for b hp h
    using gop_front_in [OF pre_inv_nested [OF that(1)], of s t h] that(2,3)
    by (cases "h_gops h") (auto simp: stream_mut_def oldest_gop_def split: list.splits)
  have old: "h_gops h = []"
    if o: "pre_inv G b hp ext" "stream_mut b s t = Some h" "oldest_gop (p_streams b) = Some x"
      "(received_at f, s, t) < x" "h_last_received_at h = Some (received_at f)" for b hp h x
  proof (rule ccontr)
    assume "h_gops h \<noteq> []"
    then obtain g gs where g: "h_gops h = g # gs" by (cases "h_gops h") auto
    have le: "x \<le> (g_start g, s, t)"
      using gop_front_in [OF pre_inv_nested [OF o(1)], of s t h g] o(2,3) g oldest_gop_le by (simp add: stream_mut_def)
    have "g_start g \<le> received_at f"
      using pre_inv_get_ok [OF o(1,2)] g o(5) by (auto simp: history_ok_def gops_ok_def gop_ok_def arrivals_def)
    then have "(g_start g, s, t) \<le> (received_at f, s, t)" by simp
    from order_trans [OF le this] o(4) show False using leD by blast
  qed
  have "\<not> snd (snd r) \<longrightarrow> (\<exists>h'. stream_mut (fst r) s t = Some h' \<and> h_gops h' = [])"
    if "make_global_room s t f b hp = r" for r
    using that assms(2-5)
  proof (induction arbitrary: h rule: make_global_room_induct)
    case (none b hp)
    then show ?case using emp by auto
  next
    case (young b hp t0 s0 t1)
    then show ?case using old by auto
  next
    case (stop b hp s0 t1 h0 h1 hp1 p)
    then show ?case
      using stream_mut_set [OF pre_inv_nested [OF stop(1)] stop(2), of h1 s t] evict_oldest_shorter [OF stop(3)]
      by (auto simp: shorter_def split: if_splits)
  next
    case (step b hp s0 t1 h0 h1 hp1 p r)
    note set = stream_mut_set [OF pre_inv_nested [OF step(1)] step(2), of h1 s t]
    show ?case
    proof (cases "(s, t) = (s0, t1)")
      case True
      then have h0: "h0 = h" and get1: "stream_mut (stream_set s0 t1 h1 b) s t = Some h1" using set step(2,6) by auto
      have same: "same_stream h h1" using evict_oldest_same [OF step(3)] h0 by (simp add: same_stream_def)
      show ?thesis
        using step(5) [OF get1] same step(7,8) evict_oldest_shorter [OF step(3)] h0
        by (auto simp: same_stream_def shorter_def)
    next
      case False
      with set step show ?thesis by auto
    qed
  qed auto
  from this [OF assms(1)] show ?thesis by simp
qed

section \<open>The registry\<close>

definition all_gapless :: "(string \<times> string \<Rightarrow> RecordingFrame list) \<Rightarrow> PreRecordBuffers \<Rightarrow> bool" where
  "all_gapless logs b \<longleftrightarrow> (\<forall>s t h. stream_mut b s t = Some h \<longrightarrow> gapless (logs (s, t)) h)"

lemma all_gaplessD: "all_gapless logs b \<Longrightarrow> stream_mut b s t = Some h \<Longrightarrow> gapless (logs (s, t)) h"
  by (simp add: all_gapless_def)

lemma all_gapless_set:
  assumes "all_gapless logs b" "nested_ok (p_streams b)" "stream_mut b s t = Some h" "gapless (logs (s, t)) h'"
  shows "all_gapless logs (stream_set s t h' b)"
  using assms stream_mut_set [OF assms(2,3), of h'] by (auto simp: all_gapless_def)

lemma retained_push:
  assumes "suffix (retained h) log" "is_video_keyframe (bf_frame r) \<or> h_gops h \<noteq> []"
    "is_video_keyframe (bf_frame r) \<or> \<not> h_awaiting_keyframe h"
  shows "gapless (log @ [bf_frame r]) (history_push r h)"
proof -
  have "suffix (retained (history_push r h)) (log @ [bf_frame r])"
    using assms(1) history_push_frames [OF assms(2)] by (simp add: retained_def)
  moreover have "\<not> h_awaiting_keyframe (history_push r h)"
    using assms(3) by (auto simp: history_push_def)
  ultimately show ?thesis by (simp add: gapless_def suffix_imp_sublist)
qed

lemma make_global_room_unregistered:
  assumes "make_global_room s t f b hp = (b', hp', room)" "pre_inv G b hp ext" "stream_mut b x y = None"
  shows "stream_mut b' x y = None"
proof -
  have one: "stream_mut (stream_set s0 t1 h1 b) x y = None"
    if "pre_inv G b hp ext" "stream_mut b s0 t1 = Some h0" "stream_mut b x y = None" for b hp s0 t1 h0 h1
    using stream_mut_set [OF pre_inv_nested [OF that(1)] that(2), of h1 x y] that by auto
  have "stream_mut (fst r) x y = None" if "make_global_room s t f b hp = r" for r
    using that assms(2,3)
  proof (induction rule: make_global_room_induct)
    case (step b hp s0 t1 h0 h1 hp1 p r)
    from step(5) [OF one [OF step(1,2,6)]] show ?case .
  qed (auto intro: one)
  from this [OF assms(1)] show ?thesis by simp
qed

text \<open>A push extends the log of its stream, whether the frame is kept or not.\<close>

lemma push_owned_gapless:
  assumes push: "push_owned s t f now b hp = (b', hp', res)" and inv: "pre_inv G b hp ext"
    and all: "all_gapless logs b"
  shows "all_gapless (logs((s, t) := logs (s, t) @ [f])) b'"
  using push inv
proof (cases rule: push_owned_cases)
  case unknown
  with all show ?thesis by (auto simp: all_gapless_def)
next
  case (rejected h h1)
  have "gapless (logs (s, t) @ [f]) h1"
    using admit_gapless [OF rejected(2) all_gaplessD [OF all rejected(1)]] by simp
  then show ?thesis
    using stream_mut_set [OF pre_inv_nested [OF inv] rejected(1), of h1] all rejected(3)
    by (auto simp: all_gapless_def)
next
  case (admitted h h1 hp1 b2 hp2 h2 room)
  let ?b1 = "stream_set s t h1 b" and ?log = "logs (s, t) @ [f]"
  note nest = pre_inv_nested [OF inv] pre_inv_nested [OF admitted(6)]
  have adm: "suffix (retained h1) (logs (s, t))" "h_awaiting_keyframe h1 \<Longrightarrow> is_video_keyframe f"
    using admit_gapless [OF admitted(2) all_gaplessD [OF all admitted(1)]] by simp_all
  have last: "h_last_received_at h1 = Some (received_at f)"
    using admit_ok [OF admitted(2) pre_inv_get_ok [OF inv admitted(1)]] by simp
  have ev: "evict_oldest (h\<lparr>h_reason := GlobalPressure\<rparr>) hp = (h', hp', p) \<Longrightarrow> shorter h h'" for h hp h' hp' p
    using evict_oldest_shorter by fastforce
  note streams = make_global_room_streams [OF admitted(5,3), where R = shorter]
  have sh: "shorter h1 h2"
    using streams [of s t h1] ev shorter_trans admitted(4,7) by (metis option.inject shorter_refl)
  have own: "gapless ?log h'" if "stream_mut b' s t = Some h'" for h'
  proof -
    have suf: "suffix (retained h2) (logs (s, t))"
      using adm(1) shorter_retained [OF sh] by (rule suffix_order.order_trans [rotated])
    have empty: "h_gops h2 = []" if "\<not> room"
      using make_global_room_fails [of s t f ?b1 hp1 b2 hp2 G ext h1] admitted(3,4,5,7) last adm(2) that by auto
    from admitted(10) show ?thesis
    proof (elim disjE conjE)
      assume "\<not> room" "b' = stream_set s t (h2\<lparr>h_reason := GlobalPressure\<rparr>) b2"
      then show ?thesis
        using that empty stream_mut_set [OF nest(2) admitted(7)] by (auto intro!: gapless_empty)
    next
      assume "h_awaiting_keyframe h2" "\<not> is_video_keyframe f" "b' = b2"
      then show ?thesis
        using that admitted(7) sh adm(2) by (auto simp: shorter_def intro!: gapless_empty)
    next
      assume key: "h_awaiting_keyframe h2 \<longrightarrow> is_video_keyframe f"
        and b': "b' = stream_set s t (history_push (retain_frame f h2 b2) h2) b2"
      have "h' = history_push (retain_frame f h2 b2) h2"
        using that b' stream_mut_set [OF nest(2) admitted(7)] by simp
      moreover have "h_gops h2 = [] \<longrightarrow> h_awaiting_keyframe h2"
        using pre_inv_get_ok [OF admitted(6,7)] by (simp add: history_ok_def)
      ultimately show ?thesis
        using retained_push [OF suf, of "retain_frame f h2 b2"] key by (auto simp: retain_frame_def)
    qed
  qed
  have other: "gapless (logs (x, y)) g'" if "(x, y) \<noteq> (s, t)" "stream_mut b' x y = Some g'" for x y g'
  proof -
    have "stream_mut b2 x y = Some g'"
      using admitted(10) that stream_mut_set [OF nest(2) admitted(7)] by auto
    moreover obtain g where g: "stream_mut ?b1 x y = Some g"
      using make_global_room_unregistered [OF admitted(5,3), of x y] calculation by (cases "stream_mut ?b1 x y") auto
    ultimately have "shorter g g'"
      using streams [of x y g] ev shorter_trans by (metis option.inject shorter_refl)
    moreover have "stream_mut b x y = Some g"
      using g that(1) stream_mut_set [OF nest(1) admitted(1), of h1 x y] by auto
    ultimately show ?thesis using shorter_gapless all_gaplessD [OF all] by blast
  qed
  from own other show ?thesis by (auto simp: all_gapless_def)
qed

text \<open>The operations on all streams apply one function to every history.\<close>

lemma update_values_calls:
  "update_values f m hp = (m', hp') \<Longrightarrow>
     list_all2 (\<lambda>e e'. fst e' = fst e \<and> (\<exists>hp hp'. f (snd e) hp = (snd e', hp'))) m m'"
  by (induction f m hp arbitrary: m' hp' rule: update_values.induct) (auto split: prod.splits, blast)

lemma update_all_values_calls:
  "update_all_values f m hp = (m', hp') \<Longrightarrow>
     list_all2 (\<lambda>e e'. fst e' = fst e \<and> (\<exists>hp hp'. update_values f (snd e) hp = (snd e', hp'))) m m'"
  by (induction f m hp arbitrary: m' hp' rule: update_all_values.induct) (auto split: prod.splits, blast)

lemma update_values_get:
  assumes "update_values f m hp = (m', hp')" "bt_get m' t = Some h'"
  obtains h hp1 hp2 where "bt_get m t = Some h" "f h hp1 = (h', hp2)"
  using rel_get [OF update_values_calls [OF assms(1)] assms(2)] by auto

lemma expire_get:
  assumes "expire now b hp = (b', hp')" "stream_mut b' s t = Some h'"
  obtains h hp1 hp2 where "stream_mut b s t = Some h" "history_expire now h hp1 = (h', hp2)"
proof -
  obtain m' where m': "update_all_values (history_expire now) (p_streams b) hp = (m', hp')" "b' = b\<lparr>p_streams := m'\<rparr>"
    using assms(1) by (auto simp: expire_def split: prod.splits)
  obtain i' where i': "bt_get m' s = Some i'" "bt_get i' t = Some h'"
    using assms(2) m'(2) by (auto simp: stream_mut_def nested_get_def split: option.splits)
  obtain i hp1 hp2 where i: "bt_get (p_streams b) s = Some i" "update_values (history_expire now) i hp1 = (i', hp2)"
    using rel_get [OF update_all_values_calls [OF m'(1)] i'(1)] by auto
  obtain h hp3 hp4 where "bt_get i t = Some h" "history_expire now h hp3 = (h', hp4)"
    using update_values_get [OF i(2) i'(2)] by blast
  with i(1) show ?thesis by (intro that) (simp_all add: stream_mut_def nested_get_def)
qed

lemma expire_gapless: "expire now b hp = (b', hp') \<Longrightarrow> all_gapless logs b \<Longrightarrow> all_gapless logs b'"
  unfolding all_gapless_def using shorter_gapless [OF history_expire_shorter] by (auto elim!: expire_get)

lemma clear_history_gapless: "clear_history h hp = (h', hp') \<Longrightarrow> gapless log h'"
  by (auto simp: clear_history_def clear_gops_def intro: gapless_empty)

lemma clear_source_gapless:
  assumes "clear_source s b hp = (b', hp')" "nested_ok (p_streams b)" "all_gapless logs b"
  shows "all_gapless logs b'"
proof (cases "bt_get (p_streams b) s")
  case None
  with assms show ?thesis by (simp add: clear_source_def)
next
  case (Some i)
  obtain i' where u: "update_values clear_history i hp = (i', hp')"
    and b': "b' = b\<lparr>p_streams := bt_update s i' (p_streams b)\<rparr>"
    using assms(1) Some by (auto simp: clear_source_def split: prod.splits)
  have get: "bt_get (bt_update s i' (p_streams b)) x = (if x = s then Some i' else bt_get (p_streams b) x)" for x
    using assms(2) by (intro bt.get_upd [OF _ Some]) (simp add: nested_ok_def)
  have "gapless log h'" if "bt_get i' t = Some h'" for log t h'
    using clear_history_gapless by (rule update_values_get [OF u that])
  then show ?thesis
    using assms(3) by (auto simp: all_gapless_def b' stream_mut_def nested_get_def get split: if_splits option.splits)
qed

lemma remove_source_gapless:
  assumes "remove_source s b hp = (b', hp')" "nested_ok (p_streams b)" "all_gapless logs b"
  shows "all_gapless logs b'"
proof (cases "bt_get (p_streams b) s")
  case None
  with assms show ?thesis by (simp add: remove_source_def)
next
  case (Some i)
  have "bt_get (bt_remove s (p_streams b)) x = (if x = s then None else bt_get (p_streams b) x)" for x
    using assms(2) by (intro bt.get_del) (simp add: nested_ok_def)
  then show ?thesis
    using assms Some by (auto simp: remove_source_def all_gapless_def stream_mut_def nested_get_def split: if_splits)
qed

end
