(* ===== verification/Pre_Record_Run.thy ===== *)
theory Pre_Record_Run
  imports Pre_Record_Gaps
begin

text \<open>
  The pre-record registry as a state machine: any sequence of its operations and of drops of the
  frames it handed out. Every reachable state satisfies the invariant of the laws file
  (\<open>pre_run_inv\<close>) and has gapless histories (\<open>pre_run_gapless\<close>); the properties of the component
  follow at the end, with a concrete run for their witnesses.
\<close>

section \<open>Any sequence of operations\<close>

text \<open>
  The registry lives in one worker, which calls its operations in any order; the frames it hands
  out are dropped by their receivers at any later time (\<open>DropOut\<close>).
\<close>

record PreState =
  ps_buffers :: PreRecordBuffers
  ps_heap :: Heap
  ps_out :: "BufferedFrame list"

datatype PreOp =
  Configure string string duration
| Push string string RecordingFrame instant
| SetContinuous string string bool
| ClearSource string
| ClearStream string string
| RemoveSource string
| NextReleased
| Expire instant
| Take string string instant
| Snapshot string string instant
| DropOut nat

fun pre_step :: "PreState \<Rightarrow> PreOp \<Rightarrow> PreState" where
  "pre_step st (Configure s t d) =
     (let (b, hp, _) = configure s t d (ps_buffers st) (ps_heap st) in st\<lparr>ps_buffers := b, ps_heap := hp\<rparr>)"
| "pre_step st (Push s t f now) =
     (let (b, hp, _) = push_owned s t f now (ps_buffers st) (ps_heap st) in st\<lparr>ps_buffers := b, ps_heap := hp\<rparr>)"
| "pre_step st (SetContinuous s t c) = st\<lparr>ps_buffers := set_continuous s t c (ps_buffers st)\<rparr>"
| "pre_step st (ClearSource s) =
     (let (b, hp) = clear_source s (ps_buffers st) (ps_heap st) in st\<lparr>ps_buffers := b, ps_heap := hp\<rparr>)"
| "pre_step st (ClearStream s t) =
     (let (b, hp) = clear_stream s t (ps_buffers st) (ps_heap st) in st\<lparr>ps_buffers := b, ps_heap := hp\<rparr>)"
| "pre_step st (RemoveSource s) =
     (let (b, hp) = remove_source s (ps_buffers st) (ps_heap st) in st\<lparr>ps_buffers := b, ps_heap := hp\<rparr>)"
| "pre_step st NextReleased =
     (let (b, r) = next_released (ps_buffers st)
      in st\<lparr>ps_buffers := b, ps_out := (case r of None \<Rightarrow> [] | Some (s, t, f) \<Rightarrow> [f]) @ ps_out st\<rparr>)"
| "pre_step st (Expire now) =
     (let (b, hp) = expire now (ps_buffers st) (ps_heap st) in st\<lparr>ps_buffers := b, ps_heap := hp\<rparr>)"
| "pre_step st (Take s t now) =
     (let (b, hp, fs) = buffers_take s t now (ps_buffers st) (ps_heap st)
      in st\<lparr>ps_buffers := b, ps_heap := hp, ps_out := fs @ ps_out st\<rparr>)"
| "pre_step st (Snapshot s t now) =
     (let (b, hp, _) = snapshot s t now (ps_buffers st) (ps_heap st) in st\<lparr>ps_buffers := b, ps_heap := hp\<rparr>)"
| "pre_step st (DropOut i) =
     (if i < length (ps_out st)
      then st\<lparr>ps_heap := drop_frames [ps_out st ! i] (ps_heap st),
              ps_out := take i (ps_out st) @ drop (Suc i) (ps_out st)\<rparr>
      else st)"

definition pre_init :: "usize \<Rightarrow> usize \<Rightarrow> PreState" where
  "pre_init stream_bytes global_bytes =
     (let (b, hp) = PreRecordBuffers_new stream_bytes global_bytes \<lparr>budgets = \<lambda>_. Budget_new 0 0, next_budget = 0\<rparr>
      in \<lparr>ps_buffers = b, ps_heap = hp, ps_out = []\<rparr>)"

definition pre_run :: "usize \<Rightarrow> usize \<Rightarrow> PreOp list \<Rightarrow> PreState" where
  "pre_run stream_bytes global_bytes ops = foldl pre_step (pre_init stream_bytes global_bytes) ops"

lemma buffers_ok_drop:
  assumes "buffers_ok G b hp"
  shows "buffers_ok G b (drop_frames ds hp)"
proof -
  have "stream_ok b (drop_frames ds hp) h" if "nested_get (p_streams b) k = Some h" for k h
    using stream_ok_cong [OF buffers_ok_stream [OF assms that]] by blast
  with assms show ?thesis by (simp add: buffers_ok_def)
qed

lemma drop_out_inv:
  assumes "pre_inv G b hp out" "i < length out"
  shows "pre_inv G b (drop_frames [out ! i] hp) (take i out @ drop (Suc i) out)"
proof -
  let ?rest = "take i out @ drop (Suc i) out"
  have "out = take i out @ out ! i # drop (Suc i) out" by (rule id_take_nth_drop [OF assms(2)])
  then have "mset out = add_mset (out ! i) (mset ?rest)"
    by (metis mset.simps(2) mset_append union_mset_add_mset_right)
  then have m: "mset (held b @ out) = mset ([out ! i] @ held b @ ?rest)" by simp
  have "accounts (drop_frames [out ! i] hp) (held b @ ?rest)"
    using assms(1) accounts_mset [OF m] by (intro accounts_drop) (simp add: pre_inv_def)
  moreover have "buffers_ok G b (drop_frames [out ! i] hp)"
    using assms(1) buffers_ok_drop by (simp add: pre_inv_def del: drop_frames_simps)
  moreover have "set ?rest \<subseteq> set out" by (auto dest: in_set_takeD in_set_dropD)
  ultimately show ?thesis using assms(1) by (auto simp: pre_inv_def)
qed

interpretation pre: machine pre_step "\<lambda>st :: PreState. pre_inv G (ps_buffers st) (ps_heap st) (ps_out st)"
  for G :: "usize \<times> usize"
proof
  fix st :: PreState and x
  assume inv: "pre_inv G (ps_buffers st) (ps_heap st) (ps_out st)"
  show "pre_inv G (ps_buffers (pre_step st x)) (ps_heap (pre_step st x)) (ps_out (pre_step st x))"
  proof (cases x)
    case (DropOut i)
    with inv show ?thesis using drop_out_inv by auto
  next
    case NextReleased
    with next_released_inv [OF _ inv] show ?thesis by (auto split: prod.splits)
  qed (use inv in \<open>auto split: prod.splits intro: configure_inv push_owned_inv set_continuous_inv clear_source_inv
      clear_stream_inv remove_source_inv expire_inv buffers_take_inv snapshot_inv\<close>)
qed

lemma pre_init_inv:
  assumes "sb \<le> u64_max" "gb \<le> u64_max"
  shows "pre_inv (sb, gb) (ps_buffers (pre_init sb gb)) (ps_heap (pre_init sb gb)) (ps_out (pre_init sb gb))"
  using assms
  by (simp add: pre_init_def PreRecordBuffers_new_def arc_new_def Let_def pre_inv_def buffers_ok_def held_def
      nested_entries_def nested_ok_def bt_ok_def isolated_def accounts_def budget_exact_def Budget_new_def
      nested_get_def bt_get_def MAX_GLOBAL_FRAMES_def u64_max_def)

lemma pre_run_inv:
  assumes "sb \<le> u64_max" "gb \<le> u64_max"
  shows "pre_inv (sb, gb) (ps_buffers (pre_run sb gb ops)) (ps_heap (pre_run sb gb ops)) (ps_out (pre_run sb gb ops))"
  unfolding pre_run_def by (rule pre.run_inv [OF pre_init_inv [OF assms]])

section \<open>Reachable histories have no gaps\<close>

fun pushed :: "string \<Rightarrow> string \<Rightarrow> PreOp list \<Rightarrow> RecordingFrame list" where
  "pushed s t [] = []"
| "pushed s t (Push s' t' f now # ops) = (if (s', t') = (s, t) then f # pushed s t ops else pushed s t ops)"
| "pushed s t (op # ops) = pushed s t ops"

definition extend_logs :: "(string \<times> string \<Rightarrow> RecordingFrame list) \<Rightarrow> PreOp \<Rightarrow> string \<times> string \<Rightarrow> RecordingFrame list" where
  "extend_logs logs op = (\<lambda>(s, t). logs (s, t) @ pushed s t [op])"

lemma extend_logs_other [simp]:
  "(\<And>s t f now. op \<noteq> Push s t f now) \<Longrightarrow> extend_logs logs op = logs"
  by (cases op) (auto simp: extend_logs_def)

lemma set_continuous_gapless:
  "nested_ok (p_streams b) \<Longrightarrow> all_gapless logs b \<Longrightarrow> all_gapless logs (set_continuous s t c b)"
  by (auto simp: set_continuous_def split: option.splits intro!: all_gapless_set dest: all_gaplessD)

lemma clear_stream_gapless:
  "clear_stream s t b hp = (b', hp') \<Longrightarrow> nested_ok (p_streams b) \<Longrightarrow> all_gapless logs b \<Longrightarrow> all_gapless logs b'"
  by (auto simp: clear_stream_def split: option.splits prod.splits intro!: all_gapless_set clear_history_gapless)

lemma next_released_gapless:
  assumes "next_released b = (b', r)" "nested_ok (p_streams b)" "all_gapless logs b"
  shows "all_gapless logs b'"
proof (cases "first_released (nested_entries (p_streams b))")
  case None
  with assms show ?thesis by (auto simp: next_released_def)
next
  case (Some x)
  then obtain s t h f fs where x: "first_released (nested_entries (p_streams b)) = Some ((s, t), h, f, fs)"
    by (metis prod_cases5 surj_pair)
  have get: "stream_mut b s t = Some h"
    using first_released_Some [OF x] nested.entries_get [OF assms(2)] by (simp add: stream_mut_def)
  have "b' = stream_set s t (h\<lparr>h_released := fs\<rparr>) b"
    using assms(1) x by (auto simp: next_released_def)
  with all_gapless_set [OF assms(3,2) get] all_gaplessD [OF assms(3) get] show ?thesis by simp
qed

lemma snapshot_gapless:
  assumes "snapshot s t now b hp = (b', hp', r)" "nested_ok (p_streams b)" "all_gapless logs b"
  shows "all_gapless logs b'"
proof (cases "stream_mut b s t")
  case (Some h)
  obtain h1 hp1 where e: "history_expire now h hp = (h1, hp1)" by (cases "history_expire now h hp")
  then have "b' = stream_set s t h1 b" using assms(1) Some by (auto simp: snapshot_def Let_def)
  then show ?thesis
    using all_gapless_set [OF assms(3,2) Some] shorter_gapless [OF history_expire_shorter [OF e]]
      all_gaplessD [OF assms(3) Some] by simp
qed (use assms in \<open>simp add: snapshot_def\<close>)

lemma buffers_take_gapless:
  assumes "buffers_take s t now b hp = (b', hp', out)" "nested_ok (p_streams b)" "all_gapless logs b"
  shows "all_gapless logs b'"
proof (cases "stream_mut b s t")
  case (Some h)
  then obtain h' where "b' = stream_set s t h' b" "h_gops h' = []"
    using assms(1) by (auto simp: buffers_take_def Let_def split: prod.splits if_splits)
  then show ?thesis using all_gapless_set [OF assms(3,2) Some] gapless_empty by simp
qed (use assms in \<open>simp add: buffers_take_def\<close>)

lemma configure_gapless:
  assumes c: "configure s t d b hp = (b', hp', r)" and nest: "nested_ok (p_streams b)" and all: "all_gapless logs b"
  shows "all_gapless logs b'"
proof (cases "stream_mut b s t")
  case (Some h)
  with c all show ?thesis
    by (auto simp: configure_def split: if_splits prod.splits
        intro!: all_gapless_set [OF all nest Some] dest: clear_history_gapless)
next
  case None
  then have none: "nested_get (p_streams b) (s, t) = None" by (simp add: stream_mut_def)
  show ?thesis
  proof (cases "b' = b")
    case False
    then obtain h n where b': "b' = b\<lparr>p_streams := nested_insert (s, t) h (p_streams b), p_stream_count := n\<rparr>"
      and "h_gops h = []"
      using c None by (auto simp: configure_def Let_def split: if_splits prod.splits)
    then show ?thesis
      using all nested.get_ins [OF nest, of "(s, t)" h] gapless_empty
      by (auto simp: all_gapless_def stream_mut_def split: if_splits)
  qed (use all in simp)
qed

definition pre_good :: "usize \<times> usize \<Rightarrow> PreState \<Rightarrow> (string \<times> string \<Rightarrow> RecordingFrame list) \<Rightarrow> bool" where
  "pre_good G st logs \<longleftrightarrow> pre_inv G (ps_buffers st) (ps_heap st) (ps_out st) \<and> all_gapless logs (ps_buffers st)"

interpretation logged: machine
  "\<lambda>(st, logs) op. (pre_step st op, extend_logs logs op)" "\<lambda>(st, logs). pre_good G st logs"
  for G :: "usize \<times> usize"
proof (unfold_locales, clarify)
  fix st :: PreState and logs op
  assume good: "pre_good G st logs"
  then have inv: "pre_inv G (ps_buffers st) (ps_heap st) (ps_out st)" and all: "all_gapless logs (ps_buffers st)"
    by (simp_all add: pre_good_def)
  note nest = pre_inv_nested [OF inv]
  have "all_gapless (extend_logs logs op) (ps_buffers (pre_step st op))"
  proof (cases op)
    case (Push s t f now)
    have "extend_logs logs op = logs((s, t) := logs (s, t) @ [f])" by (auto simp: Push extend_logs_def)
    then show ?thesis using push_owned_gapless [OF _ inv all] by (auto simp: Push split: prod.splits)
  qed (use all nest in \<open>auto split: prod.splits intro: configure_gapless set_continuous_gapless clear_source_gapless
      clear_stream_gapless remove_source_gapless next_released_gapless expire_gapless buffers_take_gapless snapshot_gapless\<close>)
  with pre.step_inv [OF inv] show "pre_good G (pre_step st op) (extend_logs logs op)"
    by (simp add: pre_good_def)
qed

lemma foldl_logged:
  "foldl (\<lambda>(st, logs) op. (pre_step st op, extend_logs logs op)) (st, logs) ops =
     (foldl pre_step st ops, \<lambda>(s, t). logs (s, t) @ pushed s t ops)"
proof (induction ops arbitrary: st logs)
  case (Cons op ops)
  have "pushed s t (op # ops) = pushed s t [op] @ pushed s t ops" for s t
    by (cases op) auto
  with Cons.IH show ?case by (simp add: extend_logs_def)
qed auto

lemma pre_run_gapless:
  assumes "sb \<le> u64_max" "gb \<le> u64_max" "stream_mut (ps_buffers (pre_run sb gb ops)) s t = Some h"
  shows "gapless (pushed s t ops) h"
proof -
  have "all_gapless (\<lambda>_. []) (ps_buffers (pre_init sb gb))"
    by (simp add: all_gapless_def pre_init_def PreRecordBuffers_new_def arc_new_def Let_def stream_mut_def
        nested_get_def bt_get_def)
  then have "pre_good (sb, gb) (pre_init sb gb) (\<lambda>_. [])" using pre_init_inv [OF assms(1,2)] by (simp add: pre_good_def)
  with logged.run_inv [of "(sb, gb)" "(pre_init sb gb, \<lambda>_. [])" ops]
  have "all_gapless (\<lambda>(s, t). pushed s t ops) (ps_buffers (pre_run sb gb ops))"
    by (simp add: foldl_logged pre_good_def pre_run_def)
  from all_gaplessD [OF this assms(3)] show ?thesis by simp
qed


section \<open>What a replay looks like\<close>

lemma retain_audio_videos:
  "retain_audio a w fs = (ks, ds) \<Longrightarrow>
     filter (\<lambda>f. is_video (bf_frame f)) ks = filter (\<lambda>f. is_video (bf_frame f)) fs \<and> subseq ks fs"
  by (induction a w fs arbitrary: ks ds rule: retain_audio.induct)
    (auto simp: Let_def split: MediaFrame.splits option.splits if_splits prod.splits)

lemma trim_audio_videos:
  assumes "trim_audio_to_video fs = (ks, ds)"
  shows "filter (\<lambda>f. is_video (bf_frame f)) ks = filter (\<lambda>f. is_video (bf_frame f)) fs \<and> subseq ks fs"
  using assms retain_audio_videos by (auto simp: trim_audio_to_video_def Let_def split: list.splits)

text \<open>\<open>x\<close> is an audio packet that ends before \<open>y\<close> starts.\<close>

definition audio_span :: "RecordingFrame \<Rightarrow> duration" where
  "audio_span f = (case media f of Video v \<Rightarrow> 0 | Audio a \<Rightarrow> a_duration a)"

definition audio_before :: "RecordingFrame \<Rightarrow> RecordingFrame \<Rightarrow> bool" where
  "audio_before x y \<longleftrightarrow> received_at x + audio_span x \<le> received_at y"

text \<open>The audio packets follow each other between \<open>lo\<close> and \<open>hi\<close>.\<close>

definition audio_within :: "instant \<Rightarrow> instant \<Rightarrow> RecordingFrame list \<Rightarrow> bool" where
  "audio_within lo hi fs \<longleftrightarrow>
     sorted_wrt audio_before (filter is_audio fs)
     \<and> (\<forall>x \<in> set fs. is_audio x \<longrightarrow> lo \<le> received_at x \<and> 0 < audio_span x \<and> received_at x + audio_span x \<le> hi)"

lemma audio_within_Cons:
  "is_video f \<Longrightarrow> audio_within lo hi (f # fs) = audio_within lo hi fs"
  "is_audio f \<Longrightarrow> lo \<le> received_at f \<Longrightarrow> 0 < audio_span f \<Longrightarrow> received_at f + audio_span f \<le> hi \<Longrightarrow>
     audio_within (received_at f + audio_span f) hi fs \<Longrightarrow> audio_within lo hi (f # fs)"
  by (cases "media f"; fastforce simp: audio_within_def audio_before_def)+

lemma retain_audio_within: "audio_within lo hi (map bf_frame (fst (retain_audio lo hi fs)))"
proof (induction fs arbitrary: lo)
  case (Cons f fs)
  show ?case
  proof (cases "media (bf_frame f)")
    case (Video v)
    with Cons show ?thesis by (simp add: case_prod_beta audio_within_Cons(1))
  next
    case (Audio a)
    then have span: "audio_span (bf_frame f) = a_duration a" by (simp add: audio_span_def)
    show ?thesis
    proof (cases "audio_end (bf_frame f) a")
      case None
      with Audio Cons show ?thesis by (simp add: case_prod_beta)
    next
      case (Some e)
      then have "e = received_at (bf_frame f) + audio_span (bf_frame f)"
        by (auto simp: audio_end_def checked_add_instant_def span split: if_splits)
      with Audio Some Cons span show ?thesis
        by (auto simp: case_prod_beta intro!: audio_within_Cons(2))
    qed
  qed
qed (simp add: audio_within_def)

lemma subseq_hd:
  assumes "subseq xs ys" "filter P xs = filter P ys" "ys \<noteq> []" "P (hd ys)"
  shows "xs \<noteq> [] \<and> hd xs = hd ys"
proof -
  obtain y ys' where ys: "ys = y # ys'" "P y" using assms(3,4) by (cases ys) auto
  then obtain x xs' where xs: "xs = x # xs'" using assms(2) by (cases xs) auto
  have "x = y"
  proof (rule ccontr)
    assume "x \<noteq> y"
    then have "subseq xs ys'" using assms(1) xs ys by (simp split: if_splits)
    then have "length (filter P xs) \<le> length (filter P ys')" by (intro list_emb_length [where P = "(=)"] subseq_filter)
    with assms(2) ys show False by simp
  qed
  with xs ys show ?thesis by simp
qed

lemma gops_ok_replay:
  assumes "gops_ok l gs" "gs \<noteq> []"
  shows "concat (map g_frames gs) \<noteq> []" "is_video_keyframe (bf_frame (hd (concat (map g_frames gs))))"
    "received_at (bf_frame (hd (concat (map g_frames gs)))) = g_start (hd gs)"
  using assms by (cases gs; auto simp: gops_ok_def gop_ok_def)+

lemma take_cases:
  assumes "buffers_take s t now b hp = (b', hp', out)" "pre_inv G b hp ext"
  obtains "stream_mut b s t = None" "out = []" "b' = b" "hp' = hp"
  | h h1 hp1 ds where "stream_mut b s t = Some h" "history_expire now h hp = (h1, hp1)"
      "trim_audio_to_video (concat (map g_frames (h_gops h1))) = (out, ds)" "history_ok h1"
      "\<And>t. t \<in> set (arrivals (h_gops h1)) \<Longrightarrow> now - t \<le> h_duration h"
proof (cases "stream_mut b s t")
  case None
  with assms show ?thesis by (intro that(1)) (simp_all add: buffers_take_def)
next
  case (Some h)
  obtain h1 hp1 where e: "history_expire now h hp = (h1, hp1)" by (cases "history_expire now h hp")
  note ev = history_expire_evicts [OF e pre_inv_get_ok [OF assms(2) Some]]
  then have ok: "history_ok h1" by (auto dest: evictsD)
  have "now - x \<le> h_duration h" if x: "x \<in> set (arrivals (h_gops h1))" for x
  proof -
    have ne: "h_gops h1 \<noteq> []" using x by auto
    have g: "gops_ok (h_last_received_at h1) (h_gops h1)" using ok by (simp add: history_ok_def)
    have "arrivals (h_gops h1) = g_start (hd (h_gops h1)) # tl (arrivals (h_gops h1))"
      using gops_ok_replay [OF g ne] by (cases "concat (map g_frames (h_gops h1))") (auto simp: arrivals_def)
    moreover have "sorted (arrivals (h_gops h1))" using g by (simp add: gops_ok_def)
    ultimately have "g_start (hd (h_gops h1)) \<le> x" using x by (metis order_refl set_ConsD sorted_wrt.simps(2))
    with ev ne show ?thesis by auto
  qed
  moreover obtain ds where "trim_audio_to_video (concat (map g_frames (h_gops h1))) = (out, ds)"
    using assms(1) Some e by (auto simp: buffers_take_def Let_def split: prod.splits)
  ultimately show ?thesis using that(2) [OF Some e _ ok] by blast
qed

section \<open>A concrete run\<close>

text \<open>A stream, a keyframe, an audio packet, two delta frames and a frame that lies after \<open>now\<close>.\<close>

definition demo_frame :: "nat \<Rightarrow> MediaFrame \<Rightarrow> RecordingFrame" where
  "demo_frame t m = \<lparr>received_at = t, timestamp = Some t, media = m\<rparr>"

definition demo_video :: "bool \<Rightarrow> MediaFrame" where
  "demo_video key = Video \<lparr>v_codec = H264, v_is_keyframe = key, v_width = 4, v_height = 2, v_data = [0, 1, 2]\<rparr>"

definition demo_audio :: "duration \<Rightarrow> MediaFrame" where
  "demo_audio d = Audio \<lparr>a_codec = Aac, a_sample_rate = 16000, a_duration = d, a_data = [7]\<rparr>"

definition demo_ops :: "PreOp list" where
  "demo_ops = [Configure ''cam'' ''main'' 1000,
     Push ''cam'' ''main'' (demo_frame 10 (demo_video True)) 20,
     Push ''cam'' ''main'' (demo_frame 11 (demo_audio 2)) 20,
     Push ''cam'' ''main'' (demo_frame 14 (demo_video False)) 20,
     Push ''cam'' ''main'' (demo_frame 15 (demo_video False)) 20]"

definition demo_state :: PreState where
  "demo_state = pre_run 1000 5000 demo_ops"

lemma demo_limits: "(1000 :: nat) \<le> u64_max" "(5000 :: nat) \<le> u64_max"
  by (simp_all add: u64_max_def)

lemma demo_stream:
  "is_some_and (stream_mut (ps_buffers demo_state) ''cam'' ''main'') (\<lambda>h. map bf_frame (hist_frames h) =
     [demo_frame 10 (demo_video True), demo_frame 11 (demo_audio 2), demo_frame 14 (demo_video False),
      demo_frame 15 (demo_video False)])"
  by code_simp

lemma demo_history:
  obtains h where "stream_mut (ps_buffers (pre_run 1000 5000 demo_ops)) ''cam'' ''main'' = Some h"
    "map bf_frame (hist_frames h) =
     [demo_frame 10 (demo_video True), demo_frame 11 (demo_audio 2), demo_frame 14 (demo_video False),
      demo_frame 15 (demo_video False)]"
  using demo_stream by (auto simp: is_some_and_iff demo_state_def)

section \<open>Properties of the pre-record buffers\<close>

lemma reserved_all:
  assumes "\<forall>f \<in> set fs. on_budget i f \<and> r_bytes (bf_reservation f) = byte_len (bf_frame f)"
  shows "reserved_bytes i fs = sum_list (map (\<lambda>f. byte_len (bf_frame f)) fs)" "reserved_frames i fs = length fs"
  using assms by (induction fs) auto

lemma held_charged:
  assumes "pre_inv G b hp ext"
  shows "\<forall>f \<in> set (held b @ ext). charged b f"
proof -
  have "charged b f" if f: "f \<in> set (held b)" for f
  proof -
    obtain k h where "(k, h) \<in> set (nested_entries (p_streams b))" "f \<in> set (hist_frames h)"
      using f by (auto simp: held_def)
    moreover obtain s t where "k = (s, t)" by (cases k)
    ultimately have "stream_mut b s t = Some h" "f \<in> set (hist_frames h)"
      using nested.entries_get [OF pre_inv_nested [OF assms]] by (auto simp: stream_mut_def)
    then show ?thesis
      using pre_inv_get [OF assms] by (auto simp: stream_ok_def history_ok_def owns_def charged_def)
  qed
  then show ?thesis using assms by (auto simp: pre_inv_def)
qed

lemma global_exact:
  assumes "pre_inv G b hp ext"
  shows "budget_exact (budgets hp (p_global_budget b))
    (sum_list (map (\<lambda>f. byte_len (bf_frame f)) (held b @ ext))) (length (held b @ ext))"
proof -
  have "\<forall>f \<in> set (held b @ ext). on_budget (p_global_budget b) f \<and> r_bytes (bf_reservation f) = byte_len (bf_frame f)"
    using held_charged [OF assms] by (auto simp: charged_def on_budget_def)
  from reserved_all [OF this] show ?thesis
    using accountsD [of hp "held b @ ext" "p_global_budget b"] assms by (simp add: pre_inv_def buffers_ok_def)
qed

lemma held_part:
  assumes "pre_inv G b hp ext" "stream_mut b s t = Some h"
  shows "\<exists>rest. mset (held b) = mset (hist_frames h) + mset rest"
  using held_stream_set [OF pre_inv_nested [OF assms(1)] assms(2), of "h\<lparr>h_gops := [], h_released := []\<rparr>"]
  by (auto simp: hist_frames_def add_ac intro!: exI [of _ "held (stream_set s t (h\<lparr>h_gops := [], h_released := []\<rparr>) b)"])

lemma subseq_set: "subseq xs ys \<Longrightarrow> set xs \<subseteq> set ys"
  by (induction rule: list_emb.induct) auto

lemma sorted_subseq: "subseq xs ys \<Longrightarrow> sorted ys \<Longrightarrow> sorted xs"
  by (induction rule: list_emb.induct) (auto dest: subseq_set)

lemma sheds_length: "sheds h hp h' hp' \<Longrightarrow> length (hist_frames h') \<le> length (hist_frames h)"
  by (auto simp: sheds_def dest: arg_cong [where f = size])

lemma held_shrinks:
  assumes "nested_ok (p_streams b)" "stream_mut b s t = Some h" "length (hist_frames h') \<le> length (hist_frames h)"
  shows "length (held (stream_set s t h' b)) \<le> length (held b)"
  using arg_cong [OF held_stream_set [OF assms(1,2), of h'], where f = size] assms(3) by simp

lemma make_global_room_shrinks:
  assumes "make_global_room s t f b hp = (b', hp', room)" "pre_inv G b hp ext"
  shows "length (held b') \<le> length (held b)"
proof -
  have one: "length (held (stream_set s0 t1 h1 b)) \<le> length (held b)"
    if "pre_inv G b hp ext" "stream_mut b s0 t1 = Some h0"
      "evict_oldest (h0\<lparr>h_reason := GlobalPressure\<rparr>) hp = (h1, hp1, p)" for b hp s0 t1 h0 h1 hp1 p
    using held_shrinks [OF pre_inv_nested [OF that(1)] that(2)] sheds_length [OF evict_oldest_sheds [OF that(3)]] by simp
  have "length (held (fst r)) \<le> length (held b)" if "make_global_room s t f b hp = r" for r
    using that assms(2)
  proof (induction rule: make_global_room_induct)
    case (stop b hp s0 t1 h0 h1 hp1 p)
    from one [OF stop(1-3)] show ?case by simp
  next
    case (step b hp s0 t1 h0 h1 hp1 p r)
    from one [OF step(1-3)] step(5) show ?case by simp
  qed auto
  from this [OF assms(1)] show ?thesis by simp
qed

text \<open>
  C1 (memory is bounded and exactly accounted). Whatever operations run, in any order, and whenever
  receivers drop the frames they were handed, the payload bytes of all frames alive, buffered or handed
  out, stay within the global limit the registry was created with, there are at most
  \<open>MAX_GLOBAL_FRAMES\<close> of them, and the shared counters are exactly those totals.
\<close>

theorem pre_record_memory_bounded:
  assumes "stream_bytes \<le> u64_max" "global_bytes \<le> u64_max"
  shows "let st = pre_run stream_bytes global_bytes ops;
             alive = held (ps_buffers st) @ ps_out st;
             total = sum_list (map (\<lambda>f. byte_len (bf_frame f)) alive);
             counter = budgets (ps_heap st) (p_global_budget (ps_buffers st))
         in total \<le> global_bytes \<and> length alive \<le> MAX_GLOBAL_FRAMES
            \<and> b_bytes counter = total \<and> b_frames counter = length alive"
  using global_exact [OF pre_run_inv [OF assms, of ops]] pre_run_inv [OF assms, of ops]
  by (simp add: Let_def budget_exact_def pre_inv_def buffers_ok_def)

theorem pre_record_memory_bounded_witness:
  "(1000 :: nat) \<le> u64_max \<and> (5000 :: nat) \<le> u64_max \<and>
   (let st = pre_run 1000 5000 demo_ops;
        alive = held (ps_buffers st) @ ps_out st;
        total = sum_list (map (\<lambda>f. byte_len (bf_frame f)) alive)
    in total \<le> 5000 \<and> b_bytes (budgets (ps_heap st) (p_global_budget (ps_buffers st))) = total)"
  using pre_record_memory_bounded [OF demo_limits, of demo_ops] demo_limits by (simp add: Let_def)

lemma stream_keys_count:
  assumes "nested_ok (p_streams b)"
  shows "finite {(s, t). stream_mut b s t \<noteq> None}"
    "card {(s, t). stream_mut b s t \<noteq> None} = length (nested_entries (p_streams b))"
proof -
  let ?es = "nested_entries (p_streams b)"
  have mem: "(k, h) \<in> set ?es \<longleftrightarrow> nested_get (p_streams b) k = Some h" for k h
    by (rule nested.entries_get [OF assms])
  have keys: "{(s, t). stream_mut b s t \<noteq> None} = fst ` set ?es"
    using mem by (force simp: stream_mut_def)
  then show "finite {(s, t). stream_mut b s t \<noteq> None}" by simp
  have "inj_on fst (set ?es)" using mem by (auto simp: inj_on_def)
  then show "card {(s, t). stream_mut b s t \<noteq> None} = length ?es"
    using distinct_card [OF distinct_nested_entries [OF assms]] by (simp only: keys card_image)
qed

text \<open>
  C5 (each stream is bounded on its own). The frames a stream history holds, retained or released,
  stay within the per-stream byte limit and number at most \<open>MAX_STREAM_FRAMES\<close>; there are at most
  \<open>MAX_STREAMS\<close> stream histories, counted as the source and stream names that have one, and the stream
  counter is exactly their number.
\<close>

theorem pre_record_stream_bounded:
  assumes "stream_bytes \<le> u64_max" "global_bytes \<le> u64_max"
    and "b = ps_buffers (pre_run stream_bytes global_bytes ops)"
  shows "finite {(s, t). stream_mut b s t \<noteq> None} \<and> card {(s, t). stream_mut b s t \<noteq> None} \<le> MAX_STREAMS
    \<and> p_stream_count b = card {(s, t). stream_mut b s t \<noteq> None}
    \<and> (\<forall>s t h. stream_mut b s t = Some h \<longrightarrow>
         sum_list (map (\<lambda>f. byte_len (bf_frame f)) (hist_frames h)) \<le> stream_bytes
         \<and> length (hist_frames h) \<le> MAX_STREAM_FRAMES)"
proof -
  let ?st = "pre_run stream_bytes global_bytes ops"
  let ?hp = "ps_heap ?st"
  have inv: "pre_inv (stream_bytes, global_bytes) b ?hp (ps_out ?st)"
    using pre_run_inv [OF assms(1,2), of ops] by (simp add: assms(3))
  have each: "sum_list (map (\<lambda>f. byte_len (bf_frame f)) (hist_frames h)) \<le> stream_bytes \<and> length (hist_frames h) \<le> MAX_STREAM_FRAMES"
    if h: "stream_mut b s t = Some h" for s t h
  proof -
    have st: "stream_ok b ?hp h" by (rule pre_inv_get [OF inv h])
    obtain rest where "mset (held b) = mset (hist_frames h) + mset rest" using held_part [OF inv h] by blast
    then have m: "mset (held b @ ps_out ?st) = mset (hist_frames h @ rest @ ps_out ?st)" by simp
    have "budget_exact (budgets ?hp (h_budget h)) (reserved_bytes (h_budget h) (hist_frames h @ rest @ ps_out ?st))
        (reserved_frames (h_budget h) (hist_frames h @ rest @ ps_out ?st))"
      using inv st accounts_mset [OF m] by (intro accountsD) (simp_all add: pre_inv_def stream_ok_def)
    moreover have "\<forall>f \<in> set (hist_frames h). on_budget (h_budget h) f \<and> r_bytes (bf_reservation f) = byte_len (bf_frame f)"
      using st by (auto simp: stream_ok_def history_ok_def owns_def on_budget_def)
    ultimately show ?thesis
      using st inv reserved_all [of "hist_frames h" "h_budget h"]
      by (simp add: budget_exact_def stream_ok_def pre_inv_def buffers_ok_def)
  qed
  have ok: "nested_ok (p_streams b)" "p_stream_count b = length (nested_entries (p_streams b))" "p_stream_count b \<le> MAX_STREAMS"
    using inv by (simp_all add: pre_inv_def buffers_ok_def)
  show ?thesis using stream_keys_count [OF ok(1)] ok(2,3) each by simp
qed

theorem pre_record_stream_bounded_witness:
  "\<exists>h. stream_mut (ps_buffers (pre_run 1000 5000 demo_ops)) ''cam'' ''main'' = Some h \<and> hist_frames h \<noteq> []
     \<and> sum_list (map (\<lambda>f. byte_len (bf_frame f)) (hist_frames h)) \<le> 1000
     \<and> (''cam'', ''main'') \<in> {(s, t). stream_mut (ps_buffers (pre_run 1000 5000 demo_ops)) s t \<noteq> None}
     \<and> card {(s, t). stream_mut (ps_buffers (pre_run 1000 5000 demo_ops)) s t \<noteq> None} \<le> MAX_STREAMS"
proof -
  obtain h where h: "stream_mut (ps_buffers (pre_run 1000 5000 demo_ops)) ''cam'' ''main'' = Some h"
      "map bf_frame (hist_frames h) \<noteq> []" by (rule demo_history) auto
  with pre_record_stream_bounded [OF demo_limits refl, of demo_ops] show ?thesis by auto
qed

text \<open>
  C2 (histories have no gaps). After any sequence of operations, the frames a stream retains are
  consecutive frames of all the frames that were pushed to it, in the order of arrival; each GOP starts
  with a keyframe and holds no other; and while the stream does not wait for a keyframe they are the
  newest ones.
\<close>

theorem pre_record_gapless:
  assumes "stream_bytes \<le> u64_max" "global_bytes \<le> u64_max"
    and "stream_mut (ps_buffers (pre_run stream_bytes global_bytes ops)) s t = Some h"
  shows "sublist (map bf_frame (concat (map g_frames (h_gops h)))) (pushed s t ops)
    \<and> (\<not> h_awaiting_keyframe h \<longrightarrow> suffix (map bf_frame (concat (map g_frames (h_gops h)))) (pushed s t ops))
    \<and> (\<forall>g \<in> set (h_gops h). \<exists>k fs. g_frames g = k # fs \<and> is_video_keyframe (bf_frame k)
         \<and> (\<forall>f \<in> set fs. \<not> is_video_keyframe (bf_frame f)))
    \<and> sorted (map (\<lambda>f. received_at (bf_frame f)) (concat (map g_frames (h_gops h))))"
  using pre_run_gapless [OF assms] pre_inv_get_ok [OF pre_run_inv [OF assms(1,2)] assms(3)]
  by (fastforce simp: gapless_def retained_def history_ok_def gops_ok_def gop_ok_def arrivals_def)

theorem pre_record_gapless_witness:
  "\<exists>h. stream_mut (ps_buffers (pre_run 1000 5000 demo_ops)) ''cam'' ''main'' = Some h
     \<and> sublist (map bf_frame (concat (map g_frames (h_gops h)))) (pushed ''cam'' ''main'' demo_ops)"
proof -
  obtain h where h: "stream_mut (ps_buffers (pre_run 1000 5000 demo_ops)) ''cam'' ''main'' = Some h"
    by (rule demo_history)
  from pre_record_gapless [OF demo_limits h] h show ?thesis by blast
qed

text \<open>
  C3 (a replay can be decoded). What \<open>take\<close> hands out is empty or starts with a keyframe; it is in the
  order of arrival, reaches back no further than the configured duration, has every video frame that
  was retained, and its audio packets follow each other without overlap inside the span of its video.
\<close>

theorem take_replay:
  assumes run: "stream_bytes \<le> u64_max" "global_bytes \<le> u64_max"
    and get: "stream_mut (ps_buffers (pre_run stream_bytes global_bytes ops)) s t = Some h"
    and take: "buffers_take s t now (ps_buffers (pre_run stream_bytes global_bytes ops))
      (ps_heap (pre_run stream_bytes global_bytes ops)) = (b', hp', out)"
  shows "out = [] \<or> (let fs = map bf_frame out; video = filter is_video fs in
      is_video_keyframe (hd fs)
      \<and> sorted (map received_at fs)
      \<and> (\<forall>f \<in> set fs. saturating_duration_since now (received_at f) \<le> h_duration h)
      \<and> video = filter is_video (retained (fst (history_expire now h (ps_heap (pre_run stream_bytes global_bytes ops)))))
      \<and> audio_within (received_at (hd video)) (received_at (last video)) fs)"
proof (cases "out = []")
  case False
  from take pre_run_inv [OF run] show ?thesis
  proof (cases rule: take_cases)
    case (2 h' h1 hp1 ds)
    let ?fs = "concat (map g_frames (h_gops h1))" and ?v = "\<lambda>f. is_video (bf_frame f)"
    have h': "h' = h" using 2(1) get by simp
    have gops: "h_gops h1 \<noteq> []" using 2(3) False by (auto simp: trim_audio_to_video_def)
    have g: "gops_ok (h_last_received_at h1) (h_gops h1)" using 2(4) by (simp add: history_ok_def)
    note rep = gops_ok_replay [OF g gops]
    note vid = trim_audio_videos [OF 2(3)]
    have hd: "hd out = hd ?fs" using subseq_hd [of out ?fs ?v] vid rep(1,2) keyframe_is_video by auto
    have "subseq (map received_at (map bf_frame out)) (arrivals (h_gops h1))"
      using vid subseq_map [of out ?fs "\<lambda>f. received_at (bf_frame f)"] by (simp add: arrivals_def comp_def)
    from subseq_set [OF this] sorted_subseq [OF this] have sorted: "sorted (map received_at (map bf_frame out))"
        and within: "\<forall>f \<in> set (map bf_frame out). now - received_at f \<le> h_duration h"
      using g 2(5) h' by (auto simp: gops_ok_def)
    have vs: "filter ?v ?fs \<noteq> []" using rep keyframe_is_video by (cases ?fs) auto
    have "audio_within (received_at (bf_frame (hd (filter ?v ?fs)))) (received_at (bf_frame (last (filter ?v ?fs)))) (map bf_frame out)"
      using 2(3) vs retain_audio_within [of "received_at (bf_frame (hd (filter ?v ?fs)))"
        "received_at (bf_frame (last (filter ?v ?fs)))" ?fs]
      by (cases "filter ?v ?fs") (auto simp: trim_audio_to_video_def Let_def split: if_splits)
    with False hd rep(2) sorted within vid 2(2) h' vs show ?thesis
      by (simp add: Let_def filter_map comp_def retained_def hd_map last_map saturating_duration_since_def)
  qed (use False in simp)
qed simp


lemma demo_take:
  "map bf_frame (snd (snd (buffers_take ''cam'' ''main'' 20 (ps_buffers demo_state) (ps_heap demo_state)))) =
     [demo_frame 10 (demo_video True), demo_frame 11 (demo_audio 2), demo_frame 14 (demo_video False),
      demo_frame 15 (demo_video False)]"
  by code_simp

theorem take_replay_witness:
  "\<exists>b' hp' out. buffers_take ''cam'' ''main'' 20 (ps_buffers demo_state) (ps_heap demo_state) = (b', hp', out)
     \<and> length out = 4 \<and> is_video_keyframe (bf_frame (hd out)) \<and> sorted (map received_at (map bf_frame out))"
proof -
  obtain b' hp' out where take: "buffers_take ''cam'' ''main'' 20 (ps_buffers demo_state) (ps_heap demo_state) = (b', hp', out)"
    by (metis prod_cases3)
  have len: "length out = 4" using arg_cong [OF demo_take, of length] take by simp
  obtain h where h: "stream_mut (ps_buffers (pre_run 1000 5000 demo_ops)) ''cam'' ''main'' = Some h"
    by (rule demo_history)
  from len take_replay [OF demo_limits h take [unfolded demo_state_def]]
  have "is_video_keyframe (bf_frame (hd out)) \<and> sorted (map received_at (map bf_frame out))"
    by (cases out) (auto simp: Let_def)
  with take len show ?thesis by blast
qed

text \<open>
  C4 (a push keeps the frame or gives it back). \<open>push_owned\<close> either retains the frame as the newest one
  of its stream and counts it, and then the stream does not wait for a keyframe, or returns that very
  frame to the caller, and the memory in use has not grown.
\<close>

theorem push_owned_outcome:
  assumes run: "stream_bytes \<le> u64_max" "global_bytes \<le> u64_max"
    and st: "st = pre_run stream_bytes global_bytes ops"
    and push: "push_owned s t f now (ps_buffers st) (ps_heap st) = (b', hp', res)"
  shows "case res of
      None \<Rightarrow> \<exists>h. stream_mut b' s t = Some h \<and> \<not> h_awaiting_keyframe h \<and> retained h \<noteq> []
                \<and> last (retained h) = f \<and> received_at f \<le> now
    | Some f' \<Rightarrow> f' = f \<and> length (held b') \<le> length (held (ps_buffers st))"
proof -
  note inv = pre_run_inv [OF run, of ops, folded st]
  show ?thesis
    using push inv
  proof (cases rule: push_owned_cases)
    case (rejected h h1)
    then show ?thesis
      using held_shrinks [OF pre_inv_nested [OF inv] rejected(1)] sheds_length [OF admit_sheds [OF rejected(2)]] by simp
  next
    case (admitted h h1 hp1 b2 hp2 h2 room)
    have b1: "length (held (stream_set s t h1 (ps_buffers st))) \<le> length (held (ps_buffers st))"
      using held_shrinks [OF pre_inv_nested [OF inv] admitted(1)] sheds_length [OF admit_sheds [OF admitted(2)]] by simp
    have b2: "length (held b2) \<le> length (held (stream_set s t h1 (ps_buffers st)))"
      by (rule make_global_room_shrinks [OF admitted(5,3)])
    note nest2 = pre_inv_nested [OF admitted(6)]
    from admitted(10) show ?thesis
    proof (elim disjE conjE)
      assume "b' = stream_set s t (h2\<lparr>h_reason := GlobalPressure\<rparr>) b2" "res = Some f"
      then show ?thesis
        using b1 b2 held_shrinks [OF nest2 admitted(7), of "h2\<lparr>h_reason := GlobalPressure\<rparr>"] by simp
    next
      assume "b' = b2" "res = Some f"
      then show ?thesis using b1 b2 by simp
    next
      assume key: "h_awaiting_keyframe h2 \<longrightarrow> is_video_keyframe f" and "res = None"
        and b': "b' = stream_set s t (history_push (retain_frame f h2 b2) h2) b2"
      have ne: "is_video_keyframe f \<or> h_gops h2 \<noteq> []"
        using key pre_inv_get_ok [OF admitted(6,7)] by (auto simp: history_ok_def)
      have "stream_mut b' s t = Some (history_push (retain_frame f h2 b2) h2)"
        using stream_mut_set [OF nest2 admitted(7)] by (simp add: b')
      moreover have "\<not> h_awaiting_keyframe (history_push (retain_frame f h2 b2) h2)"
        using key by (auto simp: history_push_def retain_frame_def)
      moreover have "retained (history_push (retain_frame f h2 b2) h2) = retained h2 @ [f]"
        using history_push_frames [of "retain_frame f h2 b2" h2] ne by (simp add: retained_def retain_frame_def)
      ultimately show ?thesis
        using \<open>res = None\<close> admit_ok [OF admitted(2) pre_inv_get_ok [OF inv admitted(1)]] by simp
    qed
  qed simp
qed

lemma demo_push:
  "snd (snd (push_owned ''cam'' ''main'' (demo_frame 16 (demo_video False)) 20 (ps_buffers demo_state) (ps_heap demo_state))) = None"
  by code_simp

theorem push_owned_outcome_witness:
  "\<exists>b' hp' h. push_owned ''cam'' ''main'' (demo_frame 16 (demo_video False)) 20 (ps_buffers demo_state) (ps_heap demo_state)
       = (b', hp', None) \<and> stream_mut b' ''cam'' ''main'' = Some h \<and> last (retained h) = demo_frame 16 (demo_video False)"
proof -
  obtain b' hp' where p: "push_owned ''cam'' ''main'' (demo_frame 16 (demo_video False)) 20
      (ps_buffers demo_state) (ps_heap demo_state) = (b', hp', None)"
    using demo_push by (metis prod.collapse)
  from push_owned_outcome [OF demo_limits demo_state_def p] p show ?thesis by auto
qed

end
