(* ===== verification/Nal.thy ===== *)
theory Nal
  imports Media_Frame
begin

text \<open>
  The NAL unit helpers of \<open>src/src/storage/nal.rs\<close> and the decoder configuration that
  \<open>src/src/storage/medium_term.rs\<close> derives from a keyframe. A position in the Rust loops is the
  suffix of the data that starts there. The H.264 and H.265 parameter parsers of the vendored
  \<open>retina\<close> crate are arguments.

  The round trips at the end say that the two framings carry the same NAL units, for units as the
  encoders produce them (not empty, no start code inside, no trailing zero byte).
\<close>

unbundle bit_operations_syntax

section \<open>Big-endian integers\<close>

definition to_be_bytes16 :: "nat \<Rightarrow> byte list" where
  "to_be_bytes16 n = [word_of_nat (n div 2 ^ 8), word_of_nat n]"

text \<open>\<open>(n as u32).to_be_bytes()\<close>: a byte keeps the low eight bits, so the cast truncates.\<close>

definition to_be_bytes32 :: "nat \<Rightarrow> byte list" where
  "to_be_bytes32 n = [word_of_nat (n div 2 ^ 24), word_of_nat (n div 2 ^ 16), word_of_nat (n div 2 ^ 8), word_of_nat n]"

definition to_be_bytes64 :: "nat \<Rightarrow> byte list" where
  "to_be_bytes64 n = to_be_bytes32 (n div 2 ^ 32) @ to_be_bytes32 n"

definition from_be_bytes :: "byte list \<Rightarrow> nat" where
  "from_be_bytes bs = foldl (\<lambda>n b. n * 256 + unat b) 0 bs"

lemma unat_byte: "unat (word_of_nat n :: byte) = n mod 256"
  by (simp add: unat_of_nat)

lemma from_to_be_bytes:
  "from_be_bytes (to_be_bytes16 n) = n mod 2 ^ 16"
  "from_be_bytes (to_be_bytes32 n) = n mod 2 ^ 32"
proof -
  have split: "n mod (256 * m) = (n div 256 mod m) * 256 + n mod 256" for n m :: nat
    by (simp add: mod_mult2_eq)
  show "from_be_bytes (to_be_bytes16 n) = n mod 2 ^ 16"
    using split [of n 256] by (simp add: from_be_bytes_def to_be_bytes16_def unat_byte)
  have "n mod 4294967296 = ((n div 16777216 mod 256 * 256 + n div 65536 mod 256) * 256 + n div 256 mod 256) * 256 + n mod 256"
    using split [of n 16777216] split [of "n div 256" 65536] split [of "n div 65536" 256]
    by (simp add: div_mult2_eq [symmetric])
  then show "from_be_bytes (to_be_bytes32 n) = n mod 2 ^ 32"
    by (simp add: from_be_bytes_def to_be_bytes32_def unat_byte)
qed

lemma length_to_be_bytes [simp]:
  "length (to_be_bytes16 n) = 2" "length (to_be_bytes32 n) = 4" "length (to_be_bytes64 n) = 8"
  by (simp_all add: to_be_bytes16_def to_be_bytes32_def to_be_bytes64_def)

lemma to_be_bytes_inj:
  "to_be_bytes16 m = to_be_bytes16 n \<Longrightarrow> m < 2 ^ 16 \<Longrightarrow> n < 2 ^ 16 \<Longrightarrow> m = n"
  "to_be_bytes32 m = to_be_bytes32 n \<Longrightarrow> m < 2 ^ 32 \<Longrightarrow> n < 2 ^ 32 \<Longrightarrow> m = n"
  by (metis from_to_be_bytes(1) mod_less) (metis from_to_be_bytes(2) mod_less)

lemma to_be_bytes64_inj:
  assumes "to_be_bytes64 m = to_be_bytes64 n" "m < 2 ^ 64" "n < 2 ^ 64"
  shows "m = n"
proof -
  have e: "to_be_bytes32 (m div 2 ^ 32) = to_be_bytes32 (n div 2 ^ 32)" "to_be_bytes32 m = to_be_bytes32 n"
    using assms(1) by (simp_all add: to_be_bytes64_def)
  have "m div 2 ^ 32 < 2 ^ 32" "n div 2 ^ 32 < 2 ^ 32" using assms(2,3) by (simp_all add: less_mult_imp_div_less)
  with e(1) have "m div 2 ^ 32 = n div 2 ^ 32" by (rule to_be_bytes_inj(2))
  moreover have "m mod 2 ^ 32 = n mod 2 ^ 32" using arg_cong [OF e(2), of from_be_bytes] by (simp only: from_to_be_bytes)
  ultimately show ?thesis by (metis div_mult_mod_eq)
qed

section \<open>Framings\<close>

text \<open>The start code at the head of the data: four bytes before three.\<close>

definition start_code_len :: "byte list \<Rightarrow> nat option" where
  "start_code_len bs =
     (if take 4 bs = [0, 0, 0, 1] then Some 4 else if take 3 bs = [0, 0, 1] then Some 3 else None)"

text \<open>The scan for the end of a NAL unit: the number of bytes before the next start code.\<close>

fun nalu_len :: "byte list \<Rightarrow> nat" where
  "nalu_len [] = 0"
| "nalu_len (b # bs) = (if start_code_len (b # bs) \<noteq> None then 0 else Suc (nalu_len bs))"

lemma nalu_len_le: "nalu_len bs \<le> length bs"
  by (induction bs) auto

lemma start_code_len_pos: "start_code_len bs = Some k \<Longrightarrow> 0 < k \<and> k \<le> length bs"
  by (auto simp: start_code_len_def split: if_splits dest: arg_cong [where f = length])

function annexb_to_avcc :: "byte list \<Rightarrow> byte list" where
  "annexb_to_avcc bs =
     (case start_code_len bs of
        None \<Rightarrow> (case bs of [] \<Rightarrow> [] | b # rest \<Rightarrow> annexb_to_avcc rest)
      | Some sc_len \<Rightarrow>
          let body = drop sc_len bs;
              n = nalu_len body;
              nalu = take n body
          in (if nalu \<noteq> [] then to_be_bytes32 (length nalu) @ nalu else []) @ annexb_to_avcc (drop n body))"
  by pat_completeness auto
termination
  by (relation "measure length") (auto dest: start_code_len_pos)

declare annexb_to_avcc.simps [simp del]

text \<open>\<open>for_each_avcc_nalu\<close>: the units it calls its closure with, in order.\<close>

function avcc_nalus :: "byte list \<Rightarrow> byte list list" where
  "avcc_nalus bs =
     (if 4 \<le> length bs
      then let nal_len = from_be_bytes (take 4 bs); rest = drop 4 bs
           in if nal_len = 0 \<or> nal_len > length rest then []
              else take nal_len rest # avcc_nalus (drop nal_len rest)
      else [])"
  by pat_completeness auto
termination by (relation "measure length") auto

declare avcc_nalus.simps [simp del]

definition avcc_to_annexb :: "byte list \<Rightarrow> byte list" where
  "avcc_to_annexb avcc = concat (map (\<lambda>nalu. [0, 0, 0, 1] @ nalu) (avcc_nalus avcc))"

definition extract_h264_sps_pps :: "byte list \<Rightarrow> byte list option \<times> byte list option" where
  "extract_h264_sps_pps avcc =
     foldl (\<lambda>(sps, pps) nalu.
        if nalu = [] then (sps, pps)
        else let nal_type = hd nalu AND 0x1F
             in if nal_type = 7 then (Some nalu, pps)
                else if nal_type = 8 then (sps, Some nalu) else (sps, pps))
       (None, None) (avcc_nalus avcc)"

definition has_h264_parameter_sets :: "byte list \<Rightarrow> bool" where
  "has_h264_parameter_sets avcc =
     foldl (\<lambda>found nalu. found \<or> (case nalu of [] \<Rightarrow> False | header # _ \<Rightarrow> header AND 0x1F = 7 \<or> header AND 0x1F = 8))
       False (avcc_nalus avcc)"

definition extract_h265_params :: "byte list \<Rightarrow> byte list option \<times> byte list option \<times> byte list option" where
  "extract_h265_params avcc =
     foldl (\<lambda>(vps, sps, pps) nalu.
        if length nalu < 2 then (vps, sps, pps)
        else let nal_type = drop_bit 1 (hd nalu) AND 0x3F
             in if nal_type = 32 then (Some nalu, sps, pps)
                else if nal_type = 33 then (vps, Some nalu, pps)
                else if nal_type = 34 then (vps, sps, Some nalu) else (vps, sps, pps))
       (None, None, None) (avcc_nalus avcc)"

definition has_h265_parameter_sets :: "byte list \<Rightarrow> bool" where
  "has_h265_parameter_sets avcc =
     foldl (\<lambda>found nalu. found \<or> (case nalu of [] \<Rightarrow> False
              | header # _ \<Rightarrow> 32 \<le> drop_bit 1 header AND 0x3F \<and> drop_bit 1 header AND 0x3F \<le> 34))
       False (avcc_nalus avcc)"

section \<open>Decoder configuration\<close>

datatype MediaConfig =
  AvcConfig (mc_width: nat) (mc_height: nat) (seq_param_set: "byte list") (pic_param_set: "byte list")
| HevcConfig (mc_width: nat) (mc_height: nat) (hevc_vps: "byte list") (hevc_sps: "byte list")
    (hevc_pps: "byte list") (decoder_config: "byte list")

text \<open>
  What the vendored parameter parsers return: the pixel dimensions of an H.264 parameter pair, and
  the dimensions and the extra data of an H.265 triple, or an error.
\<close>

record ParameterParsers =
  h264_parameters :: "byte list \<Rightarrow> byte list \<Rightarrow> (nat \<times> nat) option"
  h265_parameters :: "byte list \<Rightarrow> byte list \<Rightarrow> byte list \<Rightarrow> (nat \<times> nat \<times> byte list) option"

definition try_u16 :: "nat \<Rightarrow> nat option" where
  "try_u16 n = (if n < 2 ^ 16 then Some n else None)"

definition h264_pixel_dimensions :: "ParameterParsers \<Rightarrow> byte list \<Rightarrow> byte list \<Rightarrow> (nat \<times> nat) option" where
  "h264_pixel_dimensions P sps pps =
     (case h264_parameters P sps pps of
        None \<Rightarrow> None
      | Some (width, height) \<Rightarrow>
          (case (try_u16 width, try_u16 height) of (Some w, Some h) \<Rightarrow> Some (w, h) | _ \<Rightarrow> None))"

datatype MediaConfigError =
  H264Incomplete | H264Width | H264Height | H265Incomplete | H265ParameterLength | H265Invalid
| H265Width | H265Height | NoDecoderParameters

definition h265_media_config :: "ParameterParsers \<Rightarrow> VideoFrame \<Rightarrow> MediaConfigError + MediaConfig option" where
  "h265_media_config P video =
     (case extract_h265_params (v_data video) of
        (None, None, None) \<Rightarrow> Inr None
      | (Some vps, Some sps, Some pps) \<Rightarrow>
          if \<exists>parameter \<in> set [vps, sps, pps]. try_u16 (length parameter) = None then Inl H265ParameterLength
          else (case h265_parameters P vps sps pps of
                  None \<Rightarrow> Inl H265Invalid
                | Some (width, height, extra) \<Rightarrow>
                    (case try_u16 width of
                       None \<Rightarrow> Inl H265Width
                     | Some w \<Rightarrow> (case try_u16 height of
                                    None \<Rightarrow> Inl H265Height
                                  | Some h \<Rightarrow> Inr (Some (HevcConfig w h vps sps pps extra)))))
      | _ \<Rightarrow> Inl H265Incomplete)"

definition video_media_config :: "ParameterParsers \<Rightarrow> VideoFrame \<Rightarrow> MediaConfigError + MediaConfig option" where
  "video_media_config P video =
     (case v_codec video of
        H264 \<Rightarrow>
          (case extract_h264_sps_pps (v_data video) of
             (None, None) \<Rightarrow> Inr None
           | (Some sps, Some pps) \<Rightarrow>
               (case try_u16 (v_width video) of
                  None \<Rightarrow> Inl H264Width
                | Some fallback_width \<Rightarrow>
                    (case try_u16 (v_height video) of
                       None \<Rightarrow> Inl H264Height
                     | Some fallback_height \<Rightarrow>
                         let (width, height) = (case h264_pixel_dimensions P sps pps of
                                                  Some d \<Rightarrow> d | None \<Rightarrow> (fallback_width, fallback_height))
                         in Inr (Some (AvcConfig width height sps pps))))
           | _ \<Rightarrow> Inl H264Incomplete)
      | H265 \<Rightarrow> h265_media_config P video)"

definition required_video_media_config :: "ParameterParsers \<Rightarrow> VideoFrame \<Rightarrow> MediaConfigError + MediaConfig" where
  "required_video_media_config P video =
     (case video_media_config P video of
        Inl e \<Rightarrow> Inl e
      | Inr (Some config) \<Rightarrow> Inr config
      | Inr None \<Rightarrow> Inl NoDecoderParameters)"

section \<open>The framings carry the same units\<close>

definition avcc_frame :: "byte list list \<Rightarrow> byte list" where
  "avcc_frame ns = concat (map (\<lambda>n. to_be_bytes32 (length n) @ n) ns)"

definition annexb_frame :: "byte list list \<Rightarrow> byte list" where
  "annexb_frame ns = concat (map (\<lambda>n. [0, 0, 0, 1] @ n) ns)"

text \<open>A unit as encoders write it: no start code inside, and its last byte is not zero.\<close>

fun no_start_code :: "byte list \<Rightarrow> bool" where
  "no_start_code [] = True"
| "no_start_code (b # bs) \<longleftrightarrow> start_code_len (b # bs) = None \<and> no_start_code bs"

definition nalu_ok :: "byte list \<Rightarrow> bool" where
  "nalu_ok n \<longleftrightarrow> n \<noteq> [] \<and> last n \<noteq> 0 \<and> no_start_code n \<and> length n < 2 ^ 32"

lemma avcc_nalus_frame:
  "\<forall>n \<in> set ns. n \<noteq> [] \<and> length n < 2 ^ 32 \<Longrightarrow> avcc_nalus (avcc_frame ns) = ns"
proof (induction ns)
  case Nil
  then show ?case by (simp add: avcc_frame_def avcc_nalus.simps)
next
  case (Cons n ns)
  have f: "avcc_frame (n # ns) = to_be_bytes32 (length n) @ n @ avcc_frame ns" by (simp add: avcc_frame_def)
  have "from_be_bytes (take 4 (avcc_frame (n # ns))) = length n"
    using Cons.prems by (simp add: f from_to_be_bytes)
  with Cons show ?case
    by (subst avcc_nalus.simps) (simp add: f Let_def)
qed

text \<open>A start code cannot straddle the end of a unit whose last byte is not zero.\<close>

lemma start_code_append:
  assumes "n \<noteq> []" "last n \<noteq> 0" "no_start_code n"
  shows "start_code_len (n @ rest) = None"
proof -
  obtain b bs where n: "n = b # bs" using assms(1) by (cases n) auto
  then have "start_code_len n = None" using assms(3) by simp
  moreover have "length n \<le> 3 \<Longrightarrow> take 4 (n @ rest) \<noteq> [0, 0, 0, 1]"
    using assms(1,2) by (cases n rule: list.exhaust; cases "tl n"; cases "tl (tl n)"; cases "tl (tl (tl n))") auto
  moreover have "length n \<le> 2 \<Longrightarrow> take 3 (n @ rest) \<noteq> [0, 0, 1]"
    using assms(1,2) by (cases n rule: list.exhaust; cases "tl n"; cases "tl (tl n)") auto
  moreover have "3 < length n \<Longrightarrow> take 4 (n @ rest) = take 4 n" "2 < length n \<Longrightarrow> take 3 (n @ rest) = take 3 n"
    by simp_all
  ultimately show ?thesis
    unfolding start_code_len_def by (metis linorder_not_less option.distinct(1))
qed

lemma nalu_len_append:
  "last (0 # n) \<noteq> 0 \<or> n = [] \<Longrightarrow> no_start_code n \<Longrightarrow> start_code_len rest \<noteq> None \<or> rest = [] \<Longrightarrow>
     nalu_len (n @ rest) = length n"
proof (induction n)
  case Nil
  then show ?case by (cases rest) auto
next
  case (Cons b n)
  have "start_code_len ((b # n) @ rest) = None"
    using Cons.prems by (intro start_code_append) auto
  moreover have "nalu_len (n @ rest) = length n"
    using Cons.prems by (intro Cons.IH) (auto split: if_splits)
  ultimately show ?case by simp
qed

lemma annexb_to_avcc_frame:
  "\<forall>n \<in> set ns. nalu_ok n \<Longrightarrow> annexb_to_avcc (annexb_frame ns) = avcc_frame ns"
proof (induction ns)
  case Nil
  then show ?case by (simp add: annexb_frame_def avcc_frame_def annexb_to_avcc.simps start_code_len_def)
next
  case (Cons n ns)
  have f: "annexb_frame (n # ns) = [0, 0, 0, 1] @ n @ annexb_frame ns" by (simp add: annexb_frame_def)
  have sc: "start_code_len (annexb_frame (n # ns)) = Some 4" by (simp add: f start_code_len_def)
  have "start_code_len (annexb_frame ns) \<noteq> None \<or> annexb_frame ns = []"
    by (cases ns) (simp_all add: annexb_frame_def start_code_len_def)
  then have "nalu_len (n @ annexb_frame ns) = length n"
    using Cons.prems by (intro nalu_len_append) (auto simp: nalu_ok_def)
  with Cons sc show ?case
    by (subst annexb_to_avcc.simps) (simp add: f Let_def avcc_frame_def nalu_ok_def)
qed

text \<open>
  C18 (NAL framing round trip). For units as the encoders produce them (not empty, shorter than 4 GiB, no
  start code inside, last byte not zero): converting their length-prefixed frame to Annex B and back
  gives the same bytes, and so does converting their Annex B frame to length prefixes and back; in
  between there are exactly the same units in the other framing.
\<close>

theorem annexb_avcc_roundtrip:
  assumes "\<forall>n \<in> set ns. nalu_ok n"
  shows "avcc_to_annexb (avcc_frame ns) = annexb_frame ns \<and> annexb_to_avcc (annexb_frame ns) = avcc_frame ns
    \<and> annexb_to_avcc (avcc_to_annexb (avcc_frame ns)) = avcc_frame ns
    \<and> avcc_to_annexb (annexb_to_avcc (annexb_frame ns)) = annexb_frame ns"
proof -
  have "avcc_nalus (avcc_frame ns) = ns"
    using assms by (intro avcc_nalus_frame) (simp add: nalu_ok_def)
  then have "avcc_to_annexb (avcc_frame ns) = annexb_frame ns"
    by (simp add: avcc_to_annexb_def annexb_frame_def)
  with annexb_to_avcc_frame [OF assms] show ?thesis by simp
qed

theorem annexb_avcc_roundtrip_witness:
  "avcc_to_annexb (annexb_to_avcc [0, 0, 0, 1, 0x67, 1, 2, 0, 0, 0, 1, 0x68, 0, 0, 3])
    = [0, 0, 0, 1, 0x67, 1, 2, 0, 0, 0, 1, 0x68, 0, 0, 3]"
proof -
  have ok: "\<forall>n \<in> set [[0x67, 1, 2], [0x68, 0, 0, 3]]. nalu_ok n"
    by (simp add: nalu_ok_def start_code_len_def)
  have "annexb_frame [[0x67, 1, 2], [0x68, 0, 0, 3]] = [0, 0, 0, 1, 0x67, 1, 2, 0, 0, 0, 1, 0x68, 0, 0, 3]"
    by (simp add: annexb_frame_def)
  with annexb_avcc_roundtrip [OF ok] show ?thesis by simp
qed

end
