(* ===== verification/Event_Recording.thy ===== *)
theory Event_Recording
  imports Pre_Record_Gaps Nal
begin

text \<open>
  The selection of event history and live frames, \<open>src/src/storage/event_recording.rs\<close>: per camera
  a window of pending frames, fed by the pre-record registry and by live frames, and drained in turn
  by the recording writer.

  \<^item> The queue counters that producers and the recorder share (\<open>Arc<AtomicUsize>\<close>) are cells of
    the world, next to the heap of memory budgets; a \<open>QueueLease\<close> names its two cells.
  \<^item> \<open>Drop\<close> is explicit: \<open>drop_lease\<close>, \<open>drop_pending\<close>, \<open>drop_camera\<close>.
  \<^item> SHA-256 and the parameter parsers are arguments (\<open>Decoders\<close>).
  \<^item> A frame that leaves the recorder carries the reservation its payload keeps alive
    (\<open>ReservedPayload\<close>): \<open>OutFrame\<close> has it as an option.
\<close>

section \<open>The world\<close>

record World =
  w_heap :: Heap
  w_cells :: "nat \<Rightarrow> usize"

abbreviation on_heap :: "(Heap \<Rightarrow> Heap) \<Rightarrow> World \<Rightarrow> World" where
  "on_heap f w \<equiv> w\<lparr>w_heap := f (w_heap w)\<rparr>"

record Decoders =
  d_parsers :: ParameterParsers
  d_sha256 :: "byte list \<Rightarrow> byte list"

section \<open>Data\<close>

definition MAX_CAMERAS :: usize where
  "MAX_CAMERAS = 127"

record EventSettings =
  es_mode :: CameraRecordingMode
  es_stream :: EventRecordingStream
  es_pre :: duration
  es_post :: duration

datatype PreRecordReason =
  RDisabled | RStartup | RMissingKeyframe | RDurationEviction | RPerStreamPressure | RGlobalPressure
| RReady | RPendingReplay | RMalformedOrder | RDiscontinuity | RPrivacy | RStoragePause | RWriterFailure

record PreRecordStatus =
  st_enabled :: bool
  st_active :: bool
  st_selected_stream :: EventRecordingStream
  st_requested_ms :: u64
  st_available_ms :: u64
  st_retained_bytes :: u64
  st_reason :: PreRecordReason

record QueueLease =
  l_bytes :: usize
  l_bytes_counter :: nat
  l_frames_counter :: nat

definition drop_lease :: "QueueLease \<Rightarrow> World \<Rightarrow> World" where
  "drop_lease l w =
     (let cells = (w_cells w)(l_bytes_counter l := wrapping_sub_u64 (w_cells w (l_bytes_counter l)) (l_bytes l))
      in w\<lparr>w_cells := cells(l_frames_counter l := wrapping_sub_u64 (cells (l_frames_counter l)) 1)\<rparr>)"

record QueuedEventFrame =
  q_frame :: RecordingFrame
  q_lease :: QueueLease

text \<open>\<open>QueuedEventFrame::try_new\<close>: reserve a slot, then the bytes; give the slot back if they do not fit.\<close>

definition try_new :: "RecordingFrame \<Rightarrow> nat \<Rightarrow> nat \<Rightarrow> usize \<Rightarrow> usize \<Rightarrow> World \<Rightarrow> World \<times> (RecordingFrame + QueuedEventFrame)" where
  "try_new f bytes_counter frames_counter max_bytes max_frames w =
     (case checked_add_u64 (w_cells w frames_counter) 1 of
        None \<Rightarrow> (w, Inl f)
      | Some slots \<Rightarrow>
          if slots > max_frames then (w, Inl f)
          else
            let w1 = w\<lparr>w_cells := (w_cells w)(frames_counter := slots)\<rparr>;
                n = byte_len f;
                undo = w1\<lparr>w_cells := (w_cells w1)(frames_counter := wrapping_sub_u64 (w_cells w1 frames_counter) 1)\<rparr> in
            (case checked_add_u64 (w_cells w1 bytes_counter) n of
               None \<Rightarrow> (undo, Inl f)
             | Some used \<Rightarrow>
                 if used > max_bytes then (undo, Inl f)
                 else (w1\<lparr>w_cells := (w_cells w1)(bytes_counter := used)\<rparr>,
                       Inr \<lparr>q_frame = f, q_lease = \<lparr>l_bytes = n, l_bytes_counter = bytes_counter,
                                                   l_frames_counter = frames_counter\<rparr>\<rparr>)))"

datatype PendingFrame = History BufferedFrame | Live QueuedEventFrame | Finish instant

fun pending_frame :: "PendingFrame \<Rightarrow> RecordingFrame option" where
  "pending_frame (History f) = Some (bf_frame f)"
| "pending_frame (Live q) = Some (q_frame q)"
| "pending_frame (Finish _) = None"

fun drop_pending :: "PendingFrame \<Rightarrow> World \<Rightarrow> World" where
  "drop_pending (History f) w = on_heap (drop_frames [f]) w"
| "drop_pending (Live q) w = drop_lease (q_lease q) w"
| "drop_pending (Finish _) w = w"

definition drop_all_pending :: "PendingFrame list \<Rightarrow> World \<Rightarrow> World" where
  "drop_all_pending ps w = foldl (\<lambda>w p. drop_pending p w) w ps"

text \<open>
  \<open>into_frame\<close>: a history frame keeps its reservation in its payload, a live frame gives its lease
  back. The \<open>unreachable\<close> marker case returns no frame.
\<close>

fun into_frame :: "PendingFrame \<Rightarrow> World \<Rightarrow> World \<times> (RecordingFrame \<times> BufferedFrame option) option" where
  "into_frame (History f) w = (w, Some (bf_frame f, Some f))"
| "into_frame (Live q) w = (drop_lease (q_lease q) w, Some (q_frame q, None))"
| "into_frame (Finish _) w = (w, None)"

datatype EventOutput =
  OutFrame (out_identity: RecordingStreamIdentity) (out_frame: RecordingFrame) (out_payload: "BufferedFrame option")
| OutFinish (out_identity: RecordingStreamIdentity) (out_end: instant)

record CameraWindow =
  cw_settings :: EventSettings
  cw_identity :: "RecordingStreamIdentity option"
  cw_deadline :: "instant option"
  cw_pending :: "PendingFrame list"
  cw_main_active :: bool
  cw_waiting_keyframe :: bool
  cw_window_started :: bool
  cw_last_video :: "instant option"
  cw_first_video :: "instant option"
  cw_last_audio_end :: "instant option"
  cw_watermark :: "instant option"
  cw_last_input :: "instant option list"
  cw_decoder :: "byte list option list"
  cw_queued :: "nat option"
  cw_status :: PreRecordStatus

record EventRecordings =
  e_buffers :: PreRecordBuffers
  e_cameras :: "(string, CameraWindow) btree"
  e_ready :: "string list"

section \<open>Functions without state\<close>

definition selected_stream :: "EventSettings \<Rightarrow> string" where
  "selected_stream s = (if es_mode s = EventBoost \<or> es_stream s = StreamMain then ''main'' else ''sub'')"

definition milliseconds :: "duration \<Rightarrow> u64" where
  "milliseconds d = (if as_millis d \<le> u64_max then as_millis d else u64_max)"

definition frame_ends_before :: "RecordingFrame \<Rightarrow> instant \<Rightarrow> bool" where
  "frame_ends_before f boundary =
     (case media f of
        Audio a \<Rightarrow> is_some_and (audio_end f a) (\<lambda>e. e \<le> boundary)
      | Video v \<Rightarrow> received_at f < boundary)"

fun history_reason :: "HistoryReason \<Rightarrow> PreRecordReason" where
  "history_reason Ready = RReady"
| "history_reason ReplayPending = RPendingReplay"
| "history_reason Startup = RStartup"
| "history_reason MissingKeyframe = RMissingKeyframe"
| "history_reason DurationEviction = RDurationEviction"
| "history_reason StreamPressure = RPerStreamPressure"
| "history_reason GlobalPressure = RGlobalPressure"
| "history_reason InvalidOrder = RMalformedOrder"

text \<open>The bytes that \<open>hash_decoder_parameters\<close> feeds to SHA-256.\<close>

definition hash_input :: "nat \<Rightarrow> nat \<Rightarrow> nat \<Rightarrow> byte list list \<Rightarrow> byte list" where
  "hash_input codec width height parameters =
     [word_of_nat codec] @ to_be_bytes16 width @ to_be_bytes16 height
     @ concat (map (\<lambda>p. to_be_bytes64 (length p) @ p) parameters)"

definition hash_decoder_parameters :: "(byte list \<Rightarrow> byte list) \<Rightarrow> nat \<Rightarrow> nat \<Rightarrow> nat \<Rightarrow> byte list list \<Rightarrow> byte list" where
  "hash_decoder_parameters sha codec width height parameters = sha (hash_input codec width height parameters)"

fun decoder_fingerprint :: "(byte list \<Rightarrow> byte list) \<Rightarrow> MediaConfig \<Rightarrow> byte list" where
  "decoder_fingerprint sha (AvcConfig w h sps pps) = hash_decoder_parameters sha 1 w h [sps, pps]"
| "decoder_fingerprint sha (HevcConfig w h vps sps pps extra) = hash_decoder_parameters sha 2 w h [vps, sps, pps, extra]"

section \<open>One camera\<close>

definition CameraWindow_new :: "EventSettings \<Rightarrow> CameraWindow" where
  "CameraWindow_new s =
     \<lparr>cw_settings = s, cw_identity = None, cw_deadline = None, cw_pending = [], cw_main_active = False,
      cw_waiting_keyframe = True, cw_window_started = False, cw_last_video = None, cw_first_video = None,
      cw_last_audio_end = None, cw_watermark = None, cw_last_input = [None, None], cw_decoder = [None, None],
      cw_queued = None,
      cw_status = \<lparr>st_enabled = (es_pre s \<noteq> 0), st_active = False,
        st_selected_stream = (if selected_stream s = ''main'' then StreamMain else StreamSub),
        st_requested_ms = milliseconds (es_pre s), st_available_ms = 0, st_retained_bytes = 0,
        st_reason = (if es_pre s = 0 then RDisabled else RStartup)\<rparr>\<rparr>"

definition keeps_boundary :: "instant \<Rightarrow> PendingFrame \<Rightarrow> bool" where
  "keeps_boundary boundary p =
     (case pending_frame p of
        None \<Rightarrow> True
      | Some f \<Rightarrow> (case media f of
                     Audio a \<Rightarrow> is_some_and (audio_end f a) (\<lambda>e. e \<le> boundary)
                   | Video _ \<Rightarrow> True))"

definition trim_pending_audio :: "instant \<Rightarrow> CameraWindow \<Rightarrow> World \<Rightarrow> CameraWindow \<times> World" where
  "trim_pending_audio boundary c w =
     (c\<lparr>cw_pending := filter (keeps_boundary boundary) (cw_pending c),
        cw_last_audio_end := (if is_some_and (cw_last_audio_end c) (\<lambda>e. e \<le> boundary)
                              then cw_last_audio_end c else None)\<rparr>,
      drop_all_pending (filter (\<lambda>p. \<not> keeps_boundary boundary p) (cw_pending c)) w)"

definition close_pending_window :: "instant \<Rightarrow> CameraWindow \<Rightarrow> World \<Rightarrow> CameraWindow \<times> World" where
  "close_pending_window end c w =
     (let (c, w) = (case cw_last_video c of
                      Some video_end \<Rightarrow> trim_pending_audio video_end c w
                    | None \<Rightarrow> (c, w))
      in (c\<lparr>cw_pending := cw_pending c @ [Finish end], cw_window_started := False\<rparr>, w))"

text \<open>A frame that \<open>select\<close> refuses is dropped.\<close>

definition select :: "PendingFrame \<Rightarrow> CameraWindow \<Rightarrow> World \<Rightarrow> CameraWindow \<times> World" where
  "select p c w =
     (case pending_frame p of
        None \<Rightarrow> (c, drop_pending p w)
      | Some f \<Rightarrow>
          (case media f of
             Video _ \<Rightarrow>
               if cw_waiting_keyframe c \<and> \<not> is_video_keyframe f then (c, drop_pending p w)
               else if is_some_and (cw_last_video c) (\<lambda>last. received_at f \<le> last) then (c, drop_pending p w)
               else (c\<lparr>cw_waiting_keyframe := False, cw_window_started := True,
                       cw_first_video := (case cw_first_video c of None \<Rightarrow> Some (received_at f) | Some v \<Rightarrow> Some v),
                       cw_last_video := Some (received_at f),
                       cw_watermark := Some (case cw_watermark c of
                                               None \<Rightarrow> received_at f | Some mark \<Rightarrow> max mark (received_at f)),
                       cw_pending := cw_pending c @ [p]\<rparr>, w)
           | Audio a \<Rightarrow>
               (case audio_end f a of
                  None \<Rightarrow> (c, drop_pending p w)
                | Some end \<Rightarrow>
                    if a_duration a = 0
                       \<or> is_none_or (cw_first_video c) (\<lambda>start. received_at f < start)
                       \<or> is_some_and (cw_last_audio_end c) (\<lambda>last. received_at f < last)
                       \<or> (es_mode (cw_settings c) = EventOnly
                          \<and> is_some_and (cw_deadline c) (\<lambda>deadline. end > deadline))
                    then (c, drop_pending p w)
                    else (c\<lparr>cw_last_audio_end := Some end, cw_pending := cw_pending c @ [p]\<rparr>, w))))"

definition finish_if_due :: "RecordingStreamIdentity \<Rightarrow> instant \<Rightarrow> CameraWindow \<Rightarrow> World \<Rightarrow> CameraWindow \<times> EventOutput option" where
  "finish_if_due identity now c w =
     (case cw_deadline c of
        None \<Rightarrow> (c, None)
      | Some end \<Rightarrow>
          let index = (if selected_stream (cw_settings c) = ''sub'' then 1 else 0);
              caught_up = (is_none_or (cw_queued c) (\<lambda>queued. w_cells w queued = 0)
                           \<or> is_some_and (cw_last_input c ! index) (\<lambda>last. last \<ge> end));
              due = (es_mode (cw_settings c) = EventOnly \<and> now \<ge> end \<and> caught_up);
              c1 = (if due
                    then c\<lparr>cw_deadline := None, cw_status := (cw_status c)\<lparr>st_active := False\<rparr>,
                           cw_waiting_keyframe := True, cw_window_started := False\<rparr>
                    else c) in
          if due \<and> cw_window_started c then (c1, Some (OutFinish identity end))
          else if es_mode (cw_settings c1) = EventBoost \<and> \<not> cw_main_active c1 \<and> now \<ge> end \<and> caught_up
          then (c1\<lparr>cw_deadline := None, cw_status := (cw_status c1)\<lparr>st_active := False\<rparr>\<rparr>, None)
          else (c1, None))"

text \<open>The loop of \<open>CameraWindow::next_output\<close> over the pending frames.\<close>

function drain :: "RecordingStreamIdentity \<Rightarrow> instant \<Rightarrow> CameraWindow \<Rightarrow> World \<Rightarrow> CameraWindow \<times> World \<times> EventOutput option" where
  "drain identity now c w =
     (case cw_pending c of
        [] \<Rightarrow> (let (c', out) = finish_if_due identity now c w in (c', w, out))
      | p # rest \<Rightarrow>
          (case p of
             Finish end \<Rightarrow> (c\<lparr>cw_pending := rest\<rparr>, w, Some (OutFinish identity end))
           | _ \<Rightarrow>
               let emit = (case into_frame p w of
                             (w', Some (f, payload)) \<Rightarrow> (c\<lparr>cw_pending := rest\<rparr>, w', Some (OutFrame identity f payload))
                           | (w', None) \<Rightarrow> (c\<lparr>cw_pending := rest\<rparr>, w', None)) in
               case pending_frame p of
                 None \<Rightarrow> emit
               | Some f \<Rightarrow>
                   (case media f of
                      Video _ \<Rightarrow> emit
                    | Audio a \<Rightarrow>
                        (case audio_end f a of
                           None \<Rightarrow> (c, w, None)
                         | Some end \<Rightarrow>
                             if is_none_or (cw_last_video c) (\<lambda>video. end > video)
                             then if is_some_and (cw_deadline c) (\<lambda>deadline. now \<ge> deadline)
                                  then drain identity now (c\<lparr>cw_pending := rest\<rparr>) (drop_pending p w)
                                  else (c, w, None)
                             else emit))))"
  by pat_completeness auto
termination by (relation "measure (\<lambda>(identity, now, c, w). length (cw_pending c))") auto

declare drain.simps [simp del]

definition camera_next_output :: "instant \<Rightarrow> CameraWindow \<Rightarrow> World \<Rightarrow> CameraWindow \<times> World \<times> EventOutput option" where
  "camera_next_output now c w =
     (let c = (if cw_identity c = None \<and> is_some_and (cw_deadline c) (\<lambda>end. now \<ge> end)
               then c\<lparr>cw_deadline := None, cw_status := (cw_status c)\<lparr>st_active := False\<rparr>\<rparr> else c)
      in case cw_identity c of
           None \<Rightarrow> (c, w, None)
         | Some identity \<Rightarrow> drain identity now c w)"

section \<open>All cameras\<close>

definition camera_get :: "EventRecordings \<Rightarrow> string \<Rightarrow> CameraWindow option" where
  "camera_get e source = bt_get (e_cameras e) source"

definition camera_set :: "string \<Rightarrow> CameraWindow \<Rightarrow> EventRecordings \<Rightarrow> EventRecordings" where
  "camera_set source c e = e\<lparr>e_cameras := bt_update source c (e_cameras e)\<rparr>"

definition EventRecordings_new :: "usize \<Rightarrow> usize \<Rightarrow> Heap \<Rightarrow> EventRecordings \<times> Heap" where
  "EventRecordings_new stream_bytes global_bytes hp =
     (let (b, hp) = PreRecordBuffers_new stream_bytes global_bytes hp
      in (\<lparr>e_buffers = b, e_cameras = [], e_ready = []\<rparr>, hp))"

text \<open>\<open>for frame in frames { camera.select(PendingFrame::History(frame)) }\<close>\<close>

definition select_all :: "BufferedFrame list \<Rightarrow> CameraWindow \<Rightarrow> World \<Rightarrow> CameraWindow \<times> World" where
  "select_all fs c w = foldl (\<lambda>(c, w) f. select (History f) c w) (c, w) fs"

text \<open>
  The loop of \<open>release_continuous\<close> runs until no history has a released frame. Each turn takes one
  away, so the number of released frames is enough fuel (\<open>release_continuous_empties\<close>).
\<close>

definition released_count :: "PreRecordBuffers \<Rightarrow> nat" where
  "released_count b = sum_list (map (\<lambda>e. length (h_released (snd e))) (nested_entries (p_streams b)))"

primrec release_loop :: "nat \<Rightarrow> EventRecordings \<Rightarrow> World \<Rightarrow> EventRecordings \<times> World" where
  "release_loop 0 e w = (e, w)"
| "release_loop (Suc n) e w =
     (case next_released (e_buffers e) of
        (b, None) \<Rightarrow> (e\<lparr>e_buffers := b\<rparr>, w)
      | (b, Some (source, stream, f)) \<Rightarrow>
          let e = e\<lparr>e_buffers := b\<rparr>;
              (e, w) = (case camera_get e source of
                          Some c \<Rightarrow>
                            if \<not> cw_main_active c
                            then let (c, w) = select (History f) c w in (camera_set source c e, w)
                            else (e, on_heap (drop_frames [f]) w)
                        | None \<Rightarrow> (e, on_heap (drop_frames [f]) w))
          in release_loop n e w)"

definition release_continuous :: "EventRecordings \<Rightarrow> World \<Rightarrow> EventRecordings \<times> World" where
  "release_continuous e w = release_loop (released_count (e_buffers e)) e w"

definition invalidate_main_history :: "string \<Rightarrow> PreRecordReason \<Rightarrow> EventRecordings \<Rightarrow> World \<Rightarrow> EventRecordings \<times> World" where
  "invalidate_main_history source reason e w =
     (let (b, hp) = clear_stream source ''main'' (e_buffers e) (w_heap w);
          e = e\<lparr>e_buffers := b\<rparr>; w = w\<lparr>w_heap := hp\<rparr>
      in case camera_get e source of
           None \<Rightarrow> (e, w)
         | Some c \<Rightarrow>
             let c = c\<lparr>cw_decoder := (cw_decoder c)[0 := None], cw_last_input := (cw_last_input c)[0 := None],
                       cw_status := (cw_status c)\<lparr>st_available_ms := 0, st_reason := reason\<rparr>\<rparr>;
                 c = (if cw_main_active c then c\<lparr>cw_waiting_keyframe := True\<rparr> else c)
             in (camera_set source c e, w))"

definition drop_main_history :: "string \<Rightarrow> EventRecordings \<Rightarrow> World \<Rightarrow> EventRecordings \<times> World" where
  "drop_main_history source e w = invalidate_main_history source RGlobalPressure e w"

definition reset :: "string \<Rightarrow> EventRecordings \<Rightarrow> World \<Rightarrow> EventRecordings \<times> World" where
  "reset source e w =
     (let (b, hp) = clear_source source (e_buffers e) (w_heap w);
          e = e\<lparr>e_buffers := b\<rparr>; w = w\<lparr>w_heap := hp\<rparr>
      in case camera_get e source of
           None \<Rightarrow> (e, w)
         | Some c \<Rightarrow>
             let settings = cw_settings c;
                 w = drop_all_pending (cw_pending c) w;
                 c = CameraWindow_new settings;
                 c = c\<lparr>cw_status := (cw_status c)\<lparr>st_reason := RDiscontinuity\<rparr>\<rparr>;
                 e = camera_set source c e
             in (e\<lparr>e_buffers := set_continuous source ''sub'' (es_mode settings = EventBoost) (e_buffers e)\<rparr>, w))"

definition fail :: "string \<Rightarrow> PreRecordReason \<Rightarrow> EventRecordings \<Rightarrow> World \<Rightarrow> EventRecordings \<times> World" where
  "fail source reason e w =
     (let (e, w) = reset source e w
      in case camera_get e source of
           None \<Rightarrow> (e, w)
         | Some c \<Rightarrow> (camera_set source (c\<lparr>cw_status := (cw_status c)\<lparr>st_reason := reason\<rparr>\<rparr>) e, w))"

definition reject_input :: "RecordingStreamIdentity \<Rightarrow> PreRecordReason \<Rightarrow> EventRecordings \<Rightarrow> World \<Rightarrow> EventRecordings \<times> World" where
  "reject_input identity reason e w =
     (if stream_id identity = ''main''
         \<and> is_some_and (camera_get e (source_id identity)) (\<lambda>c. es_mode (cw_settings c) = EventBoost)
      then invalidate_main_history (source_id identity) reason e w
      else fail (source_id identity) reason e w)"

text \<open>The loop of \<open>begin_shutdown\<close> over the cameras, which also changes the buffers.\<close>

fun shutdown_cameras :: "instant \<Rightarrow> (string, CameraWindow) btree \<Rightarrow> PreRecordBuffers \<Rightarrow> World
    \<Rightarrow> (string, CameraWindow) btree \<times> PreRecordBuffers \<times> World" where
  "shutdown_cameras now [] b w = ([], b, w)"
| "shutdown_cameras now ((source, c) # cs) b w =
     (let (c, b, w) =
        (if es_mode (cw_settings c) = EventBoost \<and> \<not> cw_main_active c
         then let (b, hp, fs) = buffers_take source ''sub'' now b (w_heap w);
                  (c, w) = select_all fs c (w\<lparr>w_heap := hp\<rparr>)
              in (c, b, w)
         else (c, b, w));
          c = (case cw_deadline c of
                 Some deadline \<Rightarrow> c\<lparr>cw_deadline := Some (min deadline now)\<rparr>
               | None \<Rightarrow> c);
          c = (if es_mode (cw_settings c) = EventBoost then c\<lparr>cw_deadline := Some now\<rparr> else c);
          (cs, b, w) = shutdown_cameras now cs b w
      in ((source, c) # cs, b, w))"

definition begin_shutdown :: "instant \<Rightarrow> EventRecordings \<Rightarrow> World \<Rightarrow> EventRecordings \<times> World" where
  "begin_shutdown now e w =
     (let (e, w) = release_continuous e w;
          (cs, b, w) = shutdown_cameras now (e_cameras e) (e_buffers e) w
      in (e\<lparr>e_cameras := cs, e_buffers := b\<rparr>, w))"

definition event_mode :: "EventSettings \<Rightarrow> bool" where
  "event_mode s \<longleftrightarrow> es_mode s = EventOnly \<or> es_mode s = EventBoost"

text \<open>Dropping a camera that leaves the map or is replaced.\<close>

definition drop_camera :: "string \<Rightarrow> EventRecordings \<Rightarrow> World \<Rightarrow> World" where
  "drop_camera source e w =
     (case camera_get e source of None \<Rightarrow> w | Some c \<Rightarrow> drop_all_pending (cw_pending c) w)"

definition configure_camera :: "string \<Rightarrow> EventSettings \<Rightarrow> EventRecordings \<Rightarrow> World \<Rightarrow> EventRecordings \<times> World \<times> bool" where
  "configure_camera source s e w =
     (if \<not> event_mode s \<or> (es_mode s = EventBoost \<and> es_pre s = 0)
      then let w = drop_camera source e w;
               (b, hp) = remove_source source (e_buffers e) (w_heap w)
           in (e\<lparr>e_cameras := bt_remove source (e_cameras e),
                 e_ready := filter (\<lambda>camera. camera \<noteq> source) (e_ready e), e_buffers := b\<rparr>,
               w\<lparr>w_heap := hp\<rparr>, True)
      else if source = [] \<or> length source > 256 \<or> es_pre s > from_secs 30 \<or> es_post s = 0 \<or> es_post s > from_secs 3600
      then (e, w, False)
      else if camera_get e source = None \<and> length (e_cameras e) \<ge> MAX_CAMERAS then (e, w, False)
      else
        let (b, hp) = clear_source source (e_buffers e) (w_heap w);
            stream = selected_stream s;
            (b, hp, ok) =
              (if es_pre s = 0 then (b, hp, True)
               else let (b, hp, ok) = configure source stream (es_pre s) b hp in
                    if \<not> ok then (b, hp, False)
                    else if es_mode s = EventBoost
                    then let (b, hp, ok) = configure source ''sub'' (es_pre s) b hp
                         in if \<not> ok then (b, hp, False) else (set_continuous source ''sub'' True b, hp, True)
                    else (b, hp, True));
            e = e\<lparr>e_buffers := b\<rparr>; w = w\<lparr>w_heap := hp\<rparr> in
        if \<not> ok then (e, w, False)
        else
          let ready = (if camera_get e source = None then e_ready e @ [source] else e_ready e);
              w = drop_camera source e w
          in (e\<lparr>e_ready := ready, e_cameras := bt_insert source (CameraWindow_new s) (e_cameras e)\<rparr>, w, True))"

text \<open>The index of the first frame a replay may start with.\<close>

definition replay_start :: "CameraWindow \<Rightarrow> BufferedFrame \<Rightarrow> bool" where
  "replay_start c f \<longleftrightarrow> is_video_keyframe (bf_frame f)
     \<and> is_none_or (cw_watermark c) (\<lambda>watermark. received_at (bf_frame f) > watermark)"

definition select_before :: "instant \<Rightarrow> BufferedFrame list \<Rightarrow> CameraWindow \<Rightarrow> World \<Rightarrow> CameraWindow \<times> World" where
  "select_before start fs c w =
     foldl (\<lambda>(c, w) f. if frame_ends_before (bf_frame f) start then select (History f) c w
                       else (c, on_heap (drop_frames [f]) w)) (c, w) fs"

text \<open>
  In boost mode the replay takes over from the substream: its frames that end before the replay starts
  are selected, the rest is dropped.
\<close>

definition boost_history :: "string \<Rightarrow> instant \<Rightarrow> instant \<Rightarrow> CameraWindow \<Rightarrow> PreRecordBuffers \<Rightarrow> World
    \<Rightarrow> CameraWindow \<times> PreRecordBuffers \<times> World" where
  "boost_history source start now c b w =
     (if es_mode (cw_settings c) = EventBoost
      then let (c, w) = trim_pending_audio start c w;
               b = set_continuous source ''sub'' False b;
               (b, hp, fs) = buffers_take source ''sub'' now b (w_heap w);
               (c, w) = select_before start fs c (w\<lparr>w_heap := hp\<rparr>)
           in (c\<lparr>cw_main_active := True\<rparr>, b, w)
      else (c, b, w))"

definition replay_status :: "BufferedFrame list \<Rightarrow> instant \<Rightarrow> HistorySnapshot option \<Rightarrow> PreRecordStatus \<Rightarrow> PreRecordStatus" where
  "replay_status replay start snap st =
     (let covered_end = (case find (\<lambda>f. is_video (bf_frame f)) (rev replay) of
                           None \<Rightarrow> start | Some f \<Rightarrow> received_at (bf_frame f))
      in st\<lparr>st_available_ms := milliseconds (saturating_duration_since covered_end start),
            st_reason := (case snap of None \<Rightarrow> RStartup | Some sn \<Rightarrow> history_reason (snap_reason sn))\<rparr>)"

definition select_history :: "string \<Rightarrow> instant \<Rightarrow> EventRecordings \<Rightarrow> World \<Rightarrow> EventRecordings \<times> World" where
  "select_history source now e w =
     (case camera_get e source of
        None \<Rightarrow> (e, w)
      | Some c \<Rightarrow>
          let stream = selected_stream (cw_settings c);
              (b, hp, snap) = snapshot source stream now (e_buffers e) (w_heap w);
              (b, hp, taken) = buffers_take source stream now b hp;
              skipped = takeWhile (\<lambda>f. \<not> replay_start c f) taken;
              replay = dropWhile (\<lambda>f. \<not> replay_start c f) taken;
              w = w\<lparr>w_heap := drop_frames skipped hp\<rparr>
          in if replay = [] then (e\<lparr>e_buffers := b\<rparr>, w)
             else
               let start = received_at (bf_frame (hd replay));
                   (c, b, w) = boost_history source start now c b w;
                   c = c\<lparr>cw_waiting_keyframe := False, cw_status := replay_status replay start snap (cw_status c)\<rparr>;
                   (c, w) = select_all replay c w
               in (camera_set source c (e\<lparr>e_buffers := b\<rparr>), w))"

text \<open>The part of \<open>note_event\<close> on the camera: close a window that has ended, extend the deadline.\<close>

definition open_event :: "instant \<Rightarrow> CameraWindow \<Rightarrow> World \<Rightarrow> CameraWindow \<times> World" where
  "open_event now c w =
     (let overlaps = is_some_and (cw_deadline c) (\<lambda>deadline. now < deadline);
          (c, w) =
            (if \<not> overlaps \<and> es_mode (cw_settings c) = EventOnly
             then let (c, w) = (case cw_deadline c of
                                  Some end \<Rightarrow>
                                    if cw_window_started c
                                    then close_pending_window end (c\<lparr>cw_deadline := None\<rparr>) w
                                    else (c\<lparr>cw_deadline := None\<rparr>, w)
                                | None \<Rightarrow> (c, w))
                  in (c\<lparr>cw_waiting_keyframe := True, cw_first_video := None, cw_last_audio_end := None\<rparr>, w)
             else (c, w))
      in (c\<lparr>cw_deadline := checked_add_instant now (es_post (cw_settings c)),
            cw_status := (cw_status c)\<lparr>st_active := True\<rparr>\<rparr>, w))"

definition note_event :: "string \<Rightarrow> instant \<Rightarrow> EventRecordings \<Rightarrow> World \<Rightarrow> EventRecordings \<times> World" where
  "note_event source now e w =
     (let (e, w) = release_continuous e w
      in case camera_get e source of
           None \<Rightarrow> (e, w)
         | Some c \<Rightarrow>
             let overlaps = is_some_and (cw_deadline c) (\<lambda>deadline. now < deadline);
                 (c, w) = open_event now c w;
                 e = camera_set source c e
             in if overlaps \<or> cw_main_active c then (e, w) else select_history source now e w)"

definition buffer_input :: "RecordingStreamIdentity \<Rightarrow> QueuedEventFrame \<Rightarrow> instant \<Rightarrow> bool \<Rightarrow> EventRecordings \<Rightarrow> World
    \<Rightarrow> EventRecordings \<times> World" where
  "buffer_input identity input now only e w =
     (let source = source_id identity;
          at = received_at (q_frame input);
          (b, hp, rejected) = push_owned source (stream_id identity) (q_frame input) now (e_buffers e) (w_heap w);
          (e, w) = release_continuous (e\<lparr>e_buffers := b\<rparr>) (w\<lparr>w_heap := hp\<rparr>)
      in case camera_get e source of
           None \<Rightarrow> (e, drop_lease (q_lease input) w)
         | Some c \<Rightarrow>
             let live = (rejected \<noteq> None \<and> \<not> only \<and> stream_id identity = ''sub'');
                 (c, w) = (if live then select (Live input) c w else (c, w));
                 e = camera_set source c e;
                 (e, w) = (if \<not> only \<and> \<not> cw_main_active c \<and> stream_id identity = ''main''
                              \<and> is_some_and (cw_deadline c) (\<lambda>deadline. at < deadline)
                           then select_history source now e w else (e, w))
             in (e, if live then w else drop_lease (q_lease input) w))"

text \<open>A keyframe with a decoder configuration: a changed configuration starts the history afresh.\<close>

definition accept_config :: "RecordingStreamIdentity \<Rightarrow> nat \<Rightarrow> byte list \<Rightarrow> CameraWindow \<Rightarrow> PreRecordBuffers \<Rightarrow> Heap
    \<Rightarrow> CameraWindow \<times> PreRecordBuffers \<times> Heap" where
  "accept_config identity index fingerprint c b hp =
     (let changed = is_some_and (cw_decoder c ! index) (\<lambda>previous. previous \<noteq> fingerprint);
          (b, hp) = (if changed then clear_stream (source_id identity) (stream_id identity) b hp else (b, hp));
          st = (if changed then (cw_status c)\<lparr>st_reason := RDiscontinuity\<rparr> else cw_status c);
          st = (if es_pre (cw_settings c) \<noteq> 0
                   \<and> st_reason st \<notin> {RReady, RPendingReplay, RDurationEviction, RPerStreamPressure, RGlobalPressure}
                then st\<lparr>st_reason := RStartup\<rparr> else st)
      in (c\<lparr>cw_decoder := (cw_decoder c)[index := Some fingerprint], cw_status := st\<rparr>, b, hp))"

definition validate :: "Decoders \<Rightarrow> RecordingStreamIdentity \<Rightarrow> RecordingFrame \<Rightarrow> instant \<Rightarrow> EventRecordings \<Rightarrow> World
    \<Rightarrow> EventRecordings \<times> World \<times> bool" where
  "validate D identity f now e w =
     (case camera_get e (source_id identity) of
        None \<Rightarrow> (e, w, False)
      | Some c \<Rightarrow>
          if \<not> (stream_id identity = ''main'' \<or> stream_id identity = ''sub'') then (e, w, False)
          else
            let index = (if stream_id identity = ''main'' then 0 else 1) in
            if received_at f > now \<or> is_some_and (cw_last_input c ! index) (\<lambda>last. received_at f < last)
            then let (e, w) = reject_input identity RMalformedOrder e w in (e, w, False)
            else
              let c = c\<lparr>cw_last_input := (cw_last_input c)[index := Some (received_at f)]\<rparr>;
                  e = camera_set (source_id identity) c e in
              (case media f of
                 Audio _ \<Rightarrow> (e, w, cw_decoder c ! index \<noteq> None)
               | Video video \<Rightarrow>
                   if v_is_keyframe video
                   then (case required_video_media_config (d_parsers D) video of
                           Inl _ \<Rightarrow> let (e, w) = reject_input identity RMissingKeyframe e w in (e, w, False)
                         | Inr config \<Rightarrow>
                             let (c, b, hp) = accept_config identity index (decoder_fingerprint (d_sha256 D) config)
                                                c (e_buffers e) (w_heap w)
                             in (camera_set (source_id identity) c (e\<lparr>e_buffers := b\<rparr>), w\<lparr>w_heap := hp\<rparr>, True))
                   else if cw_decoder c ! index = None
                   then let c = (if stream_id identity = selected_stream (cw_settings c)
                                 then c\<lparr>cw_status := (cw_status c)\<lparr>st_reason := RMissingKeyframe\<rparr>\<rparr> else c)
                        in (camera_set (source_id identity) c e, w, False)
                   else (e, w, True)))"

text \<open>
  The substream takes over again from the main stream: at a keyframe after the event's end that no
  selected frame has passed.
\<close>

definition switches_to_sub :: "RecordingStreamIdentity \<Rightarrow> RecordingFrame \<Rightarrow> CameraWindow \<Rightarrow> bool" where
  "switches_to_sub identity f c \<longleftrightarrow>
     stream_id identity = ''sub'' \<and> is_video_keyframe f
     \<and> is_none_or (cw_deadline c) (\<lambda>deadline. received_at f \<ge> deadline)
     \<and> is_none_or (cw_watermark c) (\<lambda>watermark. received_at f > watermark)"

definition switch_to_sub :: "instant \<Rightarrow> CameraWindow \<Rightarrow> World \<Rightarrow> CameraWindow \<times> World" where
  "switch_to_sub at c w =
     (let (c, w) = trim_pending_audio at c w
      in (c\<lparr>cw_main_active := False, cw_deadline := None, cw_status := (cw_status c)\<lparr>st_active := False\<rparr>\<rparr>, w))"

definition ingest :: "Decoders \<Rightarrow> RecordingStreamIdentity \<Rightarrow> QueuedEventFrame \<Rightarrow> instant \<Rightarrow> EventRecordings \<Rightarrow> World
    \<Rightarrow> EventRecordings \<times> World" where
  "ingest D identity input now e w =
     (let source = source_id identity in
      if is_some_and (camera_get e source) (\<lambda>c. es_mode (cw_settings c) = EventOnly
           \<and> stream_id identity \<noteq> selected_stream (cw_settings c))
      then (e, drop_lease (q_lease input) w)
      else
        let (e, w, valid) = validate D identity (q_frame input) now e w in
        if \<not> valid then (e, drop_lease (q_lease input) w)
        else case camera_get e source of
          None \<Rightarrow> (e, drop_lease (q_lease input) w)
        | Some c \<Rightarrow>
            let c = c\<lparr>cw_queued := Some (l_frames_counter (q_lease input)),
                      cw_identity := Some (if es_mode (cw_settings c) = EventBoost
                                           then with_recording_stream identity ''sub'' else identity)\<rparr>;
                only = (es_mode (cw_settings c) = EventOnly);
                at = received_at (q_frame input) in
            if only \<and> is_some_and (cw_deadline c) (\<lambda>deadline. at < deadline)
               \<or> \<not> only \<and> cw_main_active c \<and> \<not> switches_to_sub identity (q_frame input) c \<and> stream_id identity = ''main''
            then let (c, w) = select (Live input) c w in (camera_set source c e, w)
            else if \<not> only \<and> cw_main_active c \<and> \<not> switches_to_sub identity (q_frame input) c
            then (camera_set source c e, drop_lease (q_lease input) w)
            else
              let switching = (\<not> only \<and> cw_main_active c);
                  (c, w) = (if switching then switch_to_sub at c w else (c, w));
                  b = (if switching then set_continuous source ''sub'' True (e_buffers e) else e_buffers e);
                  e = camera_set source c (e\<lparr>e_buffers := b\<rparr>) in
              if es_pre (cw_settings c) = 0 then (e, drop_lease (q_lease input) w)
              else buffer_input identity input now only e w)"

text \<open>The \<open>for\<close> loop of \<open>next_output\<close>: one turn of the round robin per camera.\<close>

primrec turn :: "nat \<Rightarrow> instant \<Rightarrow> EventRecordings \<Rightarrow> World \<Rightarrow> EventRecordings \<times> World \<times> EventOutput option" where
  "turn 0 now e w = (e, w, None)"
| "turn (Suc n) now e w =
     (case e_ready e of
        [] \<Rightarrow> (e, w, None)
      | source # ready \<Rightarrow>
          let (e, w, out) = (case camera_get e source of
                               None \<Rightarrow> (e, w, None)
                             | Some c \<Rightarrow> let (c, w, out) = camera_next_output now c w in (camera_set source c e, w, out));
              e = e\<lparr>e_ready := ready @ [source]\<rparr>
          in if out \<noteq> None then (e, w, out) else turn n now e w)"

definition next_output :: "instant \<Rightarrow> EventRecordings \<Rightarrow> World \<Rightarrow> EventRecordings \<times> World \<times> EventOutput option" where
  "next_output now e w =
     (let (b, hp) = expire now (e_buffers e) (w_heap w);
          (e, w) = release_continuous (e\<lparr>e_buffers := b\<rparr>) (w\<lparr>w_heap := hp\<rparr>)
      in turn (length (e_ready e)) now e w)"

definition status :: "string \<Rightarrow> instant \<Rightarrow> EventRecordings \<Rightarrow> World \<Rightarrow> EventRecordings \<times> World \<times> PreRecordStatus option" where
  "status source now e w =
     (case camera_get e source of
        None \<Rightarrow> (e, w, None)
      | Some c \<Rightarrow>
          let st = cw_status c;
              (b, hp, snap) = snapshot source (selected_stream (cw_settings c)) now (e_buffers e) (w_heap w);
              e = e\<lparr>e_buffers := b\<rparr>; w = w\<lparr>w_heap := hp\<rparr>
          in case snap of
               None \<Rightarrow> (e, w, Some st)
             | Some sn \<Rightarrow>
                 let st = st\<lparr>st_retained_bytes := retained_bytes sn + pending_bytes sn\<rparr>;
                     st = (if \<not> st_active st
                              \<and> (snap_reason sn \<noteq> Startup \<or> st_reason st = RStartup)
                              \<and> st_reason st \<in> {RStartup, RReady, RPendingReplay, RDurationEviction, RPerStreamPressure, RGlobalPressure}
                           then st\<lparr>st_available_ms := milliseconds (available sn), st_reason := history_reason (snap_reason sn)\<rparr>
                           else st);
                     st = (if pending_bytes sn > 0 then st\<lparr>st_reason := RPendingReplay\<rparr> else st)
                 in (e, w, Some st))"

end
