(* ===== verification/Event_Window.thy ===== *)
theory Event_Window
  imports Event_Recording
begin

text \<open>
  One camera window on its own: what \<open>select\<close>, \<open>trim_pending_audio\<close>, \<open>close_pending_window\<close> and
  \<open>next_output\<close> keep true of the pending frames, and what the writer therefore receives.
\<close>

section \<open>The shape of the pending queue\<close>

lemma audio_or_video: "is_audio f \<longleftrightarrow> \<not> is_video f"
  by (cases "media f") simp_all

definition pending_video :: "PendingFrame \<Rightarrow> bool" where
  "pending_video p = is_some_and (pending_frame p) is_video"

definition pending_time :: "PendingFrame \<Rightarrow> instant" where
  "pending_time p = (case pending_frame p of None \<Rightarrow> 0 | Some f \<Rightarrow> received_at f)"

definition video_times :: "PendingFrame list \<Rightarrow> instant list" where
  "video_times ps = map pending_time (filter pending_video ps)"

lemma video_times_simps [simp]:
  "video_times [] = []"
  "video_times (p # ps) = (if pending_video p then pending_time p # video_times ps else video_times ps)"
  "video_times (ps @ qs) = video_times ps @ video_times qs"
  by (simp_all add: video_times_def)

text \<open>
  Whether a recording is open after the entries: a video frame that is not a keyframe needs an open
  one, a finish marker closes it. \<open>None\<close> means that a window would start without a keyframe.
\<close>

fun track :: "bool \<Rightarrow> PendingFrame list \<Rightarrow> bool option" where
  "track open [] = Some open"
| "track open (p # ps) =
     (case pending_frame p of
        None \<Rightarrow> track False ps
      | Some f \<Rightarrow>
          if is_audio f then track open ps
          else if is_video_keyframe f \<or> open then track True ps else None)"

lemma track_append: "track open (ps @ qs) = (case track open ps of None \<Rightarrow> None | Some o' \<Rightarrow> track o' qs)"
  by (induction ps arbitrary: "open") (auto split: option.splits)

text \<open>
  The invariant, relative to what the writer has received: \<open>open\<close>, whether the recording it writes
  is open, and \<open>floor\<close>, the time of the last video frame it got.
\<close>

definition window_ok :: "bool \<Rightarrow> instant option \<Rightarrow> CameraWindow \<Rightarrow> bool" where
  "window_ok open floor c \<longleftrightarrow>
     sorted_wrt (<) (video_times (cw_pending c))
     \<and> (\<forall>t \<in> set (video_times (cw_pending c)). is_some_and (cw_last_video c) (\<lambda>l. t \<le> l) \<and> is_none_or floor (\<lambda>m. m < t))
     \<and> is_none_or floor (\<lambda>m. is_some_and (cw_last_video c) (\<lambda>l. m \<le> l))
     \<and> is_none_or (cw_last_video c) (\<lambda>l. is_some_and (cw_watermark c) (\<lambda>m. l \<le> m))
     \<and> track open (cw_pending c) = Some (cw_window_started c)
     \<and> (\<not> cw_window_started c \<longrightarrow> cw_waiting_keyframe c)"

lemma window_ok_new: "window_ok False None (CameraWindow_new s)"
  by (simp add: window_ok_def CameraWindow_new_def)

text \<open>Fields that the invariant does not read.\<close>

lemma window_ok_fields [simp]:
  "window_ok o' m (c\<lparr>cw_deadline := d\<rparr>) = window_ok o' m c"
  "window_ok o' m (c\<lparr>cw_status := s\<rparr>) = window_ok o' m c"
  "window_ok o' m (c\<lparr>cw_identity := i\<rparr>) = window_ok o' m c"
  "window_ok o' m (c\<lparr>cw_queued := q\<rparr>) = window_ok o' m c"
  "window_ok o' m (c\<lparr>cw_main_active := a\<rparr>) = window_ok o' m c"
  "window_ok o' m (c\<lparr>cw_first_video := v\<rparr>) = window_ok o' m c"
  "window_ok o' m (c\<lparr>cw_last_audio_end := v\<rparr>) = window_ok o' m c"
  "window_ok o' m (c\<lparr>cw_last_input := l\<rparr>) = window_ok o' m c"
  "window_ok o' m (c\<lparr>cw_decoder := x\<rparr>) = window_ok o' m c"
  by (simp_all add: window_ok_def)

lemma window_ok_wait: "window_ok o' m c \<Longrightarrow> window_ok o' m (c\<lparr>cw_waiting_keyframe := True\<rparr>)"
  by (simp add: window_ok_def)

lemma select_ok:
  assumes "window_ok open floor c"
  shows "window_ok open floor (fst (select p c w))"
proof (cases "pending_frame p")
  case None
  with assms show ?thesis by (simp add: select_def)
next
  case (Some f)
  have pt: "pending_time p = received_at f" "pending_video p = is_video f"
    by (simp_all add: pending_time_def pending_video_def Some)
  show ?thesis
  proof (cases "media f")
    case (Audio a)
    with assms Some pt show ?thesis
      by (auto simp: select_def window_ok_def track_append split: option.splits)
  next
    case (Video v)
    show ?thesis
    proof (cases "cw_waiting_keyframe c \<and> \<not> is_video_keyframe f
        \<or> is_some_and (cw_last_video c) (\<lambda>last. received_at f \<le> last)")
      case True
      with assms Some Video show ?thesis by (auto simp: select_def)
    next
      case False
      then have new: "\<And>l. cw_last_video c = Some l \<Longrightarrow> l < received_at f" by (auto simp: is_some_and_iff)
      have sorted: "sorted_wrt (<) (video_times (cw_pending c) @ [received_at f])"
        using assms new by (fastforce simp: window_ok_def sorted_wrt_append is_some_and_iff)
      have "track open (cw_pending c @ [p]) = Some True"
        using assms False Some Video by (auto simp: window_ok_def track_append)
      moreover have "is_none_or floor (\<lambda>m. m < received_at f)"
        using assms new by (cases "floor"; cases "cw_last_video c") (auto simp: window_ok_def)
      moreover have "\<forall>t \<in> set (video_times (cw_pending c)). t \<le> received_at f"
        using assms new by (fastforce simp: window_ok_def is_some_and_iff)
      moreover have "is_none_or floor (\<lambda>m. m \<le> received_at f)"
        using calculation(2) by (cases "floor") auto
      moreover have "fst (select p c w) = c\<lparr>cw_waiting_keyframe := False, cw_window_started := True,
          cw_first_video := (case cw_first_video c of None \<Rightarrow> Some (received_at f) | Some v \<Rightarrow> Some v),
          cw_last_video := Some (received_at f),
          cw_watermark := Some (case cw_watermark c of None \<Rightarrow> received_at f | Some mark \<Rightarrow> max mark (received_at f)),
          cw_pending := cw_pending c @ [p]\<rparr>"
        using False Some Video by (auto simp: select_def)
      moreover have "received_at f \<le> (case cw_watermark c of None \<Rightarrow> received_at f | Some mark \<Rightarrow> max mark (received_at f))"
        by (simp split: option.split)
      moreover have "\<forall>t \<in> set (video_times (cw_pending c)). is_none_or floor (\<lambda>m. m < t)"
        using assms by (simp add: window_ok_def)
      ultimately show ?thesis
        using sorted pt Video by (simp add: window_ok_def)
    qed
  qed
qed

lemma track_filter:
  assumes "\<And>p. p \<in> set ps \<Longrightarrow> \<not> P p \<Longrightarrow> is_some_and (pending_frame p) is_audio"
  shows "track open (filter P ps) = track open ps"
  using assms
proof (induction ps arbitrary: "open")
  case (Cons p ps)
  show ?case
  proof (cases "P p")
    case False
    then obtain f where "pending_frame p = Some f" "is_audio f"
      using Cons.prems [of p] by (auto simp: is_some_and_iff)
    with False Cons show ?thesis by simp
  qed (use Cons in \<open>auto split: option.splits\<close>)
qed simp

lemma video_times_filter:
  assumes "\<And>p. p \<in> set ps \<Longrightarrow> \<not> P p \<Longrightarrow> is_some_and (pending_frame p) is_audio"
  shows "video_times (filter P ps) = video_times ps"
  using assms
proof (induction ps)
  case (Cons p ps)
  have "pending_video p \<Longrightarrow> P p"
    using Cons.prems [of p] by (cases "P p") (auto simp: pending_video_def is_some_and_iff audio_or_video)
  with Cons show ?case by auto
qed simp

lemma keeps_boundary_audio: "\<not> keeps_boundary b p \<Longrightarrow> is_some_and (pending_frame p) is_audio"
  by (auto simp: keeps_boundary_def is_some_and_iff split: option.splits MediaFrame.splits)

lemma trim_pending_audio_ok:
  assumes "window_ok open floor c"
  shows "window_ok open floor (fst (trim_pending_audio b c w))"
  using assms track_filter [OF keeps_boundary_audio] video_times_filter [OF keeps_boundary_audio]
  by (simp add: window_ok_def trim_pending_audio_def)

text \<open>Closing the window; the caller then waits for a keyframe (\<open>note_event\<close>).\<close>

lemma close_pending_window_ok:
  assumes "window_ok open floor c"
  shows "window_ok open floor ((fst (close_pending_window end c w))\<lparr>cw_waiting_keyframe := True\<rparr>)"
proof -
  obtain c1 w1 where c1: "(case cw_last_video c of Some v \<Rightarrow> trim_pending_audio v c w | None \<Rightarrow> (c, w)) = (c1, w1)"
    by (cases "case cw_last_video c of Some v \<Rightarrow> trim_pending_audio v c w | None \<Rightarrow> (c, w)")
  have "window_ok open floor c1"
    using c1 assms trim_pending_audio_ok [OF assms] by (cases "cw_last_video c") (auto simp: prod_eq_iff)
  then show ?thesis
    using c1 by (auto simp: close_pending_window_def window_ok_def track_append pending_video_def)
qed

section \<open>What the writer receives\<close>

definition out_video :: "EventOutput \<Rightarrow> bool" where
  "out_video x = (case x of OutFrame _ f _ \<Rightarrow> is_video f | OutFinish _ _ \<Rightarrow> False)"

text \<open>The invariant after an output, and what the output itself satisfies.\<close>

fun out_ok :: "bool \<Rightarrow> instant option \<Rightarrow> EventOutput option \<Rightarrow> CameraWindow \<Rightarrow> bool" where
  "out_ok open floor None c \<longleftrightarrow> window_ok open floor c"
| "out_ok open floor (Some (OutFinish _ _)) c \<longleftrightarrow> window_ok False floor c"
| "out_ok open floor (Some (OutFrame _ f _)) c \<longleftrightarrow>
     (if is_video f
      then (is_video_keyframe f \<or> open) \<and> is_none_or floor (\<lambda>m. m < received_at f) \<and> window_ok True (Some (received_at f)) c
      else window_ok open floor c)"

lemma finish_if_due_ok:
  assumes "window_ok open floor c" "cw_pending c = []" "finish_if_due i now c w = (c', out)"
  shows "out_ok open floor out c'"
  using assms by (auto simp: finish_if_due_def window_ok_def Let_def split: option.splits if_splits)

lemma pop_frame_ok:
  assumes ok: "window_ok open floor c" and p: "cw_pending c = p # rest" "pending_frame p = Some f"
  shows "out_ok open floor (Some (OutFrame i f x)) (c\<lparr>cw_pending := rest\<rparr>)"
proof (cases "is_video f")
  case True
  have t: "pending_video p" "pending_time p = received_at f" using p(2) True by (simp_all add: pending_video_def pending_time_def)
  have "track open (p # rest) = Some (cw_window_started c)" using ok p(1) by (simp add: window_ok_def)
  then have "(is_video_keyframe f \<or> open) \<and> track True rest = Some (cw_window_started c)"
    using p(2) True by (auto simp: audio_or_video split: if_splits)
  with ok p(1) t True show ?thesis by (auto simp: window_ok_def)
next
  case False
  then have "\<not> pending_video p" using p(2) by (simp add: pending_video_def)
  with ok p False show ?thesis by (auto simp: window_ok_def audio_or_video)
qed

text \<open>One turn of the loop at a frame.\<close>

lemma drain_frame:
  assumes "cw_pending c = p # rest" "pending_frame p = Some f" "into_frame p w = (w1, Some (f, x))"
  shows "drain i now c w =
    (let emit = (c\<lparr>cw_pending := rest\<rparr>, w1, Some (OutFrame i f x)) in
     case media f of
       Video _ \<Rightarrow> emit
     | Audio a \<Rightarrow>
         (case audio_end f a of
            None \<Rightarrow> (c, w, None)
          | Some end \<Rightarrow>
              if is_none_or (cw_last_video c) (\<lambda>video. end > video)
              then if is_some_and (cw_deadline c) (\<lambda>deadline. now \<ge> deadline)
                   then drain i now (c\<lparr>cw_pending := rest\<rparr>) (drop_pending p w)
                   else (c, w, None)
              else emit))"
  using assms
  by (cases p; cases "media f")
    (simp_all add: drain.simps [of i now c] Let_def split: option.split)

lemma drain_ok:
  "drain i now c w = (c', w', out) \<Longrightarrow> window_ok open floor c \<Longrightarrow> out_ok open floor out c'"
proof (induction i now c w arbitrary: c' w' out rule: drain.induct)
  case (1 i now c w)
  note drain = "1.prems"(1) and ok = "1.prems"(2)
  show ?case
  proof (cases "cw_pending c")
    case Nil
    with drain finish_if_due_ok [OF ok Nil] show ?thesis
      by (auto simp: drain.simps [of i now c] split: prod.splits)
  next
    case (Cons p rest)
    show ?thesis
    proof (cases "pending_frame p")
      case None
      then obtain t where p: "p = Finish t" by (cases p) auto
      have "window_ok False floor (c\<lparr>cw_pending := rest\<rparr>)"
        using ok Cons p by (auto simp: window_ok_def pending_video_def)
      with drain Cons p show ?thesis by (auto simp: drain.simps [of i now c])
    next
      case (Some f)
      obtain w1 x where into: "into_frame p w = (w1, Some (f, x))" using Some by (cases p) auto
      have np: "\<And>t. p \<noteq> Finish t" using Some by auto
      let ?c1 = "c\<lparr>cw_pending := rest\<rparr>"
      have emit: "out_ok open floor (Some (OutFrame i f x)) ?c1" by (rule pop_frame_ok [OF ok Cons Some])
      note drain = drain [unfolded drain_frame [OF Cons Some into] Let_def]
      show ?thesis
      proof (cases "media f")
        case (Video v)
        with drain emit show ?thesis by simp
      next
        case (Audio a)
        then have ok1: "window_ok open floor ?c1" using emit by simp
        show ?thesis
        proof (cases "audio_end f a")
          case None
          with drain Audio ok show ?thesis by simp
        next
          case ends: (Some e)
          let ?early = "is_none_or (cw_last_video c) (\<lambda>video. video < e)"
          let ?due = "is_some_and (cw_deadline c) (\<lambda>deadline. deadline \<le> now)"
          have run: "(if ?early then if ?due then drain i now ?c1 (drop_pending p w) else (c, w, None)
              else (?c1, w1, Some (OutFrame i f x))) = (c', w', out)"
            using drain Audio ends by simp
          show ?thesis
          proof (cases "?early \<and> ?due")
            case True
            with run have rec: "drain i now ?c1 (drop_pending p w) = (c', w', out)" by simp
            from True ok1 show ?thesis
              using "1.IH"(1) [OF Cons _ refl \<open>pending_frame p = Some f\<close> Audio ends _ _ rec]
                "1.IH"(2) [OF Cons _ refl \<open>pending_frame p = Some f\<close> Audio ends _ _ rec] np
              by (cases p) auto
          next
            case False
            with run have "(c', w', out) = (c, w, None) \<or> (c', w', out) = (?c1, w1, Some (OutFrame i f x))"
              by (auto split: if_splits)
            with ok emit show ?thesis by auto
          qed
        qed
      qed
    qed
  qed
qed

lemma camera_next_output_ok:
  assumes "camera_next_output now c w = (c', w', out)" "window_ok open floor c"
  shows "out_ok open floor out c'"
proof -
  define c1 where "c1 = (if cw_identity c = None \<and> is_some_and (cw_deadline c) (\<lambda>end. now \<ge> end)
      then c\<lparr>cw_deadline := None, cw_status := (cw_status c)\<lparr>st_active := False\<rparr>\<rparr> else c)"
  have "window_ok open floor c1" using assms(2) by (simp add: c1_def)
  moreover have "(case cw_identity c1 of None \<Rightarrow> (c1, w, None) | Some i \<Rightarrow> drain i now c1 w) = (c', w', out)"
    using assms(1) by (simp add: camera_next_output_def flip: c1_def)
  ultimately show ?thesis using drain_ok by (cases "cw_identity c1") auto
qed

section \<open>Runs of a window\<close>

text \<open>
  The steps that the recorder takes on one window, with the outputs they produce. \<open>same_core\<close> allows
  any change of the fields that do not steer the selection; \<open>step_history\<close> is the start of a replay.
\<close>

definition same_core :: "CameraWindow \<Rightarrow> CameraWindow \<Rightarrow> bool" where
  "same_core c c' \<longleftrightarrow> cw_pending c' = cw_pending c \<and> cw_last_video c' = cw_last_video c
     \<and> cw_watermark c' = cw_watermark c \<and> cw_window_started c' = cw_window_started c
     \<and> cw_waiting_keyframe c' = cw_waiting_keyframe c"

inductive wstep :: "CameraWindow \<Rightarrow> EventOutput list \<Rightarrow> CameraWindow \<Rightarrow> bool" where
  step_select: "wstep c [] (fst (select p c w))"
| step_trim: "wstep c [] (fst (trim_pending_audio t c w))"
| step_close: "wstep c [] ((fst (close_pending_window t c w))\<lparr>cw_waiting_keyframe := True\<rparr>)"
| step_wait: "wstep c [] (c\<lparr>cw_waiting_keyframe := True\<rparr>)"
| step_fields: "same_core c c' \<Longrightarrow> wstep c [] c'"
| step_history: "is_video_keyframe (bf_frame f) \<Longrightarrow> is_none_or (cw_watermark c) (\<lambda>m. m < received_at (bf_frame f)) \<Longrightarrow>
    wstep c [] (fst (select (History f) (c\<lparr>cw_waiting_keyframe := False\<rparr>) w))"
| step_next: "camera_next_output now c w = (c', w', out) \<Longrightarrow> wstep c (case out of None \<Rightarrow> [] | Some x \<Rightarrow> [x]) c'"

inductive wrun :: "CameraWindow \<Rightarrow> EventOutput list \<Rightarrow> CameraWindow \<Rightarrow> bool" where
  wrun_refl [simp]: "wrun c [] c"
| wrun_step: "wrun c xs c1 \<Longrightarrow> wstep c1 ys c2 \<Longrightarrow> wrun c (xs @ ys) c2"

inductive_cases wrun_cases: "wrun c xs c'"

lemma wrun_trans: "wrun c1 ys c2 \<Longrightarrow> wrun c xs c1 \<Longrightarrow> wrun c (xs @ ys) c2"
  by (induction rule: wrun.induct) (auto simp flip: append_assoc intro: wrun_step)

lemma wrun_one: "wstep c ys c' \<Longrightarrow> wrun c ys c'"
  using wrun_step [OF wrun_refl] by fastforce

lemma wrun_silent: "wrun c [] c1 \<Longrightarrow> wstep c1 [] c2 \<Longrightarrow> wrun c [] c2"
  using wrun_step by fastforce

text \<open>The writer's view: whether its recording is open and the last video time it saw.\<close>

fun receive :: "bool \<Rightarrow> instant option \<Rightarrow> EventOutput list \<Rightarrow> (bool \<times> instant option) option" where
  "receive open floor [] = Some (open, floor)"
| "receive open floor (OutFinish _ _ # xs) = receive False floor xs"
| "receive open floor (OutFrame _ f _ # xs) =
     (if is_video f
      then if (is_video_keyframe f \<or> open) \<and> is_none_or floor (\<lambda>m. m < received_at f)
           then receive True (Some (received_at f)) xs else None
      else receive open floor xs)"

lemma receive_append:
  "receive o' m (xs @ ys) = (case receive o' m xs of None \<Rightarrow> None | Some (o2, m2) \<Rightarrow> receive o2 m2 ys)"
  by (induction o' m xs rule: receive.induct) auto

lemma same_core_ok: "same_core c c' \<Longrightarrow> window_ok o' m c \<Longrightarrow> window_ok o' m c'"
  by (simp add: same_core_def window_ok_def)

lemma select_history_ok:
  assumes "window_ok o' m c" "is_video_keyframe (bf_frame f)"
    and "is_none_or (cw_watermark c) (\<lambda>m. m < received_at (bf_frame f))"
  shows "fst (select (History f) (c\<lparr>cw_waiting_keyframe := False\<rparr>) w) = fst (select (History f) c w)"
proof -
  have "\<not> is_some_and (cw_last_video c) (\<lambda>last. received_at (bf_frame f) \<le> last)"
    using assms(1,3) by (cases "cw_last_video c"; cases "cw_watermark c") (auto simp: window_ok_def)
  moreover obtain v where "media (bf_frame f) = Video v"
    using keyframe_is_video [OF assms(2)] by (cases "media (bf_frame f)") auto
  ultimately show ?thesis using assms(2) by (simp add: select_def)
qed

lemma wstep_ok:
  assumes "wstep c ys c'" "window_ok open floor c"
  shows "\<exists>o' m. receive open floor ys = Some (o', m) \<and> window_ok o' m c'"
  using assms
proof (cases rule: wstep.cases)
  case (step_next now w w' out)
  have "out_ok open floor out c'" by (rule camera_next_output_ok [OF step_next(2) assms(2)])
  with step_next(1) show ?thesis
    by (cases "(open, floor, out, c')" rule: out_ok.cases) (auto split: if_splits)
next
  case (step_history f w)
  with assms(2) show ?thesis using select_history_ok select_ok by simp
qed (use assms(2) in \<open>auto intro: select_ok trim_pending_audio_ok close_pending_window_ok window_ok_wait same_core_ok\<close>)

lemma wrun_ok:
  "wrun c xs c' \<Longrightarrow> window_ok open floor c \<Longrightarrow>
     \<exists>o' m. receive open floor xs = Some (o', m) \<and> window_ok o' m c'"
proof (induction rule: wrun.induct)
  case (wrun_step c xs c1 ys c2)
  obtain o1 m1 where "receive open floor xs = Some (o1, m1)" "window_ok o1 m1 c1"
    using wrun_step.IH [OF wrun_step.prems] by blast
  with wstep_ok [OF wrun_step.hyps(2)] show ?case by (auto simp: receive_append)
qed auto

text \<open>The video frames of a list of outputs, and those that arrive while no recording is open.\<close>

definition out_videos :: "EventOutput list \<Rightarrow> RecordingFrame list" where
  "out_videos xs = map out_frame (filter out_video xs)"

fun openers :: "bool \<Rightarrow> EventOutput list \<Rightarrow> RecordingFrame list" where
  "openers open [] = []"
| "openers open (OutFinish _ _ # xs) = openers False xs"
| "openers open (OutFrame _ f _ # xs) =
     (if is_video f then (if open then [] else [f]) @ openers True xs else openers open xs)"

lemma receive_videos:
  "receive open floor xs \<noteq> None \<Longrightarrow>
     sorted_wrt (<) (map received_at (out_videos xs))
     \<and> (\<forall>f \<in> set (out_videos xs). is_none_or floor (\<lambda>m. m < received_at f))
     \<and> (\<forall>f \<in> set (openers open xs). is_video_keyframe f)"
proof (induction "open" "floor" xs rule: receive.induct)
  case (3 "open" "floor" i f x xs)
  then show ?case
    by (cases "floor") (auto simp: out_videos_def out_video_def split: if_splits dest: less_trans)
qed (auto simp: out_videos_def out_video_def)

lemma wrun_new:
  assumes "wrun (CameraWindow_new s) xs c"
  shows "sorted_wrt (<) (map received_at (out_videos xs)) \<and> (\<forall>f \<in> set (openers False xs). is_video_keyframe f)"
  using wrun_ok [OF assms window_ok_new] receive_videos by fastforce

end
