(* ===== verification/Event_Run.thy ===== *)
theory Event_Run
  imports Event_Window
begin

text \<open>
  The event recorder as a whole. Every operation moves each camera window along steps of
  \<open>Event_Window\<close>; only the windows of a given set may be started afresh (\<open>moves\<close>). So the statements about one window hold for what the
  writer receives from any sequence of operations; the round robin serves every camera.
\<close>

section \<open>How operations move windows\<close>

definition crel :: "string set \<Rightarrow> string \<Rightarrow> CameraWindow \<Rightarrow> CameraWindow \<Rightarrow> bool" where
  "crel F s c c' \<longleftrightarrow> (wrun c [] c' \<or> s \<in> F \<and> (\<exists>st. wrun (CameraWindow_new st) [] c'))
     \<and> (\<forall>i. cw_identity c' = Some i \<longrightarrow> source_id i = s \<or> cw_identity c = Some i)"

lemma crel_refl [simp]: "crel F s c c"
  by (simp add: crel_def)

lemma crel_trans: "crel F s c c1 \<Longrightarrow> crel F s c1 c2 \<Longrightarrow> crel F s c c2"
  unfolding crel_def using wrun_trans [of c1 "[]" c2] by (metis append_Nil)

lemma crel_run: "wrun c [] c' \<Longrightarrow> cw_identity c' = cw_identity c \<Longrightarrow> crel F s c c'"
  by (simp add: crel_def)

lemma crel_fields: "same_core c c' \<Longrightarrow> cw_identity c' = cw_identity c \<Longrightarrow> crel F s c c'"
  by (intro crel_run wrun_one step_fields)

definition cams_rel :: "string set \<Rightarrow> (string, CameraWindow) btree \<Rightarrow> (string, CameraWindow) btree \<Rightarrow> bool" where
  "cams_rel F = list_all2 (\<lambda>x y. fst y = fst x \<and> crel F (fst x) (snd x) (snd y))"

definition moves :: "string set \<Rightarrow> EventRecordings \<Rightarrow> EventRecordings \<Rightarrow> bool" where
  "moves F e e' \<longleftrightarrow> e_ready e' = e_ready e \<and> cams_rel F (e_cameras e) (e_cameras e')"

lemma cams_rel_refl [simp]: "cams_rel F m m"
  by (simp add: cams_rel_def list.rel_refl)

lemma cams_rel_trans:
  assumes "cams_rel F m m1" "cams_rel F m1 m2"
  shows "cams_rel F m m2"
proof -
  have "list_all2 (\<lambda>x z. fst z = fst x \<and> crel F (fst x) (snd x) (snd z)) m m2"
    using assms unfolding cams_rel_def
    by (rule list_all2_trans [rotated]) (auto intro: crel_trans)
  then show ?thesis by (simp add: cams_rel_def)
qed

lemma cams_rel_update: "bt_get m s = Some c \<Longrightarrow> crel F s c c' \<Longrightarrow> cams_rel F m (bt_update s c' m)"
  by (induction s c' m rule: bt_update.induct)
    (auto simp: bt_get_def cams_rel_def intro: list.rel_refl split: if_splits)

lemma cams_rel_get: "cams_rel F m m' \<Longrightarrow> bt_get m' s = Some c' \<Longrightarrow> \<exists>c. bt_get m s = Some c \<and> crel F s c c'"
  unfolding cams_rel_def by (induction rule: list_all2_induct) (auto simp: bt_get_def split: if_splits)

lemma cams_rel_keys: "cams_rel F m m' \<Longrightarrow> map fst m' = map fst m"
  unfolding cams_rel_def by (induction rule: list_all2_induct) auto

lemma moves_refl [simp]: "moves F e e"
  by (simp add: moves_def)

lemma moves_trans: "moves F e e1 \<Longrightarrow> moves F e1 e2 \<Longrightarrow> moves F e e2"
  using cams_rel_trans by (auto simp: moves_def)

lemma moves_buffers [simp]:
  "moves F e (e'\<lparr>e_buffers := b\<rparr>) = moves F e e'"
  "moves F (e\<lparr>e_buffers := b\<rparr>) e' = moves F e e'"
  by (simp_all add: moves_def)

lemma camera_get_buffers [simp]: "camera_get (e\<lparr>e_buffers := b\<rparr>) s = camera_get e s"
  by (simp add: camera_get_def)

lemma camera_set_buffers: "camera_set s c (e\<lparr>e_buffers := b\<rparr>) = (camera_set s c e)\<lparr>e_buffers := b\<rparr>"
  by (simp add: camera_set_def)

lemma camera_set_moves: "camera_get e s = Some c \<Longrightarrow> crel F s c c' \<Longrightarrow> moves F e (camera_set s c' e)"
  by (simp add: moves_def camera_set_def camera_get_def cams_rel_update)

lemma moves_get: "moves F e e' \<Longrightarrow> camera_get e' s = Some c' \<Longrightarrow> \<exists>c. camera_get e s = Some c \<and> crel F s c c'"
  by (auto simp: moves_def camera_get_def dest: cams_rel_get)

lemma camera_get_set:
  "camera_get e s = Some c \<Longrightarrow> camera_get (camera_set s c' e) x = (if x = s then Some c' else camera_get e x)"
proof -
  have "bt_get (bt_update s c' m) x = (if x = s then Some c' else bt_get m x)" if "bt_get m s = Some c" for m
    using that by (induction s c' m rule: bt_update.induct) (auto simp: bt_get_def split: if_splits)
  then show "camera_get e s = Some c \<Longrightarrow> ?thesis" by (simp add: camera_get_def camera_set_def)
qed

section \<open>Steps on one window\<close>

lemma identity_kept [simp]:
  "cw_identity (fst (select p c w)) = cw_identity c"
  "cw_identity (fst (trim_pending_audio t c w)) = cw_identity c"
  "cw_identity (fst (close_pending_window t c w)) = cw_identity c"
  by (auto simp: select_def trim_pending_audio_def close_pending_window_def Let_def
      split: option.splits MediaFrame.splits if_splits prod.splits)

lemma select_crel: "select p c w = (c', w') \<Longrightarrow> crel F s c c'"
  using crel_run [OF wrun_one [OF step_select]] by (metis fst_conv identity_kept(1))

lemma trim_crel: "trim_pending_audio t c w = (c', w') \<Longrightarrow> crel F s c c'"
  using crel_run [OF wrun_one [OF step_trim]] by (metis fst_conv identity_kept(2))

lemma wait_crel: "crel F s c (c\<lparr>cw_waiting_keyframe := True\<rparr>)"
  by (rule crel_run [OF wrun_one [OF step_wait]]) simp

lemma close_crel: "close_pending_window t c w = (c', w') \<Longrightarrow> crel F s c (c'\<lparr>cw_waiting_keyframe := True\<rparr>)"
  using crel_run [OF wrun_one [OF step_close [of c t w]]] identity_kept(3) [of t c w] by simp

lemma select_all_Cons:
  "select_all (f # fs) c w = (let (c, w) = select (History f) c w in select_all fs c w)"
  by (simp add: select_all_def case_prod_beta)

lemma select_all_crel: "select_all fs c w = (c', w') \<Longrightarrow> crel F s c c'"
proof (induction fs arbitrary: c w)
  case (Cons f fs)
  obtain c1 w1 where "select (History f) c w = (c1, w1)" by (cases "select (History f) c w")
  with Cons select_crel crel_trans show ?case by (fastforce simp: select_all_Cons)
qed (simp add: select_all_def)

lemma crel_new: "s \<in> F \<Longrightarrow> same_core (CameraWindow_new st) c' \<Longrightarrow> cw_identity c' = None \<Longrightarrow> crel F s c c'"
  using wrun_one [OF step_fields] by (auto simp: crel_def)

lemma select_before_Cons:
  "select_before t (f # fs) c w =
     (let (c, w) = (if frame_ends_before (bf_frame f) t then select (History f) c w else (c, on_heap (drop_frames [f]) w))
      in select_before t fs c w)"
  by (simp add: select_before_def case_prod_beta)

text \<open>Frames selected in front of a replay lie before its start.\<close>

lemma select_watermark:
  assumes "select (History f) c w = (c', w')" "frame_ends_before (bf_frame f) t" "is_none_or (cw_watermark c) (\<lambda>m. m < t)"
  shows "is_none_or (cw_watermark c') (\<lambda>m. m < t)"
proof (cases "media (bf_frame f)")
  case (Video v)
  then have "received_at (bf_frame f) < t" using assms(2) by (simp add: frame_ends_before_def)
  with assms(1,3) Video show ?thesis
    by (cases "cw_watermark c") (auto simp: select_def split: if_splits)
next
  case (Audio a)
  with assms(1,3) show ?thesis by (auto simp: select_def split: option.splits if_splits)
qed

lemma select_before_crel:
  "select_before t fs c w = (c', w') \<Longrightarrow> is_none_or (cw_watermark c) (\<lambda>m. m < t) \<Longrightarrow>
     crel F s c c' \<and> is_none_or (cw_watermark c') (\<lambda>m. m < t)"
proof (induction fs arbitrary: c w)
  case (Cons f fs)
  obtain c1 w1 where sel: "select (History f) c w = (c1, w1)" by (cases "select (History f) c w")
  show ?case
  proof (cases "frame_ends_before (bf_frame f) t")
    case True
    with Cons.prems(1) sel have rest: "select_before t fs c1 w1 = (c', w')" by (simp add: select_before_Cons)
    from Cons.IH [OF rest select_watermark [OF sel True Cons.prems(2)]] select_crel [OF sel] show ?thesis
      by (blast intro: crel_trans)
  next
    case False
    with Cons show ?thesis by (simp add: select_before_Cons)
  qed
qed (simp add: select_before_def)

lemma replay_crel:
  assumes "select_all (f # fs) (c\<lparr>cw_waiting_keyframe := False\<rparr>) w = (c', w')" "is_video_keyframe (bf_frame f)"
    and "is_none_or (cw_watermark c) (\<lambda>m. m < received_at (bf_frame f))"
  shows "crel F s c c'"
proof -
  obtain c1 w1 where sel: "select (History f) (c\<lparr>cw_waiting_keyframe := False\<rparr>) w = (c1, w1)"
    by (cases "select (History f) (c\<lparr>cw_waiting_keyframe := False\<rparr>) w")
  have "crel F s c c1"
    using crel_run [OF wrun_one [OF step_history [OF assms(2,3), of w]]] sel identity_kept(1) [of "History f" "c\<lparr>cw_waiting_keyframe := False\<rparr>" w]
    by simp
  moreover have "select_all fs c1 w1 = (c', w')" using assms(1) sel by (simp add: select_all_Cons)
  ultimately show ?thesis using select_all_crel crel_trans by blast
qed

section \<open>Every operation moves windows\<close>

lemma release_loop_moves: "release_loop n e w = (e', w') \<Longrightarrow> moves F e e'"
proof (induction n arbitrary: e w)
  case (Suc n)
  obtain b r where nr: "next_released (e_buffers e) = (b, r)" by (cases "next_released (e_buffers e)")
  show ?case
  proof (cases r)
    case None
    with nr Suc.prems show ?thesis by auto
  next
    case (Some x)
    then obtain source stream f where r: "r = Some (source, stream, f)" by (cases x) auto
    define e1 where "e1 = e\<lparr>e_buffers := b\<rparr>"
    obtain e2 w2 where step: "(case camera_get e1 source of
        Some c \<Rightarrow> if \<not> cw_main_active c then let (c, w) = select (History f) c w in (camera_set source c e1, w)
                  else (e1, on_heap (drop_frames [f]) w)
      | None \<Rightarrow> (e1, on_heap (drop_frames [f]) w)) = (e2, w2)" by fastforce
    have "moves F e1 e2"
      using step by (auto split: option.splits if_splits prod.splits intro: camera_set_moves select_crel)
    moreover have "release_loop n e2 w2 = (e', w')"
      using Suc.prems nr r step by (simp add: Let_def flip: e1_def)
    ultimately show ?thesis using Suc.IH moves_trans by (metis e1_def moves_buffers(2))
  qed
qed simp

lemma release_continuous_moves: "release_continuous e w = (e', w') \<Longrightarrow> moves F e e'"
  unfolding release_continuous_def by (rule release_loop_moves)

lemma invalidate_main_history_moves: "invalidate_main_history s r e w = (e', w') \<Longrightarrow> moves F e e'"
  unfolding invalidate_main_history_def Let_def camera_set_buffers
  by (auto split: prod.splits option.splits if_splits intro!: camera_set_moves crel_fields crel_trans [OF crel_fields wait_crel]
      simp: same_core_def camera_set_buffers)

lemma reset_moves: "reset s e w = (e', w') \<Longrightarrow> s \<in> F \<Longrightarrow> moves F e e'"
  unfolding reset_def Let_def
  by (auto split: prod.splits option.splits intro!: camera_set_moves crel_new
      simp: same_core_def camera_set_buffers CameraWindow_new_def)

lemma camera_status_moves: "camera_get e s = Some c \<Longrightarrow> moves F e (camera_set s (c\<lparr>cw_status := x\<rparr>) e)"
  by (intro camera_set_moves crel_fields) (simp_all add: same_core_def)

lemma fail_moves: "fail s r e w = (e', w') \<Longrightarrow> s \<in> F \<Longrightarrow> moves F e e'"
  unfolding fail_def Let_def
  by (auto split: prod.splits option.splits intro: moves_trans reset_moves camera_status_moves)

text \<open>An input of the main stream in boost mode: rejecting it only invalidates the main history.\<close>

definition boosted :: "RecordingStreamIdentity \<Rightarrow> EventRecordings \<Rightarrow> bool" where
  "boosted i e \<longleftrightarrow> stream_id i = ''main''
     \<and> is_some_and (camera_get e (source_id i)) (\<lambda>c. es_mode (cw_settings c) = EventBoost)"

lemma reject_input_moves:
  "reject_input i r e w = (e', w') \<Longrightarrow> boosted i e \<or> source_id i \<in> F \<Longrightarrow> moves F e e'"
  unfolding reject_input_def boosted_def
  by (auto split: if_splits intro: invalidate_main_history_moves fail_moves)

lemma boost_history_crel:
  assumes "boost_history s start now c b w = (c', b', w')" "is_none_or (cw_watermark c) (\<lambda>m. m < start)"
  shows "crel F s c c' \<and> is_none_or (cw_watermark c') (\<lambda>m. m < start)"
proof (cases "es_mode (cw_settings c) = EventBoost")
  case True
  obtain c1 w1 where 1: "trim_pending_audio start c w = (c1, w1)" by (cases "trim_pending_audio start c w")
  obtain b2 hp2 fs where 2: "buffers_take s ''sub'' now (set_continuous s ''sub'' False b) (w_heap w1) = (b2, hp2, fs)"
    by (metis prod_cases3)
  obtain c3 w3 where 3: "select_before start fs c1 (w1\<lparr>w_heap := hp2\<rparr>) = (c3, w3)"
    by (cases "select_before start fs c1 (w1\<lparr>w_heap := hp2\<rparr>)")
  have c': "c' = c3\<lparr>cw_main_active := True\<rparr>" using assms(1) True 1 2 3 by (auto simp: boost_history_def Let_def)
  have "cw_watermark c1 = cw_watermark c" using 1 by (auto simp: trim_pending_audio_def)
  then have "crel F s c1 c3 \<and> is_none_or (cw_watermark c3) (\<lambda>m. m < start)"
    using select_before_crel [OF 3, of F s] assms(2) by simp
  moreover have "crel F s c3 c'" unfolding c' by (rule crel_fields) (simp_all add: same_core_def)
  ultimately show ?thesis using crel_trans [OF trim_crel [OF 1] crel_trans] c' by auto
qed (use assms in \<open>auto simp: boost_history_def\<close>)

lemma select_history_cases:
  assumes "select_history s now e w = (e', w')"
  obtains (absent) "camera_get e s = None" "e' = e" "w' = w"
  | (empty) c b1 hp1 sn b hp taken where "camera_get e s = Some c"
      "snapshot s (selected_stream (cw_settings c)) now (e_buffers e) (w_heap w) = (b1, hp1, sn)"
      "buffers_take s (selected_stream (cw_settings c)) now b1 hp1 = (b, hp, taken)"
      "e' = e\<lparr>e_buffers := b\<rparr>" "w' = w\<lparr>w_heap := drop_frames taken hp\<rparr>"
  | (replay) c b1 hp1 sn b hp skipped first rest c4 b4 w4 x c5 where "camera_get e s = Some c"
      "snapshot s (selected_stream (cw_settings c)) now (e_buffers e) (w_heap w) = (b1, hp1, sn)"
      "buffers_take s (selected_stream (cw_settings c)) now b1 hp1 = (b, hp, skipped @ first # rest)"
      "replay_start c first"
      "boost_history s (received_at (bf_frame first)) now c b (w\<lparr>w_heap := drop_frames skipped hp\<rparr>) = (c4, b4, w4)"
      "select_all (first # rest) (c4\<lparr>cw_waiting_keyframe := False, cw_status := x\<rparr>) w4 = (c5, w')"
      "e' = camera_set s c5 (e\<lparr>e_buffers := b4\<rparr>)"
proof (cases "camera_get e s")
  case None
  with assms have "e' = e" "w' = w" by (simp_all add: select_history_def)
  with None show ?thesis by (rule absent)
next
  case (Some c)
  let ?st = "selected_stream (cw_settings c)" and ?P = "\<lambda>f. \<not> replay_start c f"
  obtain b1 hp1 sn where 1: "snapshot s ?st now (e_buffers e) (w_heap w) = (b1, hp1, sn)" by (metis prod_cases3)
  obtain b hp taken where 2: "buffers_take s ?st now b1 hp1 = (b, hp, taken)" by (metis prod_cases3)
  show ?thesis
  proof (cases "dropWhile ?P taken")
    case Nil
    then have "takeWhile ?P taken = taken" by (metis append_Nil2 takeWhile_dropWhile_id)
    with assms Some 1 2 Nil have "e' = e\<lparr>e_buffers := b\<rparr>" "w' = w\<lparr>w_heap := drop_frames taken hp\<rparr>"
      by (simp_all add: select_history_def)
    then show ?thesis by (rule empty [OF Some 1 2])
  next
    case (Cons first rest)
    let ?skipped = "takeWhile ?P taken" and ?start = "received_at (bf_frame first)"
    have taken: "taken = ?skipped @ first # rest" by (metis Cons takeWhile_dropWhile_id)
    have start: "replay_start c first" using Cons dropWhile_eq_Cons_conv [of ?P taken] by simp
    obtain c4 b4 w4 where 4: "boost_history s ?start now c b (w\<lparr>w_heap := drop_frames ?skipped hp\<rparr>) = (c4, b4, w4)"
      by (metis prod_cases3)
    let ?c5 = "c4\<lparr>cw_waiting_keyframe := False, cw_status := replay_status (first # rest) ?start sn (cw_status c4)\<rparr>"
    obtain c5 w5 where 5: "select_all (first # rest) ?c5 w4 = (c5, w5)" by (cases "select_all (first # rest) ?c5 w4")
    have "e' = camera_set s c5 (e\<lparr>e_buffers := b4\<rparr>)" "w' = w5"
      using assms Some 1 2 4 5 Cons by (simp_all add: select_history_def Let_def del: dropWhile_eq_Nil_conv)
    with 5 show ?thesis using replay [OF Some 1 _ start 4] 2 taken by metis
  qed
qed

lemma select_history_moves:
  assumes "select_history s now e w = (e', w')"
  shows "moves F e e'"
  using assms
proof (cases rule: select_history_cases)
  case (replay c b1 hp1 sn b hp skipped first rest c4 b4 w4 x c5)
  have key: "is_video_keyframe (bf_frame first)" "is_none_or (cw_watermark c) (\<lambda>m. m < received_at (bf_frame first))"
    using replay(4) by (simp_all add: replay_start_def)
  have c4: "crel F s c c4 \<and> is_none_or (cw_watermark c4) (\<lambda>m. m < received_at (bf_frame first))"
    by (rule boost_history_crel [OF replay(5) key(2)])
  have "c4\<lparr>cw_waiting_keyframe := False, cw_status := x\<rparr> = (c4\<lparr>cw_status := x\<rparr>)\<lparr>cw_waiting_keyframe := False\<rparr>" by simp
  from replay_crel [OF replay(6) [unfolded this] key(1)] c4 have "crel F s (c4\<lparr>cw_status := x\<rparr>) c5" by simp
  moreover have "crel F s c4 (c4\<lparr>cw_status := x\<rparr>)" by (rule crel_fields) (simp_all add: same_core_def)
  ultimately have "crel F s c c5" using c4 crel_trans by blast
  then show ?thesis using replay(1,7) camera_set_moves by (simp add: camera_set_buffers)
qed auto

lemma open_event_crel:
  assumes "open_event now c w = (c', w')"
  shows "crel F s c c'"
proof (cases "\<not> is_some_and (cw_deadline c) (\<lambda>deadline. now < deadline) \<and> es_mode (cw_settings c) = EventOnly")
  case True
  obtain c1 w1 where 1: "(case cw_deadline c of
      Some end \<Rightarrow> if cw_window_started c then close_pending_window end (c\<lparr>cw_deadline := None\<rparr>) w
                  else (c\<lparr>cw_deadline := None\<rparr>, w)
    | None \<Rightarrow> (c, w)) = (c1, w1)" by fastforce
  have "crel F s c (c\<lparr>cw_deadline := None\<rparr>)" by (rule crel_fields) (simp_all add: same_core_def)
  then have "crel F s c (c1\<lparr>cw_waiting_keyframe := True\<rparr>)"
    using 1 close_crel [of _ "c\<lparr>cw_deadline := None\<rparr>" w c1 w1 F s] wait_crel [of F s c] wait_crel [of F s "c\<lparr>cw_deadline := None\<rparr>"]
    by (auto split: option.splits if_splits intro: crel_trans)
  moreover have "crel F s (c1\<lparr>cw_waiting_keyframe := True\<rparr>) c'"
    using assms True 1 by (intro crel_fields) (auto simp: open_event_def same_core_def Let_def)
  ultimately show ?thesis by (rule crel_trans)
next
  case False
  with assms show ?thesis by (intro crel_fields) (auto simp: open_event_def same_core_def Let_def)
qed

lemma note_event_moves:
  assumes "note_event s now e w = (e', w')"
  shows "moves F e e'"
proof -
  obtain e1 w1 where 1: "release_continuous e w = (e1, w1)" by (cases "release_continuous e w")
  note m1 = release_continuous_moves [OF 1]
  show ?thesis
  proof (cases "camera_get e1 s")
    case None
    with assms 1 m1 show ?thesis by (simp add: note_event_def)
  next
    case (Some c)
    obtain c2 w2 where 2: "open_event now c w1 = (c2, w2)" by (cases "open_event now c w1")
    have "moves F e1 (camera_set s c2 e1)" by (rule camera_set_moves [OF Some open_event_crel [OF 2]])
    moreover have "(e', w') = (camera_set s c2 e1, w2) \<or> select_history s now (camera_set s c2 e1) w2 = (e', w')"
      using assms 1 2 Some by (auto simp: note_event_def Let_def split: if_splits)
    ultimately have "moves F e1 e'" using select_history_moves moves_trans by blast
    with m1 show ?thesis by (rule moves_trans)
  qed
qed

lemma accept_config_core:
  assumes "accept_config i n fp c b hp = (c', b', hp')"
  shows "same_core c c'" "cw_identity c' = cw_identity c"
  using assms by (auto simp: accept_config_def same_core_def Let_def split: prod.splits)

text \<open>The inputs that \<open>validate\<close> rejects: out of order, or a keyframe without decoder configuration.\<close>

definition malformed :: "Decoders \<Rightarrow> RecordingStreamIdentity \<Rightarrow> RecordingFrame \<Rightarrow> instant \<Rightarrow> EventRecordings \<Rightarrow> bool" where
  "malformed D i f now e \<longleftrightarrow>
     is_some_and (camera_get e (source_id i)) (\<lambda>c.
       let index = (if stream_id i = ''main'' then 0 else 1) in
       (stream_id i = ''main'' \<or> stream_id i = ''sub'')
       \<and> (received_at f > now \<or> is_some_and (cw_last_input c ! index) (\<lambda>last. received_at f < last)
          \<or> (case media f of
                Video v \<Rightarrow> v_is_keyframe v \<and> (case required_video_media_config (d_parsers D) v of Inl _ \<Rightarrow> True | Inr _ \<Rightarrow> False)
              | Audio _ \<Rightarrow> False)))"

lemma validate_moves:
  assumes "validate D i f now e w = (e', w', ok)" and restart: "malformed D i f now e \<Longrightarrow> boosted i e \<or> source_id i \<in> F"
  shows "moves F e e'"
proof (cases "camera_get e (source_id i)")
  case None
  with assms(1) show ?thesis by (simp add: validate_def)
next
  case (Some c)
  define index :: nat where "index = (if stream_id i = ''main'' then 0 else 1)"
  define c1 where "c1 = c\<lparr>cw_last_input := (cw_last_input c)[index := Some (received_at f)]\<rparr>"
  define e1 where "e1 = camera_set (source_id i) c1 e"
  have m1: "moves F e e1"
    unfolding e1_def by (rule camera_set_moves [OF Some crel_fields]) (simp_all add: c1_def same_core_def)
  have get1: "camera_get e1 (source_id i) = Some c1" using camera_get_set [OF Some] by (simp add: e1_def)
  have set1: "moves F e1 (camera_set (source_id i) c' e1)" if "same_core c1 c'" "cw_identity c' = cw_identity c1" for c'
    by (rule camera_set_moves [OF get1 crel_fields [OF that]])
  let ?bad = "\<not> (stream_id i = ''main'' \<or> stream_id i = ''sub'')"
  let ?late = "received_at f > now \<or> is_some_and (cw_last_input c ! index) (\<lambda>last. received_at f < last)"
  show ?thesis
  proof (cases "?bad \<or> ?late")
    case True
    then have "e' = e \<or> (\<exists>w1. reject_input i RMalformedOrder e w = (e', w1))"
      using assms(1) Some by (cases ?bad) (auto simp: validate_def index_def split: prod.splits)
    moreover have "\<not> ?bad \<Longrightarrow> boosted i e \<or> source_id i \<in> F"
      using True Some by (intro restart) (auto simp: malformed_def index_def Let_def)
    ultimately show ?thesis
      using assms(1) Some True reject_input_moves by (cases ?bad) (auto simp: validate_def)
  next
    case False
    then have run: "(case media f of
        Audio _ \<Rightarrow> (e1, w, cw_decoder c1 ! index \<noteq> None)
      | Video v \<Rightarrow>
          if v_is_keyframe v
          then (case required_video_media_config (d_parsers D) v of
                  Inl _ \<Rightarrow> let (e, w) = reject_input i RMissingKeyframe e1 w in (e, w, False)
                | Inr cfg \<Rightarrow>
                    let (c, b, hp) = accept_config i index (decoder_fingerprint (d_sha256 D) cfg) c1 (e_buffers e1) (w_heap w)
                    in (camera_set (source_id i) c (e1\<lparr>e_buffers := b\<rparr>), w\<lparr>w_heap := hp\<rparr>, True))
          else if cw_decoder c1 ! index = None
          then let c = (if stream_id i = selected_stream (cw_settings c1)
                        then c1\<lparr>cw_status := (cw_status c1)\<lparr>st_reason := RMissingKeyframe\<rparr>\<rparr> else c1)
               in (camera_set (source_id i) c e1, w, False)
          else (e1, w, True)) = (e', w', ok)"
      using assms(1) Some unfolding validate_def e1_def c1_def index_def Let_def by simp
    have "moves F e1 e'"
    proof (cases "media f")
      case (Audio a)
      with run show ?thesis by simp
    next
      case (Video v)
      show ?thesis
      proof (cases "v_is_keyframe v")
        case True
        show ?thesis
        proof (cases "required_video_media_config (d_parsers D) v")
          case (Inl err)
          have "boosted i e \<or> source_id i \<in> F"
            using Inl True Video Some \<open>\<not> (?bad \<or> ?late)\<close> by (intro restart) (auto simp: malformed_def Let_def)
          then have "boosted i e1 \<or> source_id i \<in> F" using Some get1 by (simp add: boosted_def c1_def)
          with run Video True Inl show ?thesis by (auto split: prod.splits intro: reject_input_moves)
        next
          case (Inr config)
          with run Video True show ?thesis
            by (auto simp: camera_set_buffers split: prod.splits intro: set1 [OF accept_config_core])
        qed
      next
        case False
        with run Video show ?thesis
          by (auto simp: Let_def same_core_def split: if_splits intro!: set1)
      qed
    qed
    with m1 show ?thesis by (rule moves_trans)
  qed
qed

lemma buffer_input_moves:
  assumes "buffer_input i input now only e w = (e', w')"
  shows "moves F e e'"
proof -
  let ?s = "source_id i"
  obtain b hp rej where p: "push_owned ?s (stream_id i) (q_frame input) now (e_buffers e) (w_heap w) = (b, hp, rej)"
    by (metis prod_cases3)
  obtain e1 w1 where 1: "release_continuous (e\<lparr>e_buffers := b\<rparr>) (w\<lparr>w_heap := hp\<rparr>) = (e1, w1)"
    by (cases "release_continuous (e\<lparr>e_buffers := b\<rparr>) (w\<lparr>w_heap := hp\<rparr>)")
  have m1: "moves F e e1" using release_continuous_moves [OF 1] by simp
  show ?thesis
  proof (cases "camera_get e1 ?s")
    case None
    with assms p 1 m1 show ?thesis by (simp add: buffer_input_def)
  next
    case (Some c)
    let ?live = "rej \<noteq> None \<and> \<not> only \<and> stream_id i = ''sub''"
    obtain c2 w2 where 2: "(if ?live then select (Live input) c w1 else (c, w1)) = (c2, w2)" by fastforce
    have "crel F ?s c c2" using 2 select_crel by (auto split: if_splits)
    then have m2: "moves F e1 (camera_set ?s c2 e1)" by (rule camera_set_moves [OF Some])
    have "e' = camera_set ?s c2 e1 \<or> (\<exists>w3. select_history ?s now (camera_set ?s c2 e1) w2 = (e', w3))"
      using assms p 1 Some 2 by (auto simp: buffer_input_def Let_def split: prod.splits if_splits)
    then have "moves F (camera_set ?s c2 e1) e'" using select_history_moves by fastforce
    then show ?thesis by (rule moves_trans [OF moves_trans [OF m1 m2]])
  qed
qed

lemma switch_to_sub_crel: "switch_to_sub t c w = (c', w') \<Longrightarrow> crel F s c c'"
  by (auto simp: switch_to_sub_def same_core_def split: prod.splits intro!: crel_trans [OF trim_crel crel_fields])

lemma ingest_moves:
  assumes "ingest D i input now e w = (e', w')"
    and restart: "malformed D i (q_frame input) now e \<Longrightarrow> boosted i e \<or> source_id i \<in> F"
  shows "moves F e e'"
proof (cases "is_some_and (camera_get e (source_id i)) (\<lambda>c. es_mode (cw_settings c) = EventOnly
           \<and> stream_id i \<noteq> selected_stream (cw_settings c))")
  case True
  with assms(1) show ?thesis by (simp add: ingest_def)
next
  case False
  let ?s = "source_id i"
  obtain e1 w1 ok where v: "validate D i (q_frame input) now e w = (e1, w1, ok)" by (metis prod_cases3)
  note m1 = validate_moves [OF v restart]
  show ?thesis
  proof (cases "ok \<and> camera_get e1 ?s \<noteq> None")
    case False
    with assms(1) \<open>\<not> is_some_and _ _\<close> v m1 show ?thesis
      by (cases ok; cases "camera_get e1 ?s") (simp_all add: ingest_def Let_def)
  next
    case True
    then obtain c where c: "camera_get e1 ?s = Some c" and ok by auto
    define c2 where "c2 = c\<lparr>cw_queued := Some (l_frames_counter (q_lease input)),
      cw_identity := Some (if es_mode (cw_settings c) = EventBoost then with_recording_stream i ''sub'' else i)\<rparr>"
    have "wrun c [] c2" by (rule wrun_one [OF step_fields]) (simp add: c2_def same_core_def)
    then have c2: "crel F ?s c c2" by (simp add: crel_def c2_def with_recording_stream_def Let_def)
    let ?only = "es_mode (cw_settings c2) = EventOnly" and ?at = "received_at (q_frame input)"
    let ?stay = "\<not> ?only \<and> cw_main_active c2 \<and> \<not> switches_to_sub i (q_frame input) c2"
    let ?live = "?only \<and> is_some_and (cw_deadline c2) (\<lambda>deadline. ?at < deadline) \<or> ?stay \<and> stream_id i = ''main''"
    have run: "(if ?live then let (c, w) = select (Live input) c2 w1 in (camera_set ?s c e1, w)
        else if ?stay then (camera_set ?s c2 e1, drop_lease (q_lease input) w1)
        else
          let switching = (\<not> ?only \<and> cw_main_active c2);
              (c, w) = (if switching then switch_to_sub ?at c2 w1 else (c2, w1));
              b = (if switching then set_continuous ?s ''sub'' True (e_buffers e1) else e_buffers e1);
              e = camera_set ?s c (e1\<lparr>e_buffers := b\<rparr>) in
          if es_pre (cw_settings c) = 0 then (e, drop_lease (q_lease input) w)
          else buffer_input i input now ?only e w) = (e', w')"
      using assms(1) False v c \<open>ok\<close> unfolding ingest_def c2_def Let_def by (simp add: conj_ac)
    have "moves F e1 e'"
    proof (cases "?live \<or> ?stay")
      case True
      with run show ?thesis
        using crel_trans [OF c2 select_crel]
        by (auto split: if_splits prod.splits intro!: camera_set_moves [OF c] intro: c2)
    next
      case False
      then have not_live: "\<not> ?live" and not_stay: "\<not> ?stay" by blast+
      obtain c3 w3 where 3: "(if \<not> ?only \<and> cw_main_active c2 then switch_to_sub ?at c2 w1 else (c2, w1)) = (c3, w3)"
        by fastforce
      have "crel F ?s c c3" using 3 c2 switch_to_sub_crel by (auto split: if_splits intro: crel_trans)
      then have m3: "moves F e1 (camera_set ?s c3 e1)" by (rule camera_set_moves [OF c])
      define b where "b = (if \<not> ?only \<and> cw_main_active c2 then set_continuous ?s ''sub'' True (e_buffers e1) else e_buffers e1)"
      have "(if es_pre (cw_settings c3) = 0 then (camera_set ?s c3 (e1\<lparr>e_buffers := b\<rparr>), drop_lease (q_lease input) w3)
          else buffer_input i input now ?only (camera_set ?s c3 (e1\<lparr>e_buffers := b\<rparr>)) w3) = (e', w')"
        using run unfolding if_not_P [OF not_live] if_not_P [OF not_stay] Let_def 3 b_def by (simp only: prod.case)
      then have "e' = camera_set ?s c3 (e1\<lparr>e_buffers := b\<rparr>)
          \<or> buffer_input i input now ?only (camera_set ?s c3 (e1\<lparr>e_buffers := b\<rparr>)) w3 = (e', w')"
        by (auto split: if_splits)
      then have "moves F (camera_set ?s c3 (e1\<lparr>e_buffers := b\<rparr>)) e'" using buffer_input_moves by fastforce
      then show ?thesis using moves_trans [OF m3] by (simp add: camera_set_buffers)
    qed
    with m1 show ?thesis by (rule moves_trans)
  qed
qed

lemma shutdown_cameras_rel: "shutdown_cameras now cs b w = (cs', b', w') \<Longrightarrow> cams_rel F cs cs'"
proof (induction now cs b w arbitrary: cs' b' w' rule: shutdown_cameras.induct)
  case (2 now source c cs b w)
  obtain c1 b1 w1 where 1: "(if es_mode (cw_settings c) = EventBoost \<and> \<not> cw_main_active c
         then let (b, hp, fs) = buffers_take source ''sub'' now b (w_heap w);
                  (c, w) = select_all fs c (w\<lparr>w_heap := hp\<rparr>)
              in (c, b, w)
         else (c, b, w)) = (c1, b1, w1)" by (metis prod_cases3)
  define c2 where "c2 = (case cw_deadline c1 of Some d \<Rightarrow> c1\<lparr>cw_deadline := Some (min d now)\<rparr> | None \<Rightarrow> c1)"
  define c3 where "c3 = (if es_mode (cw_settings c2) = EventBoost then c2\<lparr>cw_deadline := Some now\<rparr> else c2)"
  obtain cs1 b2 w2 where rec: "shutdown_cameras now cs b1 w1 = (cs1, b2, w2)" by (metis prod_cases3)
  have "crel F source c c1"
    using 1 select_all_crel by (auto split: if_splits prod.splits)
  moreover have "crel F source c1 c3"
    by (rule crel_fields) (auto simp: c3_def c2_def same_core_def split: option.splits)
  ultimately have "crel F source c c3" by (rule crel_trans)
  moreover have "cs' = (source, c3) # cs1"
    using "2.prems" 1 rec by (auto simp: Let_def c3_def c2_def)
  moreover have "cams_rel F cs cs1" using "2.IH" [OF 1 [symmetric] refl refl c2_def c3_def rec] .
  ultimately show ?case by (simp add: cams_rel_def)
qed simp

lemma begin_shutdown_moves:
  assumes "begin_shutdown now e w = (e', w')"
  shows "moves F e e'"
proof -
  obtain e1 w1 where 1: "release_continuous e w = (e1, w1)" by (cases "release_continuous e w")
  obtain cs b w2 where 2: "shutdown_cameras now (e_cameras e1) (e_buffers e1) w1 = (cs, b, w2)" by (metis prod_cases3)
  have "moves F e1 e'" using assms 1 shutdown_cameras_rel [OF 2] 2 by (auto simp: begin_shutdown_def moves_def)
  with release_continuous_moves [OF 1] show ?thesis by (rule moves_trans)
qed

lemma status_moves: "status s now e w = (e', w', r) \<Longrightarrow> moves F e e'"
  by (auto simp: status_def Let_def split: option.splits prod.splits)

section \<open>The round robin\<close>

definition e_ok :: "EventRecordings \<Rightarrow> bool" where
  "e_ok e \<longleftrightarrow> bt_ok (e_cameras e) \<and> distinct (e_ready e) \<and> set (e_ready e) = set (map fst (e_cameras e))
     \<and> length (e_cameras e) \<le> MAX_CAMERAS
     \<and> (\<forall>s c i. camera_get e s = Some c \<longrightarrow> cw_identity c = Some i \<longrightarrow> source_id i = s)"

lemma moves_ok: "moves F e e' \<Longrightarrow> e_ok e \<Longrightarrow> e_ok e'"
proof -
  assume m: "moves F e e'" and ok: "e_ok e"
  have keys: "map fst (e_cameras e') = map fst (e_cameras e)" using m cams_rel_keys by (auto simp: moves_def)
  then have "length (e_cameras e') = length (e_cameras e)" by (metis length_map)
  moreover have "source_id i = s" if "camera_get e' s = Some c'" "cw_identity c' = Some i" for s c' i
    using moves_get [OF m that(1)] that(2) ok by (auto simp: crel_def e_ok_def)
  ultimately show "e_ok e'" using m ok keys by (auto simp: e_ok_def moves_def bt_ok_def)
qed

text \<open>One camera's turn: the window takes its step, and the camera goes to the end of the queue.\<close>

lemma camera_next_identity:
  assumes "camera_next_output now c w = (c', w', out)"
  shows "cw_identity c' = cw_identity c \<and> (\<forall>x. out = Some x \<longrightarrow> cw_identity c = Some (out_identity x))"
proof -
  have drain: "cw_identity c' = cw_identity c \<and> (\<forall>x. out = Some x \<longrightarrow> i = out_identity x)"
    if "drain i now c w = (c', w', out)" for i c w
    using that
  proof (induction i now c w rule: drain.induct)
    case (1 i now c w)
    show ?case
    proof (cases "cw_pending c")
      case Nil
      with "1.prems" show ?thesis
        by (auto simp: drain.simps [of i now c] finish_if_due_def Let_def split: option.splits if_splits prod.splits)
    next
      case (Cons p rest)
      show ?thesis
      proof (cases "pending_frame p")
        case None
        then obtain t where p: "p = Finish t" by (cases p) auto
        with "1.prems" Cons show ?thesis by (auto simp: drain.simps [of i now c])
      next
        case (Some f)
        obtain w1 x where into: "into_frame p w = (w1, Some (f, x))" using Some by (cases p) auto
        note run = "1.prems" [unfolded drain_frame [OF Cons Some into] Let_def]
        show ?thesis
        proof (cases "media f")
          case (Audio a)
          show ?thesis
          proof (cases "audio_end f a")
            case ends: (Some t)
            show ?thesis
            proof (cases "is_none_or (cw_last_video c) (\<lambda>video. video < t) \<and> is_some_and (cw_deadline c) (\<lambda>d. d \<le> now)")
              case True
              with run Audio ends have rec: "drain i now (c\<lparr>cw_pending := rest\<rparr>) (drop_pending p w) = (c', w', out)" by simp
              show ?thesis
                using True Some "1.IH"(1) [OF Cons _ refl Some Audio ends _ _ rec] "1.IH"(2) [OF Cons _ refl Some Audio ends _ _ rec]
                by (cases p) auto
            qed (use run Audio ends in \<open>auto split: if_splits\<close>)
          qed (use run Audio in auto)
        qed (use run in auto)
      qed
    qed
  qed
  show ?thesis
    using assms drain by (auto simp: camera_next_output_def Let_def split: option.splits if_splits)
qed

lemma e_ok_get: "e_ok e \<Longrightarrow> s \<in> set (e_ready e) \<Longrightarrow> \<exists>c. camera_get e s = Some c"
  by (cases "camera_get e s") (auto simp: e_ok_def camera_get_def bt_get_def map_of_eq_None_iff)

text \<open>A camera's turn, as a step of its window and of the others' (none).\<close>

definition advance :: "instant \<Rightarrow> string \<Rightarrow> CameraWindow \<Rightarrow> EventRecordings \<Rightarrow> World \<Rightarrow> EventRecordings \<times> World \<times> EventOutput option" where
  "advance now s c e w =
     (let (c', w', out) = camera_next_output now c w
      in ((camera_set s c' e)\<lparr>e_ready := tl (e_ready e) @ [s]\<rparr>, w', out))"

lemma turn_Suc:
  assumes "e_ready e = s # ready" "camera_get e s = Some c" "advance now s c e w = (e1, w1, out)"
  shows "turn (Suc n) now e w = (if out \<noteq> None then (e1, w1, out) else turn n now e1 w1)"
  using assms by (auto simp: advance_def split: prod.splits)

lemma advance_ok:
  assumes ok: "e_ok e" and r: "e_ready e = s # ready" and c: "camera_get e s = Some c"
    and a: "advance now s c e w = (e1, w1, out)"
  shows "e_ok e1" "e_ready e1 = ready @ [s]" "out = Some x \<Longrightarrow> source_id (out_identity x) = s"
    "camera_get e1 y = (if y = s then Some (fst (camera_next_output now c w)) else camera_get e y)"
proof -
  obtain c' where n: "camera_next_output now c w = (c', w1, out)"
    and e1: "e1 = (camera_set s c' e)\<lparr>e_ready := ready @ [s]\<rparr>"
    using a r by (auto simp: advance_def split: prod.splits)
  note id = camera_next_identity [OF n]
  show ready: "e_ready e1 = ready @ [s]" by (simp add: e1)
  show get: "camera_get e1 y = (if y = s then Some (fst (camera_next_output now c w)) else camera_get e y)" for y
    using camera_get_set [OF c] by (simp add: e1 n camera_get_def)
  show "out = Some x \<Longrightarrow> source_id (out_identity x) = s"
    using id ok c by (auto simp: e_ok_def)
  have "map fst (e_cameras e1) = map fst (e_cameras e)"
    by (simp add: e1 camera_set_def keys_bt_update)
  moreover from this have "length (e_cameras e1) = length (e_cameras e)" by (metis length_map)
  moreover have "source_id i = y" if "camera_get e1 y = Some d" "cw_identity d = Some i" for y d i
    using that id ok c unfolding get by (auto simp: e_ok_def n split: if_splits)
  ultimately show "e_ok e1" using ok r ready by (auto simp: e_ok_def bt_ok_def)
qed

text \<open>
  One pass of the round robin: the cameras in front of the one that is served had nothing to output;
  all of them, and then the one that was served, go to the end of the queue.
\<close>

lemma turn_rotates:
  "turn n now e w = (e', w', out) \<Longrightarrow> e_ok e \<Longrightarrow> n \<le> length (e_ready e) \<Longrightarrow>
     e_ok e' \<and> (case out of
        None \<Rightarrow> \<exists>k. e_ready e' = rotate k (e_ready e)
      | Some x \<Rightarrow> \<exists>ys zs. e_ready e = ys @ source_id (out_identity x) # zs
          \<and> e_ready e' = zs @ ys @ [source_id (out_identity x)] \<and> length ys < n)"
proof (induction n arbitrary: e w)
  case 0
  then show ?case by (auto intro: exI [of _ 0])
next
  case (Suc n)
  show ?case
  proof (cases "e_ready e")
    case Nil
    with Suc.prems show ?thesis by auto
  next
    case (Cons s ready)
    obtain c where c: "camera_get e s = Some c" using e_ok_get [OF Suc.prems(2), of s] Cons by auto
    obtain e1 w1 o1 where a: "advance now s c e w = (e1, w1, o1)" by (metis prod_cases3)
    note adv = advance_ok [OF Suc.prems(2) Cons c a]
    show ?thesis
    proof (cases o1)
      case (Some x)
      with Suc.prems(1) turn_Suc [OF Cons c a] have "e' = e1" "out = Some x" by auto
      with adv Some Cons show ?thesis by (auto intro: exI [of _ "[]"])
    next
      case None
      with Suc.prems(1) turn_Suc [OF Cons c a] have rec: "turn n now e1 w1 = (e', w', out)" by simp
      have "n \<le> length (e_ready e1)" using Suc.prems(3) Cons adv(2) by simp
      note IH = Suc.IH [OF rec adv(1) this]
      show ?thesis
      proof (cases out)
        case None
        then obtain k where "e_ready e' = rotate k (ready @ [s])" using IH adv(2) by auto
        also have "\<dots> = rotate (Suc k) (e_ready e)" by (simp add: Cons rotate1_rotate_swap)
        finally show ?thesis using IH None by (simp only: option.case) blast
      next
        case (Some x)
        then obtain ys zs where r: "ready @ [s] = ys @ source_id (out_identity x) # zs"
            "e_ready e' = zs @ ys @ [source_id (out_identity x)]" "length ys < n"
          using IH adv(2) by auto
        show ?thesis
        proof (cases zs rule: rev_cases)
          case Nil
          with r have "ys = ready" by auto
          with r(3) Suc.prems(3) Cons show ?thesis by simp
        next
          case (snoc zs' z)
          with r(1) have "ready = ys @ source_id (out_identity x) # zs'" "z = s" by auto
          with r(2,3) snoc Cons have "e_ready e = (s # ys) @ source_id (out_identity x) # zs'"
              "e_ready e' = zs' @ (s # ys) @ [source_id (out_identity x)]" "length (s # ys) < Suc n"
            by simp_all
          with IH show ?thesis unfolding Some option.case by blast
        qed
      qed
    qed
  qed
qed

end
