(* ===== verification/Event_Trace.thy ===== *)
theory Event_Trace
  imports Event_Run
begin

text \<open>
  Any sequence of operations of the event recorder, with what the writer received from each camera
  since its window was last started afresh. The properties of the component are at the end.
\<close>

section \<open>Configuration\<close>

lemma get_None_iff: "bt_get m s = None \<longleftrightarrow> s \<notin> fst ` set m"
  by (simp add: bt_get_def map_of_eq_None_iff)

lemma e_ok_insert:
  assumes ok: "e_ok e" and room: "\<not> (camera_get e s = None \<and> length (e_cameras e) \<ge> MAX_CAMERAS)"
    and ready: "ready = (if camera_get e s = None then e_ready e @ [s] else e_ready e)"
  shows "e_ok (e\<lparr>e_ready := ready, e_cameras := bt_insert s (CameraWindow_new st) (e_cameras e)\<rparr>)"
proof -
  have bt: "bt_ok (e_cameras e)" using ok by (simp add: e_ok_def)
  have "length (bt_insert s (CameraWindow_new st) (e_cameras e)) \<le> MAX_CAMERAS"
    using length_bt_insert [OF bt, of s "CameraWindow_new st"] room ok
    by (auto simp: e_ok_def camera_get_def split: if_splits)
  moreover have "cw_identity (CameraWindow_new st) = None" by (simp add: CameraWindow_new_def)
  ultimately show ?thesis
    using ok ready bt_ok_insert [OF bt]
    by (auto simp: e_ok_def camera_get_def bt_get_insert set_bt_insert_keys get_None_iff split: if_splits)
qed

lemma e_ok_buffers [simp]: "e_ok (e\<lparr>e_buffers := b\<rparr>) = e_ok e"
  by (simp add: e_ok_def camera_get_def)

lemma e_ok_remove:
  assumes "e_ok e"
  shows "e_ok (e\<lparr>e_cameras := bt_remove s (e_cameras e), e_ready := filter (\<lambda>camera. camera \<noteq> s) (e_ready e), e_buffers := b\<rparr>)"
  using assms bt_ok_remove [of "e_cameras e" s] le_trans [OF length_filter_le]
  by (auto simp: e_ok_def camera_get_def bt_get_remove [unfolded bt_remove_def] bt_remove_def split: if_splits)

lemma configure_camera_cases:
  assumes "configure_camera s st e w = (e', w', ok)"
  obtains (kept) b where "\<not> ok" "e' = e\<lparr>e_buffers := b\<rparr>"
  | (removed) b where "ok" "e' = e\<lparr>e_cameras := bt_remove s (e_cameras e),
      e_ready := filter (\<lambda>camera. camera \<noteq> s) (e_ready e), e_buffers := b\<rparr>"
  | (inserted) b where "ok" "\<not> (camera_get e s = None \<and> length (e_cameras e) \<ge> MAX_CAMERAS)"
      "e' = (e\<lparr>e_buffers := b\<rparr>)\<lparr>e_ready := if camera_get e s = None then e_ready e @ [s] else e_ready e,
         e_cameras := bt_insert s (CameraWindow_new st) (e_cameras e)\<rparr>"
proof (cases "\<not> event_mode st \<or> (es_mode st = EventBoost \<and> es_pre st = 0)")
  case True
  obtain b hp where "remove_source s (e_buffers e) (w_heap (drop_camera s e w)) = (b, hp)" by fastforce
  with assms [unfolded configure_camera_def if_P [OF True] Let_def] show thesis by (intro removed [of b]) simp_all
next
  case mode: False
  let ?bad = "s = [] \<or> length s > 256 \<or> es_pre st > from_secs 30 \<or> es_post st = 0 \<or> es_post st > from_secs 3600"
  let ?full = "camera_get e s = None \<and> length (e_cameras e) \<ge> MAX_CAMERAS"
  show thesis
  proof (cases "?bad \<or> ?full")
    case True
    then have "(e', w', ok) = (e, w, False)"
      using assms unfolding configure_camera_def if_not_P [OF mode] by (cases ?bad; cases ?full) (simp_all only: if_True if_False simp_thms)
    then have "\<not> ok" "e' = e\<lparr>e_buffers := e_buffers e\<rparr>" by simp_all
    then show thesis by (rule kept)
  next
    case False
    then have nb: "\<not> ?bad" and nf: "\<not> ?full" by blast+
    obtain b0 hp0 where 0: "clear_source s (e_buffers e) (w_heap w) = (b0, hp0)" by fastforce
    obtain b hp good where 1: "(if es_pre st = 0 then (b0, hp0, True)
               else let (b, hp, ok) = configure s (selected_stream st) (es_pre st) b0 hp0 in
                    if \<not> ok then (b, hp, False)
                    else if es_mode st = EventBoost
                    then let (b, hp, ok) = configure s ''sub'' (es_pre st) b hp
                         in if \<not> ok then (b, hp, False) else (set_continuous s ''sub'' True b, hp, True)
                    else (b, hp, True)) = (b, hp, good)" by (rule prod_cases3)
    note run = assms [unfolded configure_camera_def if_not_P [OF mode] if_not_P [OF nb] if_not_P [OF nf] Let_def 0
        prod.case 1 [unfolded Let_def]]
    show thesis
    proof (cases good)
      case True
      have "e' = (e\<lparr>e_buffers := b\<rparr>)\<lparr>e_ready := if camera_get e s = None then e_ready e @ [s] else e_ready e,
          e_cameras := bt_insert s (CameraWindow_new st) (e_cameras e)\<rparr>" "ok"
        using run True by (simp_all cong: if_cong)
      with nf show thesis by (intro inserted [of b])
    next
      case False
      with run show thesis by (intro kept [of b]) simp_all
    qed
  qed
qed

lemma configure_camera_ok:
  assumes "configure_camera s st e w = (e', w', ok)" "e_ok e"
  shows "e_ok e'"
    and "camera_get e' y = Some c \<Longrightarrow> if y = s \<and> ok then c = CameraWindow_new st else camera_get e y = Some c"
proof -
  show "e_ok e'"
    using assms(1)
  proof (cases rule: configure_camera_cases)
    case (inserted b)
    show ?thesis
      using e_ok_insert [of "e\<lparr>e_buffers := b\<rparr>" s _ st] assms(2) inserted(2,3) by (simp cong: if_cong)
  qed (use assms(2) e_ok_remove in auto)
  show "if y = s \<and> ok then c = CameraWindow_new st else camera_get e y = Some c" if "camera_get e' y = Some c"
    using assms(1)
    by (cases rule: configure_camera_cases)
      (use that in \<open>auto simp: camera_get_def bt_get_insert bt_get_remove split: if_splits\<close>)
qed

section \<open>Outputs\<close>

definition of_source :: "string \<Rightarrow> EventOutput option \<Rightarrow> EventOutput list" where
  "of_source s out = (case out of None \<Rightarrow> [] | Some x \<Rightarrow> if source_id (out_identity x) = s then [x] else [])"

lemma of_source_None [simp]: "of_source s None = []"
  by (simp add: of_source_def)

lemma turn_windows:
  "turn n now e w = (e', w', out) \<Longrightarrow> e_ok e \<Longrightarrow> camera_get e' y = Some c' \<Longrightarrow>
     \<exists>c. camera_get e y = Some c \<and> wrun c (of_source y out) c'"
proof (induction n arbitrary: e w)
  case (Suc n)
  show ?case
  proof (cases "e_ready e")
    case Nil
    with Suc.prems show ?thesis by auto
  next
    case (Cons s ready)
    obtain c where c: "camera_get e s = Some c" using e_ok_get [OF Suc.prems(2), of s] Cons by auto
    obtain e1 w1 o1 where a: "advance now s c e w = (e1, w1, o1)" by (metis prod_cases3)
    note adv = advance_ok [OF Suc.prems(2) Cons c a]
    obtain d where d: "camera_next_output now c w = (d, w1, o1)"
      using a by (auto simp: advance_def split: prod.splits)
    have own: "wrun c (of_source s o1) d"
      using wrun_one [OF step_next [OF d]] adv(3) by (cases o1) (auto simp: of_source_def)
    have one: "\<exists>c. camera_get e y = Some c \<and> wrun c (of_source y o1) c1" if "camera_get e1 y = Some c1" for y c1
      using that own c adv(3) unfolding adv(4) d by (cases o1) (auto simp: of_source_def split: if_splits)
    show ?thesis
    proof (cases o1)
      case (Some x)
      with Suc.prems(1) turn_Suc [OF Cons c a] have "e' = e1" "out = o1" by auto
      with one Suc.prems(3) show ?thesis by blast
    next
      case None
      with Suc.prems(1) turn_Suc [OF Cons c a] have rec: "turn n now e1 w1 = (e', w', out)" by simp
      obtain c1 where "camera_get e1 y = Some c1" "wrun c1 (of_source y out) c'"
        using Suc.IH [OF rec adv(1) Suc.prems(3)] by blast
      with one [of y c1] None show ?thesis using wrun_trans by fastforce
    qed
  qed
qed auto

lemma next_output_pre:
  assumes "next_output now e w = (e', w', out)"
  obtains e1 w1 where "moves F e e1" "turn (length (e_ready e1)) now e1 w1 = (e', w', out)"
proof -
  obtain b hp where 0: "expire now (e_buffers e) (w_heap w) = (b, hp)" by fastforce
  obtain e1 w1 where 1: "release_continuous (e\<lparr>e_buffers := b\<rparr>) (w\<lparr>w_heap := hp\<rparr>) = (e1, w1)" by fastforce
  have "moves F e e1" using release_continuous_moves [OF 1] by simp
  with that assms 0 1 show thesis by (simp add: next_output_def)
qed

section \<open>Fresh windows\<close>

text \<open>The inputs that restart a camera's window: rejected ones, except for the optional main stream.\<close>

definition restarts_window :: "Decoders \<Rightarrow> RecordingStreamIdentity \<Rightarrow> QueuedEventFrame \<Rightarrow> instant \<Rightarrow> EventRecordings \<Rightarrow> bool" where
  "restarts_window D i input now e \<longleftrightarrow>
     \<not> is_some_and (camera_get e (source_id i)) (\<lambda>c. es_mode (cw_settings c) = EventOnly
           \<and> stream_id i \<noteq> selected_stream (cw_settings c))
     \<and> malformed D i (q_frame input) now e \<and> \<not> boosted i e"

definition fresh :: "CameraWindow \<Rightarrow> bool" where
  "fresh c \<longleftrightarrow> (\<exists>st. wrun (CameraWindow_new st) [] c)"

lemma reset_fresh: "reset s e w = (e', w') \<Longrightarrow> camera_get e' s = Some c \<Longrightarrow> fresh c"
  unfolding fresh_def reset_def
  by (auto simp: Let_def camera_get_set same_core_def split: prod.splits option.splits
      intro!: exI wrun_one [OF step_fields])

lemma fresh_status: "fresh c \<Longrightarrow> fresh (c\<lparr>cw_status := x\<rparr>)"
proof -
  assume "fresh c"
  moreover have "same_core c (c\<lparr>cw_status := x\<rparr>)" by (simp add: same_core_def)
  ultimately show ?thesis unfolding fresh_def using wrun_silent [OF _ step_fields] by blast
qed

lemma fail_fresh:
  assumes "fail s r e w = (e', w')" "camera_get e' s = Some c"
  shows "fresh c"
proof -
  obtain e1 w1 where 1: "reset s e w = (e1, w1)" by fastforce
  show ?thesis
  proof (cases "camera_get e1 s")
    case None
    with assms 1 show ?thesis by (simp add: fail_def)
  next
    case (Some d)
    with assms 1 camera_get_set [OF Some] have "c = d\<lparr>cw_status := (cw_status d)\<lparr>st_reason := r\<rparr>\<rparr>"
      by (auto simp: fail_def)
    with reset_fresh [OF 1 Some] fresh_status show ?thesis by blast
  qed
qed

lemma validate_restart:
  assumes run: "validate D i f now e w = (e', w', ok)" and bad: "malformed D i f now e" and plain: "\<not> boosted i e"
  shows "\<not> ok \<and> (\<exists>r e2. fail (source_id i) r e2 w = (e', w'))"
proof -
  let ?s = "source_id i" and ?n = "if stream_id i = ''main'' then 0 else 1 :: nat"
  obtain c where c: "camera_get e ?s = Some c" and stream: "stream_id i = ''main'' \<or> stream_id i = ''sub''"
    using bad by (cases "camera_get e ?s") (auto simp: malformed_def Let_def)
  let ?c2 = "c\<lparr>cw_last_input := (cw_last_input c)[?n := Some (received_at f)]\<rparr>"
  let ?e2 = "camera_set ?s ?c2 e"
  have "reject_input i r e w = fail ?s r e w" "reject_input i r ?e2 w = fail ?s r ?e2 w" for r
    using plain c camera_get_set [OF c] by (auto simp: reject_input_def boosted_def)
  note rej = this
  show ?thesis
  proof (cases "received_at f > now \<or> is_some_and (cw_last_input c ! ?n) (\<lambda>last. received_at f < last)")
    case True
    with run c stream rej show ?thesis by (auto simp: validate_def Let_def split: prod.splits)
  next
    case False
    with bad c obtain v x where "media f = Video v" "v_is_keyframe v" "required_video_media_config (d_parsers D) v = Inl x"
      by (auto simp: malformed_def Let_def split: MediaFrame.splits sum.splits)
    with False run c stream rej show ?thesis by (auto simp: validate_def Let_def split: prod.splits if_splits)
  qed
qed

lemma ingest_restart:
  assumes "ingest D i input now e w = (e', w')" "restarts_window D i input now e"
    "camera_get e' (source_id i) = Some c"
  shows "fresh c"
proof -
  obtain e1 w1 ok where v: "validate D i (q_frame input) now e w = (e1, w1, ok)" by (metis prod_cases3)
  with assms(2) validate_restart [OF v] obtain r e2 where no: "\<not> ok" and f: "fail (source_id i) r e2 w = (e1, w1)"
    by (auto simp: restarts_window_def)
  from assms(1,2) v no have "e' = e1" by (simp add: restarts_window_def ingest_def Let_def)
  with fail_fresh [OF f] assms(3) show ?thesis by simp
qed

section \<open>Any sequence of operations\<close>

text \<open>
  The worker that owns the recorder calls its operations one at a time, in any order. Between two
  calls the producers and the writer change the shared counters (\<open>Elsewhere\<close>). \<open>ev_since s\<close>
  collects what the writer got from camera \<open>s\<close> since its window was last started afresh.
\<close>

record EventState =
  ev_recorder :: EventRecordings
  ev_world :: World
  ev_since :: "string \<Rightarrow> EventOutput list"

datatype EventOp =
  ConfigureCamera string EventSettings
| Ingest RecordingStreamIdentity QueuedEventFrame instant
| NoteEvent string instant
| NextOutput instant
| QueryStatus string instant
| DropMainHistory string
| ResetCamera string
| FailCamera string PreRecordReason
| BeginShutdown instant
| Elsewhere World

definition afresh :: "string \<Rightarrow> bool \<Rightarrow> EventRecordings \<times> World \<Rightarrow> EventState \<Rightarrow> EventState" where
  "afresh s started r st =
     st\<lparr>ev_recorder := fst r, ev_world := snd r,
        ev_since := (if started then (ev_since st)(s := []) else ev_since st)\<rparr>"

definition collect :: "EventOutput option \<Rightarrow> (string \<Rightarrow> EventOutput list) \<Rightarrow> string \<Rightarrow> EventOutput list" where
  "collect out since = (\<lambda>s. since s @ of_source s out)"

fun event_step :: "Decoders \<Rightarrow> EventState \<Rightarrow> EventOp \<Rightarrow> EventState" where
  "event_step D st (ConfigureCamera s settings) =
     (let (e, w, ok) = configure_camera s settings (ev_recorder st) (ev_world st) in afresh s ok (e, w) st)"
| "event_step D st (Ingest i input now) =
     afresh (source_id i) (restarts_window D i input now (ev_recorder st))
       (ingest D i input now (ev_recorder st) (ev_world st)) st"
| "event_step D st (NoteEvent s now) = afresh s False (note_event s now (ev_recorder st) (ev_world st)) st"
| "event_step D st (NextOutput now) =
     (let (e, w, out) = next_output now (ev_recorder st) (ev_world st)
      in st\<lparr>ev_recorder := e, ev_world := w, ev_since := collect out (ev_since st)\<rparr>)"
| "event_step D st (QueryStatus s now) =
     (let (e, w, _) = status s now (ev_recorder st) (ev_world st) in afresh s False (e, w) st)"
| "event_step D st (DropMainHistory s) = afresh s False (drop_main_history s (ev_recorder st) (ev_world st)) st"
| "event_step D st (ResetCamera s) = afresh s True (reset s (ev_recorder st) (ev_world st)) st"
| "event_step D st (FailCamera s r) = afresh s True (fail s r (ev_recorder st) (ev_world st)) st"
| "event_step D st (BeginShutdown now) = afresh [] False (begin_shutdown now (ev_recorder st) (ev_world st)) st"
| "event_step D st (Elsewhere w) = st\<lparr>ev_world := w\<rparr>"

definition event_init :: "usize \<Rightarrow> usize \<Rightarrow> World \<Rightarrow> EventState" where
  "event_init stream_bytes global_bytes w =
     (let (e, hp) = EventRecordings_new stream_bytes global_bytes (w_heap w)
      in \<lparr>ev_recorder = e, ev_world = w\<lparr>w_heap := hp\<rparr>, ev_since = \<lambda>_. []\<rparr>)"

definition event_run :: "Decoders \<Rightarrow> usize \<Rightarrow> usize \<Rightarrow> World \<Rightarrow> EventOp list \<Rightarrow> EventState" where
  "event_run D stream_bytes global_bytes w ops = foldl (event_step D) (event_init stream_bytes global_bytes w) ops"

definition well_received :: "EventOutput list \<Rightarrow> bool" where
  "well_received xs \<longleftrightarrow> sorted_wrt (<) (map received_at (out_videos xs)) \<and> (\<forall>f \<in> set (openers False xs). is_video_keyframe f)"

definition event_inv :: "EventState \<Rightarrow> bool" where
  "event_inv st \<longleftrightarrow> e_ok (ev_recorder st) \<and> (\<forall>s. well_received (ev_since st s))
     \<and> (\<forall>s c. camera_get (ev_recorder st) s = Some c \<longrightarrow> (\<exists>x. wrun (CameraWindow_new x) (ev_since st s) c))"

lemma well_received_Nil [simp]: "well_received []"
  by (simp add: well_received_def out_videos_def)

lemma event_inv_window:
  "event_inv st \<Longrightarrow> camera_get (ev_recorder st) s = Some c \<Longrightarrow> \<exists>x. wrun (CameraWindow_new x) (ev_since st s) c"
  unfolding event_inv_def by blast

lemma afresh_inv:
  assumes inv: "event_inv st" and m: "moves (if started then {s} else {}) (ev_recorder st) (fst r)"
    and fresh: "\<And>c. started \<Longrightarrow> camera_get (fst r) s = Some c \<Longrightarrow> fresh c"
  shows "event_inv (afresh s started r st)"
proof -
  have "\<exists>x. wrun (CameraWindow_new x) (ev_since (afresh s started r st) y) c" if c: "camera_get (fst r) y = Some c" for y c
  proof (cases "started \<and> y = s")
    case True
    with fresh c show ?thesis by (auto simp: afresh_def fresh_def)
  next
    case False
    obtain c0 where "camera_get (ev_recorder st) y = Some c0" "wrun c0 [] c"
      using moves_get [OF m c] False by (auto simp: crel_def split: if_splits)
    with event_inv_window [OF inv] obtain x where "wrun (CameraWindow_new x) (ev_since st y) c" 
      using wrun_trans [of c0 "[]" c] by (metis append_Nil2)
    moreover have "ev_since (afresh s started r st) y = ev_since st y" using False by (auto simp: afresh_def)
    ultimately show ?thesis by auto
  qed
  moreover have "e_ok (fst r)" using inv moves_ok [OF m] by (simp add: event_inv_def)
  ultimately show ?thesis using inv by (auto simp: event_inv_def afresh_def)
qed

lemmas afresh_silent = afresh_inv [where started = False, simplified]
lemmas afresh_started = afresh_inv [where started = True, simplified]

lemma configure_camera_inv:
  assumes inv: "event_inv st" and run: "configure_camera s x (ev_recorder st) (ev_world st) = (e, w, ok)"
  shows "event_inv (afresh s ok (e, w) st)"
proof -
  have e: "e_ok (ev_recorder st)" using inv by (simp add: event_inv_def)
  have "\<exists>x. wrun (CameraWindow_new x) (ev_since (afresh s ok (e, w) st) y) c" if "camera_get e y = Some c" for y c
    using configure_camera_ok(2) [OF run e that] event_inv_window [OF inv]
    by (auto simp: afresh_def intro: exI [of _ x] split: if_splits)
  then show ?thesis using inv configure_camera_ok(1) [OF run e] by (auto simp: event_inv_def afresh_def)
qed

lemma next_output_inv:
  assumes inv: "event_inv st" and run: "next_output now (ev_recorder st) (ev_world st) = (e, w, out)"
  shows "event_inv (st\<lparr>ev_recorder := e, ev_world := w, ev_since := collect out (ev_since st)\<rparr>)"
proof -
  obtain e1 w1 where m: "moves {} (ev_recorder st) e1" and t: "turn (length (e_ready e1)) now e1 w1 = (e, w, out)"
    using next_output_pre [OF run] by blast
  have ok1: "e_ok e1" using inv moves_ok [OF m] by (simp add: event_inv_def)
  have rot: "e_ok e" "out = Some x \<Longrightarrow> source_id (out_identity x) \<in> set (e_ready e)" for x
    using turn_rotates [OF t ok1] by auto
  have win: "\<exists>x. wrun (CameraWindow_new x) (collect out (ev_since st) y) c" if c: "camera_get e y = Some c" for y c
  proof -
    obtain c1 where c1: "camera_get e1 y = Some c1" "wrun c1 (of_source y out) c" using turn_windows [OF t ok1 c] by blast
    obtain c0 where c0: "camera_get (ev_recorder st) y = Some c0" "wrun c0 [] c1"
      using moves_get [OF m c1(1)] by (auto simp: crel_def)
    have "wrun c0 (of_source y out) c" using wrun_trans [OF c1(2) c0(2)] by simp
    moreover obtain x where "wrun (CameraWindow_new x) (ev_since st y) c0" using event_inv_window [OF inv c0(1)] by blast
    ultimately show ?thesis using wrun_trans by (fastforce simp: collect_def)
  qed
  moreover have "well_received (collect out (ev_since st) y)" for y
  proof (cases "of_source y out")
    case Nil
    with inv show ?thesis by (simp add: event_inv_def collect_def)
  next
    case (Cons x xs)
    then have "y \<in> set (e_ready e)" using rot(2) by (auto simp: of_source_def split: option.splits if_splits)
    then obtain c where "camera_get e y = Some c" using e_ok_get [OF rot(1)] by blast
    with win wrun_new show ?thesis unfolding well_received_def by blast
  qed
  ultimately show ?thesis using rot(1) by (simp add: event_inv_def)
qed

interpretation event: machine "event_step D" event_inv for D
proof
  fix st x
  assume inv: "event_inv st"
  show "event_inv (event_step D st x)"
  proof (cases x)
    case (Ingest i input now)
    obtain e w where run: "ingest D i input now (ev_recorder st) (ev_world st) = (e, w)" by fastforce
    show ?thesis
    proof (cases "restarts_window D i input now (ev_recorder st)")
      case True
      with Ingest run inv show ?thesis
        using ingest_moves [OF run, of "{source_id i}"] ingest_restart [OF run True] by (auto intro: afresh_started)
    next
      case False
      have "moves {} (ev_recorder st) e"
        using False ingest_moves [OF run, of "{}"] run
        by (cases "malformed D i (q_frame input) now (ev_recorder st) \<and> \<not> boosted i (ev_recorder st)")
          (auto simp: restarts_window_def ingest_def)
      with Ingest False run inv show ?thesis by (auto intro: afresh_silent)
    qed
  next
    case (ConfigureCamera s y)
    with inv show ?thesis by (auto intro: configure_camera_inv split: prod.splits)
  next
    case (NextOutput now)
    with inv show ?thesis by (auto intro: next_output_inv split: prod.splits)
  next
    case (ResetCamera s)
    obtain e w where "reset s (ev_recorder st) (ev_world st) = (e, w)" by fastforce
    with ResetCamera inv show ?thesis using reset_moves reset_fresh by (fastforce intro: afresh_started)
  next
    case (FailCamera s r)
    obtain e w where "fail s r (ev_recorder st) (ev_world st) = (e, w)" by fastforce
    with FailCamera inv show ?thesis using fail_moves fail_fresh by (fastforce intro: afresh_started)
  next
    case (NoteEvent s now)
    obtain e w where "note_event s now (ev_recorder st) (ev_world st) = (e, w)" by fastforce
    with NoteEvent inv show ?thesis using note_event_moves by (auto intro: afresh_silent)
  next
    case (QueryStatus s now)
    obtain e w y where "status s now (ev_recorder st) (ev_world st) = (e, w, y)" by (metis prod_cases3)
    with QueryStatus inv show ?thesis using status_moves by (auto intro!: afresh_silent)
  next
    case (DropMainHistory s)
    obtain e w where "drop_main_history s (ev_recorder st) (ev_world st) = (e, w)" by fastforce
    with DropMainHistory inv show ?thesis
      using invalidate_main_history_moves by (auto simp: drop_main_history_def intro: afresh_silent)
  next
    case (BeginShutdown now)
    obtain e w where "begin_shutdown now (ev_recorder st) (ev_world st) = (e, w)" by fastforce
    with BeginShutdown inv show ?thesis using begin_shutdown_moves by (auto intro: afresh_silent)
  qed (use inv in \<open>simp add: event_inv_def\<close>)
qed

lemma event_run_inv: "event_inv (event_run D sb gb w ops)"
  unfolding event_run_def
  by (rule event.run_inv)
    (auto simp: event_init_def EventRecordings_new_def event_inv_def e_ok_def camera_get_def split: prod.splits)

section \<open>The release loop runs to its end\<close>

lemma released_count_update:
  assumes "nested_ok (p_streams b)" "nested_get (p_streams b) (s, t) = Some h" "h_released h = f # fs"
  shows "released_count b = Suc (released_count (stream_set s t (h\<lparr>h_released := fs\<rparr>) b))"
proof -
  let ?n = "\<lambda>e :: (string \<times> string) \<times> StreamHistory. length (h_released (snd e))"
  let ?m = "nested_update (s, t) (h\<lparr>h_released := fs\<rparr>) (p_streams b)"
  have sum: "sum_list (map ?n es) = sum_mset (image_mset ?n (mset es))" for es
    by (metis mset_map sum_mset_sum_list)
  have "sum_mset (image_mset ?n (add_mset ((s, t), h) (mset (nested_entries ?m))))
      = sum_mset (image_mset ?n (add_mset ((s, t), h\<lparr>h_released := fs\<rparr>) (mset (nested_entries (p_streams b)))))"
    by (simp only: nested.upd_over [OF assms(1,2)])
  then show ?thesis using assms(3) by (simp add: released_count_def sum stream_set_def)
qed

lemma first_released_None: "first_released es = None \<Longrightarrow> sum_list (map (\<lambda>e. length (h_released (snd e))) es) = 0"
  by (induction es rule: first_released.induct) (auto split: list.splits)

lemma next_released_count:
  assumes "next_released b = (b', r)" "nested_ok (p_streams b)"
  shows "nested_ok (p_streams b') \<and> (case r of None \<Rightarrow> b' = b \<and> released_count b = 0 | Some _ \<Rightarrow> released_count b = Suc (released_count b'))"
proof (cases "first_released (nested_entries (p_streams b))")
  case None
  with assms first_released_None [OF None] show ?thesis by (auto simp: next_released_def released_count_def)
next
  case (Some x)
  then obtain s t h f fs where x: "first_released (nested_entries (p_streams b)) = Some ((s, t), h, f, fs)"
    by (metis prod_cases5 surj_pair)
  have h: "nested_get (p_streams b) (s, t) = Some h" "h_released h = f # fs"
    using first_released_Some [OF x] nested.entries_get [OF assms(2)] by simp_all
  have "b' = stream_set s t (h\<lparr>h_released := fs\<rparr>) b" "r = Some (s, t, f)"
    using assms(1) x by (auto simp: next_released_def)
  with released_count_update [OF assms(2) h] nested.ok_upd [OF assms(2) h(1)] show ?thesis
    by (simp add: stream_set_def)
qed

text \<open>One turn of the loop.\<close>

lemma release_loop_turn:
  assumes "release_loop (Suc n) e w = (e', w')" "next_released (e_buffers e) = (b, Some (source, stream, f))"
  obtains e2 w2 where "e_buffers e2 = b" "release_loop n e2 w2 = (e', w')"
    "camera_get e2 = camera_get e
     \<or> (\<exists>c. camera_get e source = Some c \<and> camera_get e2 = (camera_get e)(source \<mapsto> fst (select (History f) c w)))"
proof -
  define e1 where "e1 = e\<lparr>e_buffers := b\<rparr>"
  obtain e2 w2 where step: "(case camera_get e1 source of
      Some c \<Rightarrow> if \<not> cw_main_active c then let (c, w) = select (History f) c w in (camera_set source c e1, w)
                else (e1, on_heap (drop_frames [f]) w)
    | None \<Rightarrow> (e1, on_heap (drop_frames [f]) w)) = (e2, w2)" by fastforce
  have "release_loop n e2 w2 = (e', w')"
    using assms step by (simp add: Let_def flip: e1_def)
  moreover have "e_buffers e2 = b"
    using step by (auto simp: e1_def camera_set_def split: option.splits if_splits prod.splits)
  moreover have "camera_get e2 = camera_get e
     \<or> (\<exists>c. camera_get e source = Some c \<and> camera_get e2 = (camera_get e)(source \<mapsto> fst (select (History f) c w)))"
  proof (cases "\<exists>c. camera_get e1 source = Some c \<and> \<not> cw_main_active c")
    case True
    then obtain c where c: "camera_get e1 source = Some c" "\<not> cw_main_active c" by blast
    with step have "e2 = camera_set source (fst (select (History f) c w)) e1" by (auto split: prod.splits)
    with c(1) show ?thesis using camera_get_set [OF c(1)] by (auto simp: e1_def fun_eq_iff)
  next
    case False
    with step have "e2 = e1" by (auto split: option.splits if_splits)
    then show ?thesis by (auto simp: e1_def fun_eq_iff)
  qed
  ultimately show thesis using that by blast
qed

lemma release_loop_empties:
  "release_loop n e w = (e', w') \<Longrightarrow> nested_ok (p_streams (e_buffers e)) \<Longrightarrow> released_count (e_buffers e) = n \<Longrightarrow>
     released_count (e_buffers e') = 0"
proof (induction n arbitrary: e w)
  case (Suc n)
  obtain b r where nr: "next_released (e_buffers e) = (b, r)" by (cases "next_released (e_buffers e)")
  note count = next_released_count [OF nr Suc.prems(2)]
  show ?case
  proof (cases r)
    case None
    with count Suc.prems(3) show ?thesis by simp
  next
    case (Some x)
    then obtain source stream f where r: "r = Some (source, stream, f)" by (cases x) auto
    obtain e2 w2 where "e_buffers e2 = b" "release_loop n e2 w2 = (e', w')"
      by (rule release_loop_turn [OF Suc.prems(1) nr [unfolded r]])
    then show ?thesis using Suc.IH [of e2 w2] count Suc.prems(3) r by simp
  qed
qed simp

section \<open>Service\<close>

text \<open>
  The entries that \<open>drain\<close> hands out: a finish marker, video, and audio that does not reach past the
  last video frame. Audio that does is in the way until the deadline has passed, and is dropped then.
\<close>

definition writable :: "instant option \<Rightarrow> PendingFrame \<Rightarrow> bool" where
  "writable last_video p = (case pending_frame p of
     None \<Rightarrow> True
   | Some f \<Rightarrow> (case media f of
       Video _ \<Rightarrow> True
     | Audio a \<Rightarrow> is_some_and (audio_end f a) (\<lambda>end. is_some_and last_video (\<lambda>video. end \<le> video))))"

definition ends :: "PendingFrame \<Rightarrow> bool" where
  "ends p = (case pending_frame p of
     None \<Rightarrow> True
   | Some f \<Rightarrow> (case media f of Video _ \<Rightarrow> True | Audio a \<Rightarrow> audio_end f a \<noteq> None))"

fun reaches :: "bool \<Rightarrow> instant option \<Rightarrow> PendingFrame list \<Rightarrow> bool" where
  "reaches due last_video [] = False"
| "reaches due last_video (p # ps) = (writable last_video p \<or> (due \<and> ends p \<and> reaches due last_video ps))"

definition has_output :: "instant \<Rightarrow> CameraWindow \<Rightarrow> bool" where
  "has_output now c \<longleftrightarrow> cw_identity c \<noteq> None
     \<and> reaches (is_some_and (cw_deadline c) (\<lambda>deadline. now \<ge> deadline)) (cw_last_video c) (cw_pending c)"

lemma writable_mono:
  "writable v p \<Longrightarrow> (\<And>t. v = Some t \<Longrightarrow> is_some_and v' (\<lambda>t'. t \<le> t')) \<Longrightarrow> writable v' p"
  by (cases v; cases v')
    (auto simp: writable_def is_some_and_def split: option.splits MediaFrame.splits)

lemma reaches_mono:
  "reaches due v ps \<Longrightarrow> (due \<Longrightarrow> due') \<Longrightarrow> (\<And>t. v = Some t \<Longrightarrow> is_some_and v' (\<lambda>t'. t \<le> t')) \<Longrightarrow> reaches due' v' (ps @ qs)"
proof (induction ps)
  case (Cons p ps)
  then show ?case using writable_mono [of v p v'] by auto
qed simp

lemma has_output_later: "has_output now c \<Longrightarrow> now \<le> later \<Longrightarrow> has_output later c"
  using reaches_mono [of _ "cw_last_video c" "cw_pending c" _ "cw_last_video c" "[]"]
  by (cases "cw_deadline c") (auto simp: has_output_def)

text \<open>What \<open>drain\<close> does with the entry in front.\<close>

lemma drain_turn:
  assumes "cw_pending c = p # ps"
  shows "writable (cw_last_video c) p \<Longrightarrow> snd (snd (drain i now c w)) \<noteq> None"
    and "\<not> writable (cw_last_video c) p \<Longrightarrow> snd (snd (drain i now c w))
      = (if ends p \<and> is_some_and (cw_deadline c) (\<lambda>deadline. now \<ge> deadline)
         then snd (snd (drain i now (c\<lparr>cw_pending := ps\<rparr>) (drop_pending p w))) else None)"
proof -
  have "(writable (cw_last_video c) p \<longrightarrow> snd (snd (drain i now c w)) \<noteq> None)
    \<and> (\<not> writable (cw_last_video c) p \<longrightarrow> snd (snd (drain i now c w))
      = (if ends p \<and> is_some_and (cw_deadline c) (\<lambda>deadline. now \<ge> deadline)
         then snd (snd (drain i now (c\<lparr>cw_pending := ps\<rparr>) (drop_pending p w))) else None))"
  proof (cases "pending_frame p")
    case None
    with assms show ?thesis by (cases p) (simp_all add: drain.simps [of i now c] writable_def)
  next
    case (Some f)
    obtain w1 x where "into_frame p w = (w1, Some (f, x))" using Some by (cases p) auto
    note turn = drain_frame [OF assms Some this, of i now]
    show ?thesis
    proof (cases "media f")
      case (Audio a)
      with Some turn show ?thesis
        by (cases "audio_end f a"; cases "cw_last_video c") (simp_all add: Let_def writable_def ends_def)
    qed (use Some turn in \<open>simp add: Let_def writable_def\<close>)
  qed
  then show "writable (cw_last_video c) p \<Longrightarrow> snd (snd (drain i now c w)) \<noteq> None"
    and "\<not> writable (cw_last_video c) p \<Longrightarrow> snd (snd (drain i now c w))
      = (if ends p \<and> is_some_and (cw_deadline c) (\<lambda>deadline. now \<ge> deadline)
         then snd (snd (drain i now (c\<lparr>cw_pending := ps\<rparr>) (drop_pending p w))) else None)" by blast+
qed

lemma drain_reaches:
  "reaches (is_some_and (cw_deadline c) (\<lambda>deadline. now \<ge> deadline)) (cw_last_video c) (cw_pending c) \<Longrightarrow>
     snd (snd (drain i now c w)) \<noteq> None"
proof (induction "cw_pending c" arbitrary: c w)
  case (Cons p ps)
  show ?case
  proof (cases "writable (cw_last_video c) p")
    case True
    with drain_turn(1) [OF Cons.hyps(2) [symmetric]] show ?thesis by blast
  next
    case False
    with Cons.prems have "ends p" "is_some_and (cw_deadline c) (\<lambda>deadline. now \<ge> deadline)"
      "reaches (is_some_and (cw_deadline c) (\<lambda>deadline. now \<ge> deadline)) (cw_last_video c) ps"
      by (auto simp flip: Cons.hyps(2))
    with drain_turn(2) [OF Cons.hyps(2) [symmetric] False] Cons.hyps(1) [of "c\<lparr>cw_pending := ps\<rparr>" "drop_pending p w"]
    show ?thesis by simp
  qed
qed simp

text \<open>Conversely, what \<open>drain\<close> takes from the pending entries can be reached.\<close>

lemma drain_taken:
  "snd (snd (drain i now c w)) = Some x \<Longrightarrow> (\<exists>j f y. x = OutFrame j f y) \<or> (\<exists>end. Finish end \<in> set (cw_pending c)) \<Longrightarrow>
     reaches (is_some_and (cw_deadline c) (\<lambda>deadline. now \<ge> deadline)) (cw_last_video c) (cw_pending c)"
proof (induction "cw_pending c" arbitrary: c w)
  case Nil
  then show ?case by (auto simp: drain.simps [of i now c] finish_if_due_def Let_def split: prod.splits option.splits if_splits)
next
  case (Cons p ps)
  show ?case
  proof (cases "writable (cw_last_video c) p")
    case True
    then show ?thesis by (simp flip: Cons.hyps(2))
  next
    case False
    note turn = drain_turn(2) [OF Cons.hyps(2) [symmetric] False, of i now w]
    have due: "ends p" "is_some_and (cw_deadline c) (\<lambda>deadline. now \<ge> deadline)"
      "snd (snd (drain i now (c\<lparr>cw_pending := ps\<rparr>) (drop_pending p w))) = Some x"
      using turn Cons.prems(1) by (simp_all split: if_splits)
    have "p \<noteq> Finish end" for "end" using False by (auto simp: writable_def)
    then have "(\<exists>j f y. x = OutFrame j f y) \<or> (\<exists>end. Finish end \<in> set ps)"
      using Cons.prems(2) by (auto simp flip: Cons.hyps(2))
    with Cons.hyps(1) [of "c\<lparr>cw_pending := ps\<rparr>" "drop_pending p w"] due show ?thesis by (simp flip: Cons.hyps(2))
  qed
qed

lemma has_output_next: "has_output now c \<Longrightarrow> snd (snd (camera_next_output now c w)) \<noteq> None"
  using drain_reaches by (auto simp: has_output_def camera_next_output_def)

lemma next_has_output:
  assumes "snd (snd (camera_next_output now c w)) = Some x"
    "(\<exists>j f y. x = OutFrame j f y) \<or> (\<exists>end. Finish end \<in> set (cw_pending c))"
  shows "has_output now c"
  using assms drain_taken [OF _ assms(2), of _ now w]
  by (auto simp: has_output_def camera_next_output_def Let_def split: option.splits if_splits)

text \<open>A frame selected later does not take the output away.\<close>

lemma select_grows:
  "\<exists>qs. cw_pending (fst (select p c w)) = cw_pending c @ qs"
  "cw_identity (fst (select p c w)) = cw_identity c"
  "cw_deadline (fst (select p c w)) = cw_deadline c"
  "cw_last_video c = Some t \<Longrightarrow> is_some_and (cw_last_video (fst (select p c w))) (\<lambda>t'. t \<le> t')"
  by (auto simp: select_def Let_def split: option.splits MediaFrame.splits)

lemma select_has_output:
  assumes "has_output now c"
  shows "has_output now (fst (select p c w))"
proof -
  obtain qs where "cw_pending (fst (select p c w)) = cw_pending c @ qs" using select_grows(1) by blast
  then have "reaches due (cw_last_video c) (cw_pending c) \<Longrightarrow>
      reaches due (cw_last_video (fst (select p c w))) (cw_pending (fst (select p c w)))" for due
    using reaches_mono [of due "cw_last_video c" "cw_pending c" due] select_grows(4) by metis
  with assms show ?thesis by (simp add: has_output_def select_grows(2,3))
qed

lemma release_loop_has_output:
  "release_loop n e w = (e', w') \<Longrightarrow> is_some_and (camera_get e s) (has_output now) \<Longrightarrow> is_some_and (camera_get e' s) (has_output now)"
proof (induction n arbitrary: e w)
  case (Suc n)
  obtain b r where nr: "next_released (e_buffers e) = (b, r)" by (cases "next_released (e_buffers e)")
  show ?case
  proof (cases r)
    case None
    with nr Suc.prems show ?thesis by auto
  next
    case (Some x)
    then obtain source stream f where r: "r = Some (source, stream, f)" by (cases x) auto
    obtain e2 w2 where rec: "release_loop n e2 w2 = (e', w')" and get: "camera_get e2 = camera_get e
     \<or> (\<exists>c. camera_get e source = Some c \<and> camera_get e2 = (camera_get e)(source \<mapsto> fst (select (History f) c w)))"
      by (rule release_loop_turn [OF Suc.prems(1) nr [unfolded r]])
    have "is_some_and (camera_get e2 s) (has_output now)"
      using get Suc.prems(2) select_has_output by (cases "s = source") auto
    with Suc.IH [OF rec] show ?thesis by blast
  qed
qed simp

text \<open>A pass serves the camera, or one in front of it: then it is nearer to the front.\<close>

lemma turn_serves:
  "turn n now e w = (e', w', out) \<Longrightarrow> e_ok e \<Longrightarrow> e_ready e = ys @ s # zs \<Longrightarrow> length ys < n \<Longrightarrow>
   camera_get e s = Some c \<Longrightarrow> has_output now c \<Longrightarrow>
     \<exists>x. out = Some x \<and> (source_id (out_identity x) = s
       \<or> (\<exists>ys' zs'. length ys' < length ys \<and> e_ready e' = ys' @ s # zs' \<and> camera_get e' s = Some c))"
proof (induction n arbitrary: e w ys zs)
  case (Suc n)
  show ?case
  proof (cases ys)
    case Nil
    with Suc.prems have r: "e_ready e = s # zs" by simp
    obtain e1 w1 o1 where a: "advance now s c e w = (e1, w1, o1)" by (metis prod_cases3)
    note adv = advance_ok [OF Suc.prems(2) r Suc.prems(5) a]
    have "o1 \<noteq> None" using a has_output_next [OF Suc.prems(6), of w] by (auto simp: advance_def split: prod.splits)
    with Suc.prems(1) turn_Suc [OF r Suc.prems(5) a] adv(3) show ?thesis by auto
  next
    case (Cons y ys1)
    with Suc.prems have r: "e_ready e = y # (ys1 @ s # zs)" by simp
    have "y \<noteq> s" using Suc.prems(2) r by (auto simp: e_ok_def)
    obtain d where d: "camera_get e y = Some d" using e_ok_get [OF Suc.prems(2), of y] r by auto
    obtain e1 w1 o1 where a: "advance now y d e w = (e1, w1, o1)" by (metis prod_cases3)
    note adv = advance_ok [OF Suc.prems(2) r d a]
    have s: "camera_get e1 s = Some c" using adv(4) [of s] \<open>y \<noteq> s\<close> Suc.prems(5) by simp
    have ready: "e_ready e1 = ys1 @ s # (zs @ [y])" using adv(2) by simp
    show ?thesis
    proof (cases o1)
      case (Some x)
      with Suc.prems(1) turn_Suc [OF r d a] have "e' = e1" "out = Some x" by auto
      with s ready Cons show ?thesis by (metis length_Cons lessI)
    next
      case None
      with Suc.prems(1) turn_Suc [OF r d a] have rec: "turn n now e1 w1 = (e', w', out)" by simp
      have "length ys1 < n" using Suc.prems(4) Cons by simp
      from Suc.IH [OF rec adv(1) ready this s Suc.prems(6)] Cons show ?thesis
        by (metis length_Cons less_SucI)
    qed
  qed
qed simp

text \<open>Successive calls of \<open>next_output\<close>; each finds the shared counters as the other threads left them.\<close>

primrec serve :: "(instant \<times> World) list \<Rightarrow> EventRecordings \<Rightarrow> EventOutput option list" where
  "serve [] e = []"
| "serve (call # calls) e = (let (e', _, out) = next_output (fst call) e (snd call) in out # serve calls e')"

lemma serve_reaches:
  "e_ok e \<Longrightarrow> e_ready e = ys @ s # zs \<Longrightarrow> is_some_and (camera_get e s) (has_output now) \<Longrightarrow> length ys < length calls \<Longrightarrow>
   (\<And>call. call \<in> set calls \<Longrightarrow> now \<le> fst call) \<Longrightarrow>
     \<exists>x. Some x \<in> set (serve calls e) \<and> source_id (out_identity x) = s"
proof (induction calls arbitrary: e ys zs)
  case (Cons call calls)
  obtain e' w' out where n: "next_output (fst call) e (snd call) = (e', w', out)" by (metis prod_cases3)
  obtain b hp where 0: "expire (fst call) (e_buffers e) (w_heap (snd call)) = (b, hp)" by fastforce
  obtain e1 w1 where 1: "release_continuous (e\<lparr>e_buffers := b\<rparr>) ((snd call)\<lparr>w_heap := hp\<rparr>) = (e1, w1)" by fastforce
  have m: "moves {} e e1" using release_continuous_moves [OF 1] by simp
  have t: "turn (length (e_ready e1)) (fst call) e1 w1 = (e', w', out)" using n 0 1 by (simp add: next_output_def)
  have ready: "e_ready e1 = ys @ s # zs" using m Cons.prems(2) by (simp add: moves_def)
  obtain c where c: "camera_get e1 s = Some c" "has_output now c"
    using release_loop_has_output [OF 1 [unfolded release_continuous_def], of s] Cons.prems(3)
    by (cases "camera_get e1 s") auto
  have ok1: "e_ok e1" by (rule moves_ok [OF m Cons.prems(1)])
  have "length ys < length (e_ready e1)" by (simp add: ready)
  moreover have "has_output (fst call) c" using has_output_later [OF c(2)] Cons.prems(5) by simp
  ultimately obtain x where x: "out = Some x" "source_id (out_identity x) = s
       \<or> (\<exists>ys' zs'. length ys' < length ys \<and> e_ready e' = ys' @ s # zs' \<and> camera_get e' s = Some c)"
    using turn_serves [OF t ok1 ready _ c(1)] by blast
  have ok': "e_ok e'" using turn_rotates [OF t ok1] by simp
  have serve: "serve (call # calls) e = out # serve calls e'" using n by simp
  show ?case
  proof (cases "source_id (out_identity x) = s")
    case True
    with x(1) serve show ?thesis by auto
  next
    case False
    with x(2) obtain ys' zs' where "length ys' < length ys" "e_ready e' = ys' @ s # zs'" "camera_get e' s = Some c" by blast
    with Cons.IH [OF ok', of ys' zs'] Cons.prems(4,5) c(2) serve show ?thesis by auto
  qed
qed simp

section \<open>Decoder fingerprints\<close>

text \<open>The parameters with their lengths in front can be read back.\<close>

lemma framed_inj:
  assumes "concat (map (\<lambda>p. to_be_bytes64 (length p) @ p) ps) = concat (map (\<lambda>p. to_be_bytes64 (length p) @ p) qs)"
    "\<forall>p \<in> set ps. length p < 2 ^ 64" "\<forall>q \<in> set qs. length q < 2 ^ 64"
  shows "ps = qs"
  using assms
proof (induction ps arbitrary: qs)
  case Nil
  then show ?case by (cases qs) (auto dest: arg_cong [where f = length])
next
  case (Cons p ps)
  obtain q qs' where q: "qs = q # qs'"
    using Cons.prems(1) by (cases qs) (auto dest: arg_cong [where f = length])
  have e: "to_be_bytes64 (length p) = to_be_bytes64 (length q)"
      "p @ concat (map (\<lambda>p. to_be_bytes64 (length p) @ p) ps) = q @ concat (map (\<lambda>p. to_be_bytes64 (length p) @ p) qs')"
    using Cons.prems(1) by (simp_all add: q)
  have "length p = length q" by (rule to_be_bytes64_inj [OF e(1)]) (use Cons.prems q in auto)
  with e(2) have "p = q" "concat (map (\<lambda>p. to_be_bytes64 (length p) @ p) ps) = concat (map (\<lambda>p. to_be_bytes64 (length p) @ p) qs')"
    by simp_all
  with Cons q show ?case by auto
qed

fun config_parameters :: "MediaConfig \<Rightarrow> byte list list" where
  "config_parameters (AvcConfig w h sps pps) = [sps, pps]"
| "config_parameters (HevcConfig w h vps sps pps extra) = [vps, sps, pps, extra]"

text \<open>The sizes that the source's integer types allow: \<open>u16\<close> dimensions and \<open>u64\<close> lengths.\<close>

definition config_fits :: "MediaConfig \<Rightarrow> bool" where
  "config_fits m \<longleftrightarrow> mc_width m < 2 ^ 16 \<and> mc_height m < 2 ^ 16 \<and> list_all (\<lambda>p. length p < 2 ^ 64) (config_parameters m)"

lemma hash_input_inj:
  assumes "hash_input k w h ps = hash_input k' w' h' qs" "k < 256" "k' < 256"
    "w < 2 ^ 16" "w' < 2 ^ 16" "h < 2 ^ 16" "h' < 2 ^ 16"
    "\<forall>p \<in> set ps. length p < 2 ^ 64" "\<forall>q \<in> set qs. length q < 2 ^ 64"
  shows "k = k' \<and> w = w' \<and> h = h' \<and> ps = qs"
proof -
  have e: "(word_of_nat k :: byte) = word_of_nat k'" "to_be_bytes16 w = to_be_bytes16 w'" "to_be_bytes16 h = to_be_bytes16 h'"
      "concat (map (\<lambda>p. to_be_bytes64 (length p) @ p) ps) = concat (map (\<lambda>p. to_be_bytes64 (length p) @ p) qs)"
    using assms(1) by (simp_all add: hash_input_def to_be_bytes16_def)
  have "k = k'" using arg_cong [OF e(1), of unat] assms(2,3) by (simp add: unat_byte)
  moreover have "w = w'" "h = h'" using to_be_bytes_inj(1) e(2,3) assms(4-7) by blast+
  ultimately show ?thesis using framed_inj [OF e(4) assms(8,9)] by simp
qed

lemma decoder_fingerprint_hash: "decoder_fingerprint sha m = sha (decoder_fingerprint id m)"
  by (cases m) (simp_all add: hash_decoder_parameters_def)

lemma decoder_fingerprint_bytes:
  assumes "decoder_fingerprint id m = decoder_fingerprint id n" "config_fits m" "config_fits n"
  shows "m = n"
  using assms
  by (cases m; cases n) (auto simp: hash_decoder_parameters_def config_fits_def dest!: hash_input_inj)

section \<open>A run\<close>

definition demo_decoders :: Decoders where
  "demo_decoders = \<lparr>d_parsers = \<lparr>h264_parameters = \<lambda>_ _. Some (640, 480), h265_parameters = \<lambda>_ _ _. None\<rparr>, d_sha256 = id\<rparr>"

definition demo_world :: World where
  "demo_world = \<lparr>w_heap = \<lparr>budgets = \<lambda>_. Budget_new 0 0, next_budget = 0\<rparr>, w_cells = \<lambda>_. 0\<rparr>"

definition demo_input :: "string \<Rightarrow> nat \<Rightarrow> bool \<Rightarrow> EventOp" where
  "demo_input s t key = Ingest (identity_new s ''main'' ''m'')
     \<lparr>q_frame = \<lparr>received_at = t, timestamp = Some t, media = Video \<lparr>v_codec = H264, v_is_keyframe = key,
                  v_width = 4, v_height = 2, v_data = [0, 0, 0, 1, 103, 0, 0, 0, 1, 104]\<rparr>\<rparr>,
      q_lease = \<lparr>l_bytes = 10, l_bytes_counter = 0, l_frames_counter = 1\<rparr>\<rparr> t"

definition demo_settings :: EventSettings where
  "demo_settings = \<lparr>es_mode = EventOnly, es_stream = StreamMain, es_pre = 1000, es_post = 500\<rparr>"

text \<open>Two cameras with an event each; then the writer takes what is pending.\<close>

definition demo_events :: "EventOp list" where
  "demo_events = [ConfigureCamera ''a'' demo_settings, ConfigureCamera ''b'' demo_settings,
     demo_input ''a'' 10 True, demo_input ''b'' 12 True, demo_input ''a'' 20 False, demo_input ''b'' 22 False,
     NoteEvent ''a'' 25, NoteEvent ''b'' 26]"

definition demo_recorder :: EventState where
  "demo_recorder = event_run demo_decoders 1000 5000 demo_world demo_events"

lemma demo_ready: "e_ready (ev_recorder demo_recorder) = [''a'', ''b'']"
  by code_simp

lemma demo_has_output:
  "\<exists>c x. camera_get (ev_recorder demo_recorder) ''b'' = Some c
    \<and> snd (snd (camera_next_output 30 c demo_world)) = Some x \<and> (\<exists>j f y. x = OutFrame j f y)"
proof -
  have "is_some_and (camera_get (ev_recorder demo_recorder) ''b'') (\<lambda>c. is_some_and
      (snd (snd (camera_next_output 30 c demo_world))) (\<lambda>x. case x of OutFrame _ _ _ \<Rightarrow> True | _ \<Rightarrow> False))"
    by code_simp
  then show ?thesis by (auto simp: is_some_and_def split: option.splits EventOutput.splits)
qed

text \<open>
  A camera that boosts its continuous recording of \<open>sub\<close>: when the history of that stream expires, its
  frames are released to be written.
\<close>

definition demo_boost :: EventRecordings where
  "demo_boost =
     (let input = (\<lambda>t. case demo_input ''a'' t True of Ingest i q now \<Rightarrow> Ingest (identity_new ''a'' ''sub'' ''m'') q now);
          st = event_run demo_decoders 1000 5000 demo_world
            [ConfigureCamera ''a'' \<lparr>es_mode = EventBoost, es_stream = StreamMain, es_pre = 1000, es_post = 500\<rparr>,
             input 10, input 20, input 30];
          e = ev_recorder st
      in e\<lparr>e_buffers := fst (expire 60000 (e_buffers e) (w_heap (ev_world st)))\<rparr>)"

lemma demo_boost_released: "released_count (e_buffers demo_boost) = 3"
  by code_simp

section \<open>Properties\<close>

text \<open>
  C9: whatever the recorder was asked to do, the video frames that the writer received from a camera
  since its window was last started afresh have strictly increasing times: a replay never repeats or
  reorders a frame that was written before. The first video frame of every recording is a keyframe.
\<close>

theorem event_output_order:
  "sorted_wrt (<) (map received_at (out_videos (ev_since (event_run D sb gb w ops) s)))
   \<and> list_all is_video_keyframe (openers False (ev_since (event_run D sb gb w ops) s))"
  using event_run_inv [of D sb gb w ops] by (simp add: event_inv_def well_received_def list_all_iff)

theorem event_output_order_witness:
  "map received_at (out_videos (ev_since (event_run demo_decoders 1000 5000 demo_world
     (demo_events @ [NextOutput 30, NextOutput 30, NextOutput 30])) ''a'')) = [10, 20]
   \<and> list_all is_video_keyframe (openers False (ev_since (event_run demo_decoders 1000 5000 demo_world
     (demo_events @ [NextOutput 30, NextOutput 30, NextOutput 30])) ''a''))"
proof -
  have "map received_at (out_videos (ev_since (event_run demo_decoders 1000 5000 demo_world
     (demo_events @ [NextOutput 30, NextOutput 30, NextOutput 30])) ''a'')) = [10, 20]" by code_simp
  with event_output_order [of demo_decoders 1000 5000 demo_world "demo_events @ [NextOutput 30, NextOutput 30, NextOutput 30]" "''a''"]
  show ?thesis by blast
qed

text \<open>
  C10: a camera that would hand out a pending frame or finish marker if it were asked alone at the time
  \<open>now\<close> is served: from \<open>now\<close> on it waits for at most one output of each camera in front of it in the
  queue, whatever time each call sees and whatever the other threads do to the shared counters. (A camera
  whose oldest entry is audio past its last video frame hands out nothing before its deadline.)
\<close>

theorem event_camera_served:
  assumes "e = ev_recorder (event_run D sb gb w ops)" "e_ready e = ys @ s # zs" "camera_get e s = Some c"
    and alone: "snd (snd (camera_next_output now c w0)) = Some x0"
      "(\<exists>i f p. x0 = OutFrame i f p) \<or> (\<exists>end. Finish end \<in> set (cw_pending c))"
    and calls: "length calls = Suc (length ys)" "\<And>call. call \<in> set calls \<Longrightarrow> now \<le> fst call"
  shows "\<exists>x. Some x \<in> set (serve calls e) \<and> source_id (out_identity x) = s"
proof (rule serve_reaches [OF _ assms(2), where now = now])
  show "e_ok e" using event_run_inv [of D sb gb w ops] assms(1) by (simp add: event_inv_def)
  show "is_some_and (camera_get e s) (has_output now)" using next_has_output [OF alone] assms(3) by simp
qed (simp_all add: calls)

theorem event_camera_served_witness:
  "\<exists>x. Some x \<in> set (serve [(30, demo_world), (31, demo_world)] (ev_recorder demo_recorder)) \<and> source_id (out_identity x) = ''b''"
proof -
  obtain c x where c: "camera_get (ev_recorder demo_recorder) ''b'' = Some c"
      "snd (snd (camera_next_output 30 c demo_world)) = Some x" "\<exists>j f y. x = OutFrame j f y"
    using demo_has_output by blast
  show ?thesis
    by (rule event_camera_served [OF demo_recorder_def [THEN arg_cong] _ c(1,2), where ys = "[''a'']" and zs = "[]"])
      (use c(3) in \<open>auto simp: demo_ready\<close>)
qed

text \<open>
  the round-robin queue holds every configured camera exactly once and nothing else, and there
  are never more than \<open>MAX_CAMERAS\<close> of them.
\<close>

theorem event_queue_cameras:
  "distinct (e_ready (ev_recorder (event_run D sb gb w ops)))
   \<and> set (e_ready (ev_recorder (event_run D sb gb w ops))) = set (map fst (e_cameras (ev_recorder (event_run D sb gb w ops))))
   \<and> length (e_cameras (ev_recorder (event_run D sb gb w ops))) \<le> MAX_CAMERAS"
  using event_run_inv [of D sb gb w ops] by (simp add: event_inv_def e_ok_def)

text \<open>
  C16: the loop of \<open>release_continuous\<close> ends with no released frame left, for every registry that
  is a well-formed map of maps: the number of released frames is enough fuel.
\<close>

theorem release_continuous_empties:
  assumes "nested_ok (p_streams (e_buffers e))"
  shows "released_count (e_buffers (fst (release_continuous e w))) = 0"
  using release_loop_empties [OF _ assms refl] by (cases "release_continuous e w") (simp add: release_continuous_def)

theorem release_continuous_empties_witness:
  "released_count (e_buffers demo_boost) = 3
   \<and> released_count (e_buffers (fst (release_continuous demo_boost demo_world))) = 0"
proof -
  have "nested_ok (p_streams (e_buffers demo_boost))" unfolding nested_ok_def bt_ok_def by code_simp
  then show ?thesis using demo_boost_released release_continuous_empties by blast
qed

text \<open>
  C17: decoder configurations within the ranges of their integer types have the same fingerprint only
  if they are the same, unless their encodings collide under SHA-256: the lengths in front of the
  parameter sets keep the encoding unambiguous.
\<close>

theorem decoder_fingerprint_identifies:
  assumes "config_fits m" "config_fits n"
    and no_collision: "sha (decoder_fingerprint id m) = sha (decoder_fingerprint id n) \<Longrightarrow> decoder_fingerprint id m = decoder_fingerprint id n"
  shows "decoder_fingerprint sha m = decoder_fingerprint sha n \<longleftrightarrow> m = n"
  using assms decoder_fingerprint_bytes decoder_fingerprint_hash [of sha] by metis

theorem decoder_fingerprint_identifies_witness:
  "decoder_fingerprint rev (AvcConfig 4 2 [103] [104, 1]) \<noteq> decoder_fingerprint rev (AvcConfig 4 2 [103, 104] [1])"
  using decoder_fingerprint_identifies [of "AvcConfig 4 2 [103] [104, 1]" "AvcConfig 4 2 [103, 104] [1]" rev]
  by (simp add: config_fits_def)

end
