(* ===== verification/Simulation.thy ===== *)
theory Simulation
  imports KP_Prelude
begin

text \<open>
  Refinement of state machines: a detailed machine with an invariant that, seen through an
  abstraction, does exactly the steps of an abstract one. \<open>good\<close> restricts the operations to the
  bounds that the program's calls respect. A run of good operations keeps the invariant and gives
  the same results as the abstract machine.
\<close>

primrec results_run :: "('s \<Rightarrow> 'o \<Rightarrow> 's \<times> 'r) \<Rightarrow> 's \<Rightarrow> 'o list \<Rightarrow> 's \<times> 'r list" where
  "results_run step s [] = (s, [])"
| "results_run step s (x # xs) =
     (let (s', r) = step s x; (s'', rs) = results_run step s' xs in (s'', r # rs))"

locale guarded_machine =
  fixes step :: "'s \<Rightarrow> 'o \<Rightarrow> 's \<times> 'r"
    and inv :: "'s \<Rightarrow> bool"
    and good :: "'o \<Rightarrow> bool"
  assumes step_inv: "inv s \<Longrightarrow> good x \<Longrightarrow> inv (fst (step s x))"
begin

lemma results_inv: "inv s \<Longrightarrow> list_all good xs \<Longrightarrow> inv (fst (results_run step s xs))"
proof (induction xs arbitrary: s)
  case (Cons x xs)
  from Cons.IH [of "fst (step s x)"] Cons.prems step_inv show ?case by (simp add: case_prod_beta)
qed simp

end

locale simulation = guarded_machine step inv good
  for step :: "'s \<Rightarrow> 'o \<Rightarrow> 's \<times> 'r" and inv and good +
  fixes spec :: "'a \<Rightarrow> 'o \<Rightarrow> 'a \<times> 'r"
    and abs :: "'s \<Rightarrow> 'a"
  assumes step_abs: "inv s \<Longrightarrow> good x \<Longrightarrow> spec (abs s) x = (abs (fst (step s x)), snd (step s x))"
begin

lemma run_abs:
  "inv s \<Longrightarrow> list_all good xs \<Longrightarrow>
     results_run spec (abs s) xs = (abs (fst (results_run step s xs)), snd (results_run step s xs))"
proof (induction xs arbitrary: s)
  case (Cons x xs)
  from Cons.IH [of "fst (step s x)"] Cons.prems step_inv step_abs show ?case by (simp add: case_prod_beta)
qed simp

end

end
