(* ===== verification/Mqtt_Outbox.thy ===== *)
theory Mqtt_Outbox
  imports Simulation
begin

text \<open>
  The MQTT outbox of \<open>src/src/event_forwarder/outbox.rs\<close>: publications wait in order until the broker
  confirmed them; a key that is waiting or was delivered recently is not accepted again. The mutex
  makes each method one step. \<open>Feed\<close> is the contract without the derived counters, and the outbox
  refines it.
\<close>

section \<open>Model\<close>

definition MAX_PENDING_ITEMS :: usize where
  "MAX_PENDING_ITEMS = 10000"

definition MAX_DELIVERY_RECEIPTS :: usize where
  "MAX_DELIVERY_RECEIPTS = 100000"

record Publication =
  dedup_key :: string
  topic :: string
  payload :: "byte list"
  qos :: nat
  retain :: bool
  event_timestamp_ms :: i64
  content_type :: string
  payload_format_indicator :: "nat option"
  correlation_data :: "byte list"

record OutboxItem =
  item_sequence :: i64
  publication :: Publication
  attempts :: u64

record OutboxStats =
  stat_pending_items :: u64
  stat_pending_bytes :: u64
  stat_oldest_event_timestamp_ms :: "i64 option"

datatype EnqueueResult = Inserted | Duplicate

datatype OutboxError =
  ItemLimit
| OutboxFull (limit_bytes: u64) (attempted_bytes: u64)
| SequenceExhausted
| ItemNotFound

record OutboxState =
  next_sequence :: i64
  pending :: "(OutboxItem \<times> u64) list"
  ob_pending_bytes :: u64
  seen_keys :: "string set"
  delivered_keys :: "string list"

definition Outbox_new :: OutboxState where
  "Outbox_new = \<lparr>next_sequence = 0, pending = [], ob_pending_bytes = 0, seen_keys = {}, delivered_keys = []\<rparr>"

definition publication_size :: "Publication \<Rightarrow> u64" where
  "publication_size p =
     saturating_add_u64 (saturating_add_u64 (saturating_add_u64 (saturating_add_u64
       (length (dedup_key p)) (length (topic p))) (length (payload p))) (length (content_type p)))
       (length (correlation_data p))"

definition enqueue :: "Publication \<Rightarrow> u64 \<Rightarrow> OutboxState \<Rightarrow> OutboxState \<times> (OutboxError + EnqueueResult)" where
  "enqueue p limit s =
     (if dedup_key p \<in> seen_keys s then (s, Inr Duplicate)
      else if length (pending s) = MAX_PENDING_ITEMS then (s, Inl ItemLimit)
      else
        let item_bytes = publication_size p;
            attempted = saturating_add_u64 (ob_pending_bytes s) item_bytes in
        if attempted > limit then (s, Inl (OutboxFull limit attempted))
        else (case checked_add_i64 (next_sequence s) 1 of
                None \<Rightarrow> (s, Inl SequenceExhausted)
              | Some sequence \<Rightarrow>
                  (s\<lparr>next_sequence := sequence, seen_keys := insert (dedup_key p) (seen_keys s),
                     ob_pending_bytes := attempted,
                     pending := pending s @ [(\<lparr>item_sequence = sequence, publication = p, attempts = 0\<rparr>, item_bytes)]\<rparr>,
                   Inr Inserted)))"

definition outbox_next :: "OutboxState \<Rightarrow> OutboxItem option" where
  "outbox_next s = (case pending s of [] \<Rightarrow> None | (item, _) # _ \<Rightarrow> Some item)"

text \<open>\<open>iter().position(...)\<close>.\<close>

fun position :: "('a \<Rightarrow> bool) \<Rightarrow> 'a list \<Rightarrow> nat option" where
  "position P [] = None"
| "position P (x # xs) = (if P x then Some 0 else map_option Suc (position P xs))"

definition mark_attempt :: "i64 \<Rightarrow> OutboxState \<Rightarrow> OutboxState \<times> (OutboxError + unit)" where
  "mark_attempt sequence s =
     (case position (\<lambda>(item, _). item_sequence item = sequence) (pending s) of
        None \<Rightarrow> (s, Inl ItemNotFound)
      | Some i \<Rightarrow>
          let (item, n) = pending s ! i
          in (s\<lparr>pending := (pending s)[i := (item\<lparr>attempts := saturating_add_u64 (attempts item) 1\<rparr>, n)]\<rparr>, Inr ()))"

definition mark_delivered :: "i64 \<Rightarrow> OutboxState \<Rightarrow> OutboxState \<times> (OutboxError + unit)" where
  "mark_delivered sequence s =
     (case position (\<lambda>(item, _). item_sequence item = sequence) (pending s) of
        None \<Rightarrow> (s, Inl ItemNotFound)
      | Some i \<Rightarrow>
          let (item, item_bytes) = pending s ! i;
              s = s\<lparr>pending := take i (pending s) @ drop (Suc i) (pending s),
                    ob_pending_bytes := saturating_sub_u64 (ob_pending_bytes s) item_bytes,
                    delivered_keys := delivered_keys s @ [dedup_key (publication item)]\<rparr>
          in (case delivered_keys s of
                expired # rest \<Rightarrow>
                  if length (delivered_keys s) > MAX_DELIVERY_RECEIPTS
                  then s\<lparr>delivered_keys := rest, seen_keys := seen_keys s - {expired}\<rparr>
                  else s
              | [] \<Rightarrow> s, Inr ()))"

definition stats :: "OutboxState \<Rightarrow> OutboxStats" where
  "stats s =
     \<lparr>stat_pending_items = length (pending s), stat_pending_bytes = ob_pending_bytes s,
      stat_oldest_event_timestamp_ms =
        (case map (\<lambda>(item, _). event_timestamp_ms (publication item)) (pending s) of
           [] \<Rightarrow> None | t # ts \<Rightarrow> Some (foldl min t ts))\<rparr>"

section \<open>Contract\<close>

text \<open>
  The feed: the accepted publications that wait, each with its number and its attempts, and the keys
  of the last deliveries. Everything else in the outbox is derived from it. The next publication is the
  one with the least number, the statistics are those of what waits.
\<close>

record Feed =
  f_accepted :: nat
  f_waiting :: "OutboxItem list"
  f_recent :: "string list"

definition f_bytes :: "OutboxItem list \<Rightarrow> nat" where
  "f_bytes items = sum_list (map (\<lambda>item. publication_size (publication item)) items)"

datatype OutboxOp = Enqueue Publication u64 | MarkAttempt i64 | MarkDelivered i64 | Next | Stats

datatype OutboxReply = Enqueued "OutboxError + EnqueueResult" | Marked "OutboxError + unit"
  | NextItem "OutboxItem option" | StatsAre OutboxStats

definition last_n :: "nat \<Rightarrow> 'a list \<Rightarrow> 'a list" where
  "last_n n xs = drop (length xs - n) xs"

fun feed_step :: "Feed \<Rightarrow> OutboxOp \<Rightarrow> Feed \<times> OutboxReply" where
  "feed_step f (Enqueue p limit) =
     (if dedup_key p \<in> (dedup_key \<circ> publication) ` set (f_waiting f) \<union> set (f_recent f) then (f, Enqueued (Inr Duplicate))
      else if length (f_waiting f) = MAX_PENDING_ITEMS then (f, Enqueued (Inl ItemLimit))
      else if f_bytes (f_waiting f) + publication_size p > limit
      then (f, Enqueued (Inl (OutboxFull limit (min (f_bytes (f_waiting f) + publication_size p) u64_max))))
      else if int (f_accepted f) = i64_max then (f, Enqueued (Inl SequenceExhausted))
      else (f\<lparr>f_accepted := Suc (f_accepted f),
              f_waiting := f_waiting f @ [\<lparr>item_sequence = int (Suc (f_accepted f)), publication = p, attempts = 0\<rparr>]\<rparr>,
            Enqueued (Inr Inserted)))"
| "feed_step f (MarkAttempt n) =
     (if n \<in> item_sequence ` set (f_waiting f)
      then (f\<lparr>f_waiting := map (\<lambda>item. if item_sequence item = n
                                        then item\<lparr>attempts := saturating_add_u64 (attempts item) 1\<rparr> else item) (f_waiting f)\<rparr>,
            Marked (Inr ()))
      else (f, Marked (Inl ItemNotFound)))"
| "feed_step f (MarkDelivered n) =
     (case filter (\<lambda>item. item_sequence item = n) (f_waiting f) of
        [] \<Rightarrow> (f, Marked (Inl ItemNotFound))
      | item # _ \<Rightarrow>
          (f\<lparr>f_waiting := filter (\<lambda>item. item_sequence item \<noteq> n) (f_waiting f),
             f_recent := last_n MAX_DELIVERY_RECEIPTS (f_recent f @ [dedup_key (publication item)])\<rparr>,
           Marked (Inr ())))"
| "feed_step f Next =
     (f, NextItem (find (\<lambda>item. \<forall>other \<in> set (f_waiting f). item_sequence item \<le> item_sequence other) (f_waiting f)))"
| "feed_step f Stats =
     (f, StatsAre \<lparr>stat_pending_items = length (f_waiting f), stat_pending_bytes = f_bytes (f_waiting f),
        stat_oldest_event_timestamp_ms =
          (if f_waiting f = [] then None
           else Some (Min ((\<lambda>item. event_timestamp_ms (publication item)) ` set (f_waiting f))))\<rparr>)"

fun outbox_step :: "OutboxState \<Rightarrow> OutboxOp \<Rightarrow> OutboxState \<times> OutboxReply" where
  "outbox_step s (Enqueue p limit) = map_prod id Enqueued (enqueue p limit s)"
| "outbox_step s (MarkAttempt n) = map_prod id Marked (mark_attempt n s)"
| "outbox_step s (MarkDelivered n) = map_prod id Marked (mark_delivered n s)"
| "outbox_step s Next = (s, NextItem (outbox_next s))"
| "outbox_step s Stats = (s, StatsAre (stats s))"

definition outbox_abs :: "OutboxState \<Rightarrow> Feed" where
  "outbox_abs s = \<lparr>f_accepted = nat (next_sequence s), f_waiting = map fst (pending s), f_recent = delivered_keys s\<rparr>"

section \<open>Invariant\<close>

definition waiting_keys :: "OutboxState \<Rightarrow> string list" where
  "waiting_keys s = map (\<lambda>x. dedup_key (publication (fst x))) (pending s)"

definition sequences :: "OutboxState \<Rightarrow> int list" where
  "sequences s = map (\<lambda>x. item_sequence (fst x)) (pending s)"

definition outbox_ok :: "OutboxState \<Rightarrow> bool" where
  "outbox_ok s \<longleftrightarrow>
     list_all (\<lambda>(item, n). n = publication_size (publication item)) (pending s)
     \<and> ob_pending_bytes s = sum_list (map snd (pending s)) \<and> ob_pending_bytes s < u64_max
     \<and> length (pending s) \<le> MAX_PENDING_ITEMS
     \<and> seen_keys s = set (waiting_keys s) \<union> set (delivered_keys s)
     \<and> distinct (waiting_keys s @ delivered_keys s) \<and> length (delivered_keys s) \<le> MAX_DELIVERY_RECEIPTS
     \<and> sorted_wrt (<) (sequences s) \<and> (\<forall>n \<in> set (sequences s). n \<le> next_sequence s)
     \<and> 0 \<le> next_sequence s \<and> next_sequence s \<le> i64_max"

text \<open>
  The byte counter is exact as long as the limit is below the largest 64-bit number; that holds for
  every configured limit below \<open>2 ^ 44\<close> mebibytes (\<open>outbox_limit_limited\<close>).
\<close>

definition outbox_limit_bytes :: "u64 \<Rightarrow> u64" where
  "outbox_limit_bytes outbox_max_mb = saturating_mul_u64 outbox_max_mb (1024 * 1024)"

fun limited :: "OutboxOp \<Rightarrow> bool" where
  "limited (Enqueue p limit) = (limit < u64_max)"
| "limited _ = True"

lemma outbox_limit_limited: "mb < 2 ^ 44 \<Longrightarrow> outbox_limit_bytes mb < u64_max"
  by (simp add: outbox_limit_bytes_def machine_arith u64_max_def)

section \<open>Every operation keeps the invariant and refines the contract\<close>

lemma position_Some:
  assumes "position P xs = Some i"
  obtains ys x zs where "xs = ys @ x # zs" "length ys = i" "P x" "\<forall>y \<in> set ys. \<not> P y"
proof -
  have "\<exists>ys x zs. xs = ys @ x # zs \<and> length ys = i \<and> P x \<and> (\<forall>y \<in> set ys. \<not> P y)"
    using assms
  proof (induction xs arbitrary: i)
    case (Cons a xs)
    show ?case
    proof (cases "P a")
      case True
      with Cons.prems show ?thesis by (intro exI [of _ "[]"]) auto
    next
      case False
      with Cons obtain j ys x zs where "i = Suc j" "xs = ys @ x # zs" "length ys = j" "P x" "\<forall>y \<in> set ys. \<not> P y"
        by (auto split: if_splits)
      with False show ?thesis by (intro exI [of _ "a # ys"] exI [of _ x] exI [of _ zs]) auto
    qed
  qed simp
  then show thesis using that by blast
qed

lemma position_None: "position P xs = None \<longleftrightarrow> (\<forall>x \<in> set xs. \<not> P x)"
  by (induction xs) auto

lemma outbox_ok_new: "outbox_ok Outbox_new"
  by (simp add: outbox_ok_def Outbox_new_def waiting_keys_def sequences_def u64_max_def i64_max_def)

lemma f_bytes_pending: "outbox_ok s \<Longrightarrow> f_bytes (map fst (pending s)) = ob_pending_bytes s"
proof -
  assume "outbox_ok s"
  then have "map snd (pending s) = map (\<lambda>item. publication_size (publication item)) (map fst (pending s))"
    by (auto simp: outbox_ok_def list_all_iff)
  with \<open>outbox_ok s\<close> show ?thesis by (simp add: f_bytes_def outbox_ok_def)
qed

text \<open>The two outcomes of an enqueue: the state is unchanged, or the publication is appended.\<close>

lemma enqueue_cases:
  obtains (refused) r where "enqueue p limit s = (s, r)" "r \<noteq> Inr Inserted"
  | (inserted) n where "dedup_key p \<notin> seen_keys s" "length (pending s) \<noteq> MAX_PENDING_ITEMS"
      "saturating_add_u64 (ob_pending_bytes s) (publication_size p) \<le> limit" "checked_add_i64 (next_sequence s) 1 = Some n"
      "enqueue p limit s = (s\<lparr>next_sequence := n, seen_keys := insert (dedup_key p) (seen_keys s),
         ob_pending_bytes := saturating_add_u64 (ob_pending_bytes s) (publication_size p),
         pending := pending s @ [(\<lparr>item_sequence = n, publication = p, attempts = 0\<rparr>, publication_size p)]\<rparr>, Inr Inserted)"
proof (cases "dedup_key p \<in> seen_keys s \<or> length (pending s) = MAX_PENDING_ITEMS
    \<or> limit < saturating_add_u64 (ob_pending_bytes s) (publication_size p) \<or> checked_add_i64 (next_sequence s) 1 = None")
  case True
  then have "fst (enqueue p limit s) = s \<and> snd (enqueue p limit s) \<noteq> Inr Inserted"
    unfolding enqueue_def Let_def by (auto split: option.splits)
  then show thesis by (metis refused prod.collapse)
next
  case False
  then obtain n where "checked_add_i64 (next_sequence s) 1 = Some n" by blast
  with False show thesis by (intro inserted [of n]) (simp_all add: enqueue_def Let_def)
qed

lemma enqueue_ok:
  assumes ok: "outbox_ok s" and limit: "limit < u64_max"
  shows "outbox_ok (fst (enqueue p limit s))"
proof (cases rule: enqueue_cases [of p limit s])
  case (refused r)
  with ok show ?thesis by simp
next
  case (inserted n)
  have sum: "saturating_add_u64 (ob_pending_bytes s) (publication_size p) = ob_pending_bytes s + publication_size p"
      "ob_pending_bytes s + publication_size p < u64_max"
    using inserted(3) limit by (auto simp: saturating_add_u64_def)
  have n: "n = next_sequence s + 1" "n \<le> i64_max" using inserted(4) by (auto simp: checked_add_i64_def split: if_splits)
  have old: "\<forall>k \<in> set (sequences s). k < n" using ok n by (force simp: outbox_ok_def)
  show ?thesis
    unfolding inserted(5) sum(1) using ok inserted(1,2) sum(2) n old
    by (auto simp: outbox_ok_def waiting_keys_def sequences_def sorted_wrt_append)
qed

lemma waiting_keys_abs: "(dedup_key \<circ> publication) ` set (f_waiting (outbox_abs s)) = set (waiting_keys s)"
  by (simp add: outbox_abs_def waiting_keys_def image_image case_prod_beta)

lemma enqueue_refines:
  assumes ok: "outbox_ok s" and limit: "limit < u64_max"
  shows "feed_step (outbox_abs s) (Enqueue p limit) = (outbox_abs (fst (enqueue p limit s)), Enqueued (snd (enqueue p limit s)))"
proof -
  have keys: "dedup_key p \<in> (dedup_key \<circ> publication) ` set (f_waiting (outbox_abs s)) \<union> set (f_recent (outbox_abs s))
      \<longleftrightarrow> dedup_key p \<in> seen_keys s"
    unfolding waiting_keys_abs using ok by (simp add: outbox_ok_def outbox_abs_def)
  have bytes: "f_bytes (f_waiting (outbox_abs s)) = ob_pending_bytes s"
    using f_bytes_pending [OF ok] by (simp add: outbox_abs_def)
  have items: "length (f_waiting (outbox_abs s)) = length (pending s)" by (simp add: outbox_abs_def)
  have full: "ob_pending_bytes s + publication_size p > limit \<longleftrightarrow> saturating_add_u64 (ob_pending_bytes s) (publication_size p) > limit"
    using limit by (auto simp: saturating_add_u64_def)
  have range: "0 \<le> next_sequence s" "next_sequence s \<le> i64_max" using ok by (simp_all add: outbox_ok_def)
  have last: "int (f_accepted (outbox_abs s)) = i64_max \<longleftrightarrow> checked_add_i64 (next_sequence s) 1 = None"
    "checked_add_i64 (next_sequence s) 1 = Some n \<Longrightarrow> int (Suc (f_accepted (outbox_abs s))) = n \<and> Suc (nat (next_sequence s)) = nat n" for n
    using range by (auto simp: outbox_abs_def checked_add_i64_def i64_min_def split: if_splits)
  consider "dedup_key p \<in> seen_keys s" | "dedup_key p \<notin> seen_keys s" "length (pending s) = MAX_PENDING_ITEMS"
    | "dedup_key p \<notin> seen_keys s" "length (pending s) \<noteq> MAX_PENDING_ITEMS" "saturating_add_u64 (ob_pending_bytes s) (publication_size p) > limit"
    | (room) "dedup_key p \<notin> seen_keys s" "length (pending s) \<noteq> MAX_PENDING_ITEMS" "\<not> saturating_add_u64 (ob_pending_bytes s) (publication_size p) > limit"
    by blast
  then show ?thesis
  proof cases
    case room
    show ?thesis
    proof (cases "checked_add_i64 (next_sequence s) 1")
      case None
      with room show ?thesis by (simp only: feed_step.simps keys bytes items full last(1) enqueue_def Let_def if_False if_True option.case fst_conv snd_conv simp_thms)
    next
      case (Some n)
      have n: "int (Suc (nat (next_sequence s))) = n \<and> Suc (nat (next_sequence s)) = nat n"
        by (rule last(2) [OF Some, unfolded outbox_abs_def Feed.simps])
      from Some room have "feed_step (outbox_abs s) (Enqueue p limit) =
          ((outbox_abs s)\<lparr>f_accepted := Suc (f_accepted (outbox_abs s)), f_waiting := f_waiting (outbox_abs s)
              @ [\<lparr>item_sequence = int (Suc (f_accepted (outbox_abs s))), publication = p, attempts = 0\<rparr>]\<rparr>, Enqueued (Inr Inserted))"
        by (simp only: feed_step.simps keys bytes items full last(1) if_False option.distinct)
      with n Some room show ?thesis by (simp add: outbox_abs_def enqueue_def Let_def del: feed_step.simps of_nat_Suc int_nat_eq)
    qed
  qed (simp_all only: feed_step.simps keys bytes items full enqueue_def Let_def if_True if_False fst_conv snd_conv saturating_add_u64_def simp_thms)
qed

text \<open>What the two markings do to a state whose waiting list is split at the marked item.\<close>

lemma pending_split:
  assumes "outbox_ok s" "position (\<lambda>(item, _). item_sequence item = n) (pending s) = Some i"
  obtains ys item m zs where "pending s = ys @ (item, m) # zs" "length ys = i" "item_sequence item = n"
    "\<forall>(x, _) \<in> set ys \<union> set zs. item_sequence x \<noteq> n" "m = publication_size (publication item)"
proof -
  obtain ys x zs where x: "pending s = ys @ x # zs" "length ys = i" "case x of (item, _) \<Rightarrow> item_sequence item = n"
    by (rule position_Some [OF assms(2)])
  obtain item m where item: "x = (item, m)" by (cases x)
  have "distinct (sequences s)" using assms(1) by (auto simp: outbox_ok_def strict_sorted_iff)
  with x item have "\<forall>(x, _) \<in> set ys \<union> set zs. item_sequence x \<noteq> n"
    by (auto simp: sequences_def image_iff dest: bspec)
  moreover have "m = publication_size (publication item)" using assms(1) x item by (auto simp: outbox_ok_def)
  ultimately show thesis using that x item by blast
qed

lemma mark_attempt_refines:
  assumes "outbox_ok s"
  shows "outbox_ok (fst (mark_attempt n s))"
    "feed_step (outbox_abs s) (MarkAttempt n) = (outbox_abs (fst (mark_attempt n s)), Marked (snd (mark_attempt n s)))"
proof -
  let ?P = "\<lambda>(item, _). item_sequence item = n"
  have "outbox_ok (fst (mark_attempt n s)) \<and> feed_step (outbox_abs s) (MarkAttempt n) = (outbox_abs (fst (mark_attempt n s)), Marked (snd (mark_attempt n s)))"
  proof (cases "position ?P (pending s)")
    case None
    then have "n \<notin> item_sequence ` set (f_waiting (outbox_abs s))" by (auto simp: position_None outbox_abs_def)
    with None assms show ?thesis by (simp add: mark_attempt_def)
  next
    case (Some i)
    obtain ys item m zs where sp: "pending s = ys @ (item, m) # zs" "length ys = i" "item_sequence item = n"
      "\<forall>(x, _) \<in> set ys \<union> set zs. item_sequence x \<noteq> n" "m = publication_size (publication item)"
      by (rule pending_split [OF assms Some])
    let ?item = "item\<lparr>attempts := saturating_add_u64 (attempts item) 1\<rparr>"
    have run: "mark_attempt n s = (s\<lparr>pending := ys @ (?item, m) # zs\<rparr>, Inr ())"
      using Some sp(1,2) by (simp add: mark_attempt_def nth_append list_update_append)
    have same: "map (\<lambda>item. if item_sequence item = n then item\<lparr>attempts := saturating_add_u64 (attempts item) 1\<rparr> else item) (map fst us) = map fst us"
      if "\<forall>(x, _) \<in> set us. item_sequence x \<noteq> n" for us :: "(OutboxItem \<times> nat) list"
      using that by (induction us) auto
    have "outbox_ok (s\<lparr>pending := ys @ (?item, m) # zs\<rparr>)"
      using assms sp(1) by (simp add: outbox_ok_def waiting_keys_def sequences_def)
    moreover have "feed_step (outbox_abs s) (MarkAttempt n) = (outbox_abs (s\<lparr>pending := ys @ (?item, m) # zs\<rparr>), Marked (Inr ()))"
      using sp same [of ys] same [of zs] by (simp add: outbox_abs_def ball_Un)
    ultimately show ?thesis by (simp add: run)
  qed
  then show "outbox_ok (fst (mark_attempt n s))"
    "feed_step (outbox_abs s) (MarkAttempt n) = (outbox_abs (fst (mark_attempt n s)), Marked (snd (mark_attempt n s)))"
    by blast+
qed

lemma last_n_Cons:
  assumes "length (x # xs) \<le> Suc n"
  shows "last_n n (x # xs) = (if length (x # xs) > n then xs else x # xs)"
  using assms by (cases "length xs = n") (auto simp: last_n_def)

lemma mark_delivered_run:
  assumes ok: "outbox_ok s" and at: "position (\<lambda>(item, _). item_sequence item = n) (pending s) = Some i"
    and sp: "pending s = ys @ (item, m) # zs" "length ys = i"
  defines "recent \<equiv> delivered_keys s @ [dedup_key (publication item)]"
  shows "mark_delivered n s =
    (s\<lparr>pending := ys @ zs, ob_pending_bytes := ob_pending_bytes s - m, delivered_keys := last_n MAX_DELIVERY_RECEIPTS recent,
       seen_keys := (if length recent > MAX_DELIVERY_RECEIPTS then seen_keys s - {hd recent} else seen_keys s)\<rparr>, Inr ())"
proof -
  have len: "length recent \<le> Suc MAX_DELIVERY_RECEIPTS" using ok by (simp add: outbox_ok_def recent_def)
  obtain expired rest where r: "recent = expired # rest" by (cases recent) (auto simp: recent_def)
  have "last_n MAX_DELIVERY_RECEIPTS recent = (if length recent > MAX_DELIVERY_RECEIPTS then rest else recent)"
    using len last_n_Cons [of expired rest] by (simp only: r)
  then show ?thesis
    using at sp r by (simp add: mark_delivered_def nth_append saturating_sub_u64_def Let_def flip: recent_def)
qed

lemma mark_delivered_ok:
  assumes ok: "outbox_ok s" and sp: "pending s = ys @ (item, m) # zs" "m = publication_size (publication item)"
  defines "recent \<equiv> delivered_keys s @ [dedup_key (publication item)]"
  shows "outbox_ok (s\<lparr>pending := ys @ zs, ob_pending_bytes := ob_pending_bytes s - m,
       delivered_keys := last_n MAX_DELIVERY_RECEIPTS recent,
       seen_keys := (if length recent > MAX_DELIVERY_RECEIPTS then seen_keys s - {hd recent} else seen_keys s)\<rparr>)"
    (is "outbox_ok ?s")
proof -
  have len: "length recent \<le> Suc MAX_DELIVERY_RECEIPTS" using ok by (simp add: outbox_ok_def recent_def)
  obtain expired rest where r: "recent = expired # rest" by (cases recent) (auto simp: recent_def)
  define W where "W = map (\<lambda>x. dedup_key (publication (fst x))) (ys @ zs)"
  have keys: "mset (waiting_keys s @ delivered_keys s) = mset (W @ recent)"
    by (simp add: waiting_keys_def sp recent_def W_def)
  then have dist: "distinct (W @ recent)"
    using ok mset_eq_imp_distinct_iff [OF keys] by (simp add: outbox_ok_def)
  have seen: "seen_keys s = set W \<union> set recent"
    using ok mset_eq_setD [OF keys] by (simp add: outbox_ok_def)
  have cut: "last_n MAX_DELIVERY_RECEIPTS recent = (if length recent > MAX_DELIVERY_RECEIPTS then rest else recent)"
    using len last_n_Cons [of expired rest] by (simp only: r)
  have "seen_keys ?s = set W \<union> set (last_n MAX_DELIVERY_RECEIPTS recent)"
    "distinct (W @ last_n MAX_DELIVERY_RECEIPTS recent)" "length (last_n MAX_DELIVERY_RECEIPTS recent) \<le> MAX_DELIVERY_RECEIPTS"
    unfolding cut using seen dist len by (auto simp: r)
  moreover have "waiting_keys ?s = W" by (simp add: waiting_keys_def W_def)
  moreover have "sequences ?s = map (\<lambda>x. item_sequence (fst x)) (ys @ zs)" by (simp add: sequences_def)
  moreover have "sorted_wrt (<) (map (\<lambda>x. item_sequence (fst x)) (ys @ zs))"
    using ok by (simp add: outbox_ok_def sequences_def sp sorted_wrt_append)
  ultimately show ?thesis
    using ok by (simp add: outbox_ok_def sp(1) sequences_def ball_Un)
qed

lemma mark_delivered_refines:
  assumes "outbox_ok s"
  shows "outbox_ok (fst (mark_delivered n s))
    \<and> feed_step (outbox_abs s) (MarkDelivered n) = (outbox_abs (fst (mark_delivered n s)), Marked (snd (mark_delivered n s)))"
proof (cases "position (\<lambda>(item, _). item_sequence item = n) (pending s)")
  case None
  then have "filter (\<lambda>item. item_sequence item = n) (f_waiting (outbox_abs s)) = []"
    by (auto simp: position_None outbox_abs_def filter_empty_conv)
  with None assms show ?thesis by (simp add: mark_delivered_def)
next
  case (Some i)
  obtain ys item m zs where sp: "pending s = ys @ (item, m) # zs" "length ys = i" "item_sequence item = n"
    "\<forall>(x, _) \<in> set ys \<union> set zs. item_sequence x \<noteq> n" "m = publication_size (publication item)"
    by (rule pending_split [OF assms Some])
  have none: "filter (\<lambda>item. item_sequence item = n) (map fst us) = []" "filter (\<lambda>item. item_sequence item \<noteq> n) (map fst us) = map fst us"
    if "\<forall>(x, _) \<in> set us. item_sequence x \<noteq> n" for us :: "(OutboxItem \<times> nat) list"
    using that by (induction us) auto
  from sp(4) have ys: "\<forall>(x, _) \<in> set ys. item_sequence x \<noteq> n" and zs: "\<forall>(x, _) \<in> set zs. item_sequence x \<noteq> n" by auto
  show ?thesis
    unfolding mark_delivered_run [OF assms Some sp(1,2)]
    using mark_delivered_ok [OF assms sp(1,5)] sp(1,3) none [OF ys] none [OF zs] by (simp add: outbox_abs_def)
qed

lemma next_refines:
  assumes "outbox_ok s"
  shows "feed_step (outbox_abs s) Next = (outbox_abs s, NextItem (outbox_next s))"
proof (cases "pending s")
  case (Cons x xs)
  have "sorted (map item_sequence (map fst (pending s)))"
    using assms by (simp add: outbox_ok_def sequences_def strict_sorted_iff comp_def)
  then have "\<forall>other \<in> set (map fst (pending s)). item_sequence (fst x) \<le> item_sequence other"
    by (auto simp: Cons)
  then show ?thesis by (simp add: outbox_abs_def outbox_next_def Cons case_prod_beta)
qed (simp add: outbox_abs_def outbox_next_def)

lemma foldl_min_Min: "foldl min t ts = Min (set (t # ts))" for t :: "'a :: linorder"
proof (induction ts arbitrary: t)
  case (Cons u us)
  have "foldl min t (u # us) = Min (set (min t u # us))" using Cons.IH [of "min t u"] by simp
  also have "\<dots> = Min (set (t # u # us))" by (cases "us = []") (simp_all add: min.assoc)
  finally show ?case .
qed simp

lemma stats_refines:
  assumes "outbox_ok s"
  shows "feed_step (outbox_abs s) Stats = (outbox_abs s, StatsAre (stats s))"
proof -
  let ?ts = "map (\<lambda>(item, _). event_timestamp_ms (publication item)) (pending s)"
  have "(\<lambda>item. event_timestamp_ms (publication item)) ` set (map fst (pending s)) = set ?ts"
    by (auto simp: image_image case_prod_beta)
  then have "(if map fst (pending s) = [] then None
      else Some (Min ((\<lambda>item. event_timestamp_ms (publication item)) ` set (map fst (pending s)))))
    = (case ?ts of [] \<Rightarrow> None | t # ts \<Rightarrow> Some (foldl min t ts))"
    by (simp only: foldl_min_Min) (cases "pending s"; simp add: case_prod_beta)
  with f_bytes_pending [OF assms] show ?thesis
    unfolding outbox_abs_def stats_def feed_step.simps Feed.simps length_map by (simp only: prod.inject)
qed

interpretation outbox: simulation outbox_step outbox_ok limited feed_step outbox_abs
proof
  fix s x
  assume ok: "outbox_ok s" and x: "limited x"
  show "outbox_ok (fst (outbox_step s x))"
    using ok x enqueue_ok mark_attempt_refines(1) mark_delivered_refines by (cases x) simp_all
  show "feed_step (outbox_abs s) x = (outbox_abs (fst (outbox_step s x)), snd (outbox_step s x))"
    using enqueue_refines [OF ok] mark_attempt_refines(2) [OF ok] mark_delivered_refines [OF ok]
      next_refines [OF ok] stats_refines [OF ok] x
    by (cases x) (simp_all del: feed_step.simps)
qed

section \<open>Properties\<close>

text \<open>
  C19: the outbox does exactly what its contract says: for every sequence of calls of its five methods it
  gives the replies of the feed, and what it holds is what the feed holds. So the byte counter, the set
  of seen keys and the receipts that it keeps beside the queue never drift from the queue, \<open>next\<close> gives
  the waiting publication with the least number, and \<open>stats\<close> counts what waits. The limit that \<open>enqueue\<close>
  is called with lies below the largest 64-bit number.
\<close>

theorem outbox_refines_feed:
  assumes "list_all limited ops"
  shows "results_run feed_step \<lparr>f_accepted = 0, f_waiting = [], f_recent = []\<rparr> ops
    = (outbox_abs (fst (results_run outbox_step Outbox_new ops)), snd (results_run outbox_step Outbox_new ops))"
proof -
  have "outbox_abs Outbox_new = \<lparr>f_accepted = 0, f_waiting = [], f_recent = []\<rparr>"
    by (simp add: outbox_abs_def Outbox_new_def)
  with outbox.run_abs [OF outbox_ok_new assms] show ?thesis by simp
qed

definition demo_publication :: "string \<Rightarrow> Publication" where
  "demo_publication k = \<lparr>dedup_key = k, topic = ''t'', payload = [1, 2], qos = 1, retain = False, event_timestamp_ms = 5,
     content_type = ''json'', payload_format_indicator = None, correlation_data = []\<rparr>"

definition demo_outbox_ops :: "OutboxOp list" where
  "demo_outbox_ops = [Enqueue (demo_publication ''k1'') 1000, Enqueue (demo_publication ''k1'') 1000,
     Enqueue (demo_publication ''k2'') 1000, MarkAttempt 1, Next, MarkDelivered 1, Stats,
     Enqueue (demo_publication ''k1'') 1000, MarkDelivered 7, Next]"

lemma demo_outbox_limited: "list_all limited demo_outbox_ops"
  by (simp add: demo_outbox_ops_def u64_max_def)

theorem outbox_refines_feed_witness:
  "results_run feed_step \<lparr>f_accepted = 0, f_waiting = [], f_recent = []\<rparr> demo_outbox_ops
    = (outbox_abs (fst (results_run outbox_step Outbox_new demo_outbox_ops)), snd (results_run outbox_step Outbox_new demo_outbox_ops))"
  by (rule outbox_refines_feed [OF demo_outbox_limited])

text \<open>
  whatever happened, the outbox counts the bytes of what waits exactly, holds at most
  \<open>MAX_PENDING_ITEMS\<close> publications in the order of their sequence numbers, and no key twice.
\<close>

theorem outbox_bounded:
  assumes "list_all limited ops" "s = fst (results_run outbox_step Outbox_new ops)"
  shows "ob_pending_bytes s = sum_list (map (\<lambda>x. publication_size (publication (fst x))) (pending s))
    \<and> length (pending s) \<le> MAX_PENDING_ITEMS \<and> length (delivered_keys s) \<le> MAX_DELIVERY_RECEIPTS
    \<and> sorted_wrt (<) (map (\<lambda>x. item_sequence (fst x)) (pending s))
    \<and> distinct (map (\<lambda>x. dedup_key (publication (fst x))) (pending s) @ delivered_keys s)"
proof -
  have ok: "outbox_ok s" using outbox.results_inv [OF outbox_ok_new assms(1)] assms(2) by simp
  then have "map snd (pending s) = map (\<lambda>x. publication_size (publication (fst x))) (pending s)"
    by (auto simp: outbox_ok_def list_all_iff)
  with ok show ?thesis by (simp add: outbox_ok_def waiting_keys_def sequences_def)
qed

theorem outbox_bounded_witness:
  "ob_pending_bytes (fst (results_run outbox_step Outbox_new demo_outbox_ops)) = 9"
proof -
  have "map (\<lambda>x. publication_size (publication (fst x))) (pending (fst (results_run outbox_step Outbox_new demo_outbox_ops))) = [9]"
    by code_simp
  with outbox_bounded [OF demo_outbox_limited refl] show ?thesis by simp
qed

end
