(* ===== verification/Storage_Safety.thy ===== *)
theory Storage_Safety
  imports KP_Prelude
begin

text \<open>
  The storage safety policy of \<open>src/src/storage/safety.rs\<close>: how full the filesystem may get, how much a
  cleanup has to remove, and the health record that decides whether recording pauses. The free-space
  query of the operating system gives the \<open>FilesystemCapacity\<close> argument; the clock is an argument.
\<close>

section \<open>Policy\<close>

record StorageSafetyPolicy =
  archive_max_bytes :: u64
  minimum_free_bytes :: u64
  maximum_used_percent :: "nat option"
  p_warning_free_bytes :: u64
  p_critical_free_bytes :: u64
  cleanup_hysteresis_bytes :: u64

record FilesystemCapacity =
  total_bytes :: u64
  available_bytes :: u64
  keeppeek_bytes :: u64

datatype StoragePressure = PressureNormal | PressureWarning | PressureCritical

fun metric_value :: "StoragePressure \<Rightarrow> u64" where
  "metric_value PressureNormal = 0"
| "metric_value PressureWarning = 1"
| "metric_value PressureCritical = 2"

fun pressure_as_str :: "StoragePressure \<Rightarrow> string" where
  "pressure_as_str PressureNormal = ''normal''"
| "pressure_as_str PressureWarning = ''warning''"
| "pressure_as_str PressureCritical = ''critical''"

datatype StorageRecordingState = RecordingActive | RecordingDegraded | RecordingPaused

fun recording_as_str :: "StorageRecordingState \<Rightarrow> string" where
  "recording_as_str RecordingActive = ''active''"
| "recording_as_str RecordingDegraded = ''degraded''"
| "recording_as_str RecordingPaused = ''paused''"

datatype StorageCleanupTrigger = TriggerStartup | TriggerSegmentFinalized | TriggerPeriodic

fun trigger_as_str :: "StorageCleanupTrigger \<Rightarrow> string" where
  "trigger_as_str TriggerStartup = ''startup''"
| "trigger_as_str TriggerSegmentFinalized = ''segment_finalized''"
| "trigger_as_str TriggerPeriodic = ''periodic''"

datatype StorageCleanupReason = ArchiveCap | FilesystemHeadroom | Combined | Reconciliation

fun reason_as_str :: "StorageCleanupReason \<Rightarrow> string" where
  "reason_as_str ArchiveCap = ''archive_cap''"
| "reason_as_str FilesystemHeadroom = ''filesystem_headroom''"
| "reason_as_str Combined = ''combined''"
| "reason_as_str Reconciliation = ''reconciliation''"

record StorageSafetyEvaluation =
  ev_pressure :: StoragePressure
  ev_cleanup_required :: bool
  ev_effective_limit_bytes :: "u64 option"
  ev_cleanup_target_bytes :: "u64 option"
  ev_warning_free_bytes :: u64
  ev_critical_free_bytes :: u64
  ev_recovery_free_bytes :: u64
  ev_cleanup_reason :: "StorageCleanupReason option"

fun minimum_limit :: "u64 option \<Rightarrow> u64 option \<Rightarrow> u64 option" where
  "minimum_limit (Some left) (Some right) = Some (min left right)"
| "minimum_limit (Some limit) None = Some limit"
| "minimum_limit None (Some limit) = Some limit"
| "minimum_limit None None = None"

definition percent_of :: "u64 \<Rightarrow> nat \<Rightarrow> u64" where
  "percent_of value percent =
     (let percent = min percent 100 in value div 100 * percent + value mod 100 * percent div 100)"

fun cleanup_reason :: "bool \<Rightarrow> bool \<Rightarrow> StorageCleanupReason option" where
  "cleanup_reason True True = Some Combined"
| "cleanup_reason True False = Some ArchiveCap"
| "cleanup_reason False True = Some FilesystemHeadroom"
| "cleanup_reason False False = None"

text \<open>The free-space levels of an evaluation, for a filesystem of \<open>size_bytes\<close> bytes.\<close>

definition critical_level :: "StorageSafetyPolicy \<Rightarrow> u64" where
  "critical_level p = max (p_critical_free_bytes p) (minimum_free_bytes p)"

definition warning_level :: "StorageSafetyPolicy \<Rightarrow> u64 \<Rightarrow> u64" where
  "warning_level p size_bytes =
     (let configured_warning =
            (if p_warning_free_bytes p = 0 \<and> critical_level p > 0
             then saturating_add_u64 (critical_level p) (cleanup_hysteresis_bytes p)
             else max (p_warning_free_bytes p) (critical_level p));
          percent_free = (case maximum_used_percent p of
                            None \<Rightarrow> 0
                          | Some percent \<Rightarrow> saturating_sub_u64 size_bytes (percent_of size_bytes percent))
      in max configured_warning percent_free)"

definition evaluate :: "StorageSafetyPolicy \<Rightarrow> FilesystemCapacity \<Rightarrow> StorageSafetyEvaluation" where
  "evaluate p capacity =
     (let critical = critical_level p;
          warning = warning_level p (total_bytes capacity);
          has_free_space_limit = (warning > 0);
          available = min (available_bytes capacity) (total_bytes capacity);
          keeppeek = min (keeppeek_bytes capacity) (total_bytes capacity);
          other_used = saturating_sub_u64 (saturating_sub_u64 (total_bytes capacity) available) keeppeek;
          archive_limit = (if archive_max_bytes p > 0 then Some (archive_max_bytes p) else None);
          filesystem_limit =
            (if has_free_space_limit
             then Some (saturating_sub_u64 (saturating_sub_u64 (total_bytes capacity) other_used) warning) else None);
          archive_exceeded = is_some_and archive_limit (\<lambda>limit. keeppeek > limit);
          free_space_exceeded = (has_free_space_limit \<and> available < warning);
          required = (archive_exceeded \<or> free_space_exceeded);
          recovery =
            (if has_free_space_limit
             then min (saturating_add_u64 warning (cleanup_hysteresis_bytes p)) (total_bytes capacity) else 0);
          archive_target = map_option (\<lambda>limit. saturating_sub_u64 limit (cleanup_hysteresis_bytes p)) archive_limit;
          filesystem_target =
            (if has_free_space_limit
             then Some (saturating_sub_u64 (saturating_sub_u64 (total_bytes capacity) other_used) recovery) else None);
          target =
            (if required
             then Some (case minimum_limit archive_target filesystem_target of None \<Rightarrow> keeppeek | Some t \<Rightarrow> t) else None);
          pressure =
            (if critical > 0 \<and> available < critical then PressureCritical
             else if required then PressureWarning else PressureNormal)
      in \<lparr>ev_pressure = pressure, ev_cleanup_required = required,
          ev_effective_limit_bytes = minimum_limit archive_limit filesystem_limit, ev_cleanup_target_bytes = target,
          ev_warning_free_bytes = warning, ev_critical_free_bytes = critical, ev_recovery_free_bytes = recovery,
          ev_cleanup_reason = cleanup_reason archive_exceeded free_space_exceeded\<rparr>)"

section \<open>Health record\<close>

text \<open>An error message is the list of its Unicode scalar values: the record keeps the first ones.\<close>

type_synonym scalars = "nat list"

definition MAX_ERROR_CHARS :: usize where
  "MAX_ERROR_CHARS = 240"

record StorageSafetyHealthSnapshot =
  hs_pressure :: StoragePressure
  hs_recording_state :: StorageRecordingState
  hs_total_bytes :: "u64 option"
  hs_available_bytes :: "u64 option"
  hs_keeppeek_bytes :: "u64 option"
  hs_effective_limit_bytes :: "u64 option"
  hs_cleanup_target_bytes :: "u64 option"
  hs_warning_free_bytes :: u64
  hs_critical_free_bytes :: u64
  hs_recovery_free_bytes :: u64
  hs_last_evaluation_at_ms :: "u64 option"
  hs_last_evaluation_trigger :: "StorageCleanupTrigger option"
  hs_cleanup_running :: bool
  hs_last_cleanup_started_at_ms :: "u64 option"
  hs_last_cleanup_ended_at_ms :: "u64 option"
  hs_last_cleanup_files_removed :: u64
  hs_last_cleanup_bytes_removed :: u64
  hs_last_cleanup_reason :: "StorageCleanupReason option"
  hs_last_failure_at_ms :: "u64 option"
  hs_last_failure :: "scalars option"
  hs_last_recovered_at_ms :: "u64 option"

definition snapshot_default :: StorageSafetyHealthSnapshot where
  "snapshot_default =
     \<lparr>hs_pressure = PressureNormal, hs_recording_state = RecordingActive, hs_total_bytes = None,
      hs_available_bytes = None, hs_keeppeek_bytes = None, hs_effective_limit_bytes = None,
      hs_cleanup_target_bytes = None, hs_warning_free_bytes = 0, hs_critical_free_bytes = 0,
      hs_recovery_free_bytes = 0, hs_last_evaluation_at_ms = None, hs_last_evaluation_trigger = None,
      hs_cleanup_running = False, hs_last_cleanup_started_at_ms = None, hs_last_cleanup_ended_at_ms = None,
      hs_last_cleanup_files_removed = 0, hs_last_cleanup_bytes_removed = 0, hs_last_cleanup_reason = None,
      hs_last_failure_at_ms = None, hs_last_failure = None, hs_last_recovered_at_ms = None\<rparr>"

fun state_for :: "StoragePressure \<Rightarrow> StorageRecordingState" where
  "state_for PressureNormal = RecordingActive"
| "state_for PressureWarning = RecordingDegraded"
| "state_for PressureCritical = RecordingDegraded"

text \<open>\<open>observe\<close> reads the clock a second time when recording recovers (\<open>later\<close>).\<close>

definition observe :: "StorageCleanupTrigger \<Rightarrow> FilesystemCapacity \<Rightarrow> StorageSafetyEvaluation \<Rightarrow> u64 \<Rightarrow> u64
    \<Rightarrow> StorageSafetyHealthSnapshot \<Rightarrow> StorageSafetyHealthSnapshot" where
  "observe trigger capacity evaluation now later s =
     (let was_paused = (hs_recording_state s = RecordingPaused);
          s = s\<lparr>hs_pressure := ev_pressure evaluation, hs_total_bytes := Some (total_bytes capacity),
                hs_available_bytes := Some (available_bytes capacity), hs_keeppeek_bytes := Some (keeppeek_bytes capacity),
                hs_effective_limit_bytes := ev_effective_limit_bytes evaluation,
                hs_cleanup_target_bytes := ev_cleanup_target_bytes evaluation,
                hs_warning_free_bytes := ev_warning_free_bytes evaluation,
                hs_critical_free_bytes := ev_critical_free_bytes evaluation,
                hs_recovery_free_bytes := ev_recovery_free_bytes evaluation,
                hs_last_evaluation_at_ms := Some now, hs_last_evaluation_trigger := Some trigger\<rparr> in
      if \<not> hs_cleanup_running s
      then let s = s\<lparr>hs_recording_state := state_for (ev_pressure evaluation)\<rparr>
           in if was_paused \<and> hs_recording_state s = RecordingActive then s\<lparr>hs_last_recovered_at_ms := Some later\<rparr> else s
      else s)"

definition cleanup_started :: "StorageCleanupReason \<Rightarrow> u64 \<Rightarrow> StorageSafetyHealthSnapshot \<Rightarrow> StorageSafetyHealthSnapshot" where
  "cleanup_started reason now s =
     s\<lparr>hs_cleanup_running := True, hs_recording_state := RecordingDegraded, hs_last_cleanup_started_at_ms := Some now,
       hs_last_cleanup_ended_at_ms := None, hs_last_cleanup_files_removed := 0, hs_last_cleanup_bytes_removed := 0,
       hs_last_cleanup_reason := Some reason\<rparr>"

definition cleanup_finished :: "u64 \<Rightarrow> u64 \<Rightarrow> u64 \<Rightarrow> StorageSafetyHealthSnapshot \<Rightarrow> StorageSafetyHealthSnapshot" where
  "cleanup_finished files_removed bytes_removed now s =
     s\<lparr>hs_cleanup_running := False, hs_last_cleanup_ended_at_ms := Some now, hs_last_cleanup_files_removed := files_removed,
       hs_last_cleanup_bytes_removed := bytes_removed, hs_recording_state := state_for (hs_pressure s)\<rparr>"

definition cleanup_progress :: "u64 \<Rightarrow> StorageSafetyHealthSnapshot \<Rightarrow> StorageSafetyHealthSnapshot" where
  "cleanup_progress bytes_removed s =
     (if bytes_removed = 0 then s
      else s\<lparr>hs_last_cleanup_files_removed := saturating_add_u64 (hs_last_cleanup_files_removed s) 1,
             hs_last_cleanup_bytes_removed := saturating_add_u64 (hs_last_cleanup_bytes_removed s) bytes_removed\<rparr>)"

definition cleanup_failed :: "scalars \<Rightarrow> u64 \<Rightarrow> StorageSafetyHealthSnapshot \<Rightarrow> StorageSafetyHealthSnapshot" where
  "cleanup_failed error now s =
     s\<lparr>hs_cleanup_running := False, hs_pressure := PressureCritical, hs_recording_state := RecordingPaused,
       hs_last_cleanup_ended_at_ms := Some now, hs_last_failure_at_ms := Some now,
       hs_last_failure := Some (take MAX_ERROR_CHARS error)\<rparr>"

definition recording_paused :: "StorageSafetyHealthSnapshot \<Rightarrow> bool" where
  "recording_paused s \<longleftrightarrow> hs_recording_state s = RecordingPaused"

section \<open>Percentages\<close>

lemma percent_split:
  fixes v p :: nat
  shows "v div 100 * p + v mod 100 * p div 100 = v * p div 100"
proof -
  have "v * p = (v div 100 * 100 + v mod 100) * p" by (metis div_mult_mod_eq)
  then have "v * p = 100 * (v div 100 * p) + v mod 100 * p" by (simp only: add_mult_distrib mult.assoc mult.left_commute)
  then show ?thesis by (metis add.commute div_mult_self2 zero_neq_numeral)
qed

text \<open>
  \<open>percent_of\<close> computes the rounded-down percentage exactly, for every 64-bit size and percentage;
  the intermediate products of its split form never leave the 64-bit range.
\<close>

theorem percent_of_exact:
  "percent_of v p = v * min p 100 div 100 \<and> percent_of v p \<le> v
   \<and> v div 100 * min p 100 \<le> v \<and> v mod 100 * min p 100 \<le> 9900"
proof -
  have eq: "percent_of v p = v * min p 100 div 100" by (simp add: percent_of_def percent_split Let_def)
  have "v * min p 100 \<le> v * 100" by simp
  then have "v * min p 100 div 100 \<le> v" by (metis div_le_mono nonzero_mult_div_cancel_right zero_neq_numeral)
  moreover have "v div 100 * min p 100 \<le> v"
    by (metis div_mult_mod_eq le_add1 le_trans min.cobounded2 mult_le_mono2)
  moreover have "v mod 100 * min p 100 \<le> 99 * 100"
  proof (rule mult_le_mono)
    show "v mod 100 \<le> 99" using mod_less_divisor [of 100 v] by linarith
  qed simp
  ultimately show ?thesis using eq by simp
qed

section \<open>Cleanup targets\<close>

text \<open>A capacity that adds up: what is free and what the program uses fit in the filesystem.\<close>

definition capacity_ok :: "FilesystemCapacity \<Rightarrow> bool" where
  "capacity_ok c \<longleftrightarrow> available_bytes c + keeppeek_bytes c \<le> total_bytes c \<and> total_bytes c \<le> u64_max"

definition other_bytes :: "FilesystemCapacity \<Rightarrow> nat" where
  "other_bytes c = total_bytes c - available_bytes c - keeppeek_bytes c"

lemma capacity_min:
  "capacity_ok c \<Longrightarrow> min (available_bytes c) (total_bytes c) = available_bytes c"
  "capacity_ok c \<Longrightarrow> min (keeppeek_bytes c) (total_bytes c) = keeppeek_bytes c"
  by (simp_all add: capacity_ok_def)

lemma required_iff:
  assumes "capacity_ok c"
  shows "ev_cleanup_required (evaluate p c) \<longleftrightarrow>
    0 < archive_max_bytes p \<and> archive_max_bytes p < keeppeek_bytes c \<or> available_bytes c < warning_level p (total_bytes c)"
  unfolding evaluate_def Let_def capacity_min [OF assms] by auto

lemma recovery_evaluate:
  "ev_recovery_free_bytes (evaluate p c) =
     (if warning_level p (total_bytes c) = 0 then 0
      else min (saturating_add_u64 (warning_level p (total_bytes c)) (cleanup_hysteresis_bytes p)) (total_bytes c))"
  by (simp add: evaluate_def Let_def)

lemma minimum_limit_le: "minimum_limit x y = Some t \<Longrightarrow> is_none_or x (\<lambda>l. t \<le> l) \<and> is_none_or y (\<lambda>l. t \<le> l)"
  by (cases x; cases y) auto

lemma target_bounds:
  assumes "capacity_ok c" "ev_cleanup_target_bytes (evaluate p c) = Some t"
  shows "0 < archive_max_bytes p \<Longrightarrow> t \<le> archive_max_bytes p"
    "0 < warning_level p (total_bytes c) \<Longrightarrow>
       t \<le> total_bytes c - other_bytes c - ev_recovery_free_bytes (evaluate p c)"
proof -
  let ?a = "map_option (\<lambda>limit. saturating_sub_u64 limit (cleanup_hysteresis_bytes p))
    (if archive_max_bytes p > 0 then Some (archive_max_bytes p) else None)"
  let ?f = "if 0 < warning_level p (total_bytes c)
    then Some (total_bytes c - other_bytes c - ev_recovery_free_bytes (evaluate p c)) else None"
  have t: "t = (case minimum_limit ?a ?f of None \<Rightarrow> keeppeek_bytes c | Some t \<Rightarrow> t)"
    using assms(2) unfolding recovery_evaluate evaluate_def Let_def capacity_min [OF assms(1)] saturating_sub_u64_def other_bytes_def
    by (simp split: if_splits)
  show "0 < archive_max_bytes p \<Longrightarrow> t \<le> archive_max_bytes p"
    using t minimum_limit_le [of ?a ?f t] by (cases "minimum_limit ?a ?f") (auto simp: saturating_sub_u64_def split: if_splits)
  show "0 < warning_level p (total_bytes c) \<Longrightarrow> t \<le> total_bytes c - other_bytes c - ev_recovery_free_bytes (evaluate p c)"
    using t minimum_limit_le [of ?a ?f t] by (cases "minimum_limit ?a ?f") (auto split: if_splits)
qed

lemma critical_below_warning: "critical_level p \<le> u64_max \<Longrightarrow> critical_level p \<le> warning_level p n"
  by (auto simp: warning_level_def saturating_add_u64_def)

lemma pressure_evaluate:
  assumes "capacity_ok c"
  shows "ev_pressure (evaluate p c) = (if available_bytes c < critical_level p then PressureCritical
      else if ev_cleanup_required (evaluate p c) then PressureWarning else PressureNormal)"
  unfolding evaluate_def Let_def capacity_min [OF assms] by auto

text \<open>
  C23: a cleanup that brings the program's bytes down to the target, with everything else on the
  filesystem unchanged, ends the pressure: the next evaluation needs no cleanup. The only other case is
  that nothing of the program's is left to remove.
\<close>

theorem cleanup_target_suffices:
  assumes ok: "capacity_ok c" and fits: "critical_level p \<le> u64_max"
    and target: "ev_cleanup_target_bytes (evaluate p c) = Some t"
    and removed: "removed \<le> keeppeek_bytes c" "keeppeek_bytes c - removed \<le> t"
    and c': "c' = c\<lparr>keeppeek_bytes := keeppeek_bytes c - removed, available_bytes := available_bytes c + removed\<rparr>"
  shows "(\<not> ev_cleanup_required (evaluate p c') \<and> ev_pressure (evaluate p c') = PressureNormal) \<or> keeppeek_bytes c' = 0"
proof (cases "keeppeek_bytes c' = 0")
  case False
  let ?w = "warning_level p (total_bytes c)"
  have ok': "capacity_ok c'" using ok removed c' by (simp add: capacity_ok_def)
  have free: "?w \<le> available_bytes c'"
  proof (cases "?w = 0")
    case pos: False
    let ?r = "ev_recovery_free_bytes (evaluate p c)"
    have "keeppeek_bytes c' \<le> total_bytes c - other_bytes c - ?r"
      using target_bounds(2) [OF ok target] removed(2) c' pos by simp
    moreover have "other_bytes c = total_bytes c - available_bytes c - keeppeek_bytes c"
      "available_bytes c + keeppeek_bytes c \<le> total_bytes c" "total_bytes c \<le> u64_max"
      using ok by (simp_all add: other_bytes_def capacity_ok_def)
    moreover have "available_bytes c' + keeppeek_bytes c' = available_bytes c + keeppeek_bytes c"
      using removed(1) c' by simp
    ultimately have r: "?r \<le> available_bytes c'" "?r < u64_max" "?r < total_bytes c"
      using False by linarith+
    then have "?r = ?w + cleanup_hysteresis_bytes p"
      using pos by (auto simp: recovery_evaluate saturating_add_u64_def min_def split: if_splits)
    with r(1) show ?thesis by linarith
  qed simp
  have "0 < archive_max_bytes p \<Longrightarrow> keeppeek_bytes c' \<le> archive_max_bytes p"
    using target_bounds(1) [OF ok target] removed(2) c' by simp
  moreover have "total_bytes c' = total_bytes c" using c' by simp
  ultimately have "\<not> ev_cleanup_required (evaluate p c')"
    unfolding required_iff [OF ok'] using free by auto
  moreover have "\<not> available_bytes c' < critical_level p"
    using free critical_below_warning [OF fits, of "total_bytes c"] by linarith
  ultimately show ?thesis by (simp add: pressure_evaluate [OF ok'])
qed simp

theorem cleanup_target_suffices_witness:
  "(\<not> ev_cleanup_required (evaluate \<lparr>archive_max_bytes = 500, minimum_free_bytes = 100, maximum_used_percent = Some 80,
       p_warning_free_bytes = 0, p_critical_free_bytes = 50, cleanup_hysteresis_bytes = 20\<rparr>
       \<lparr>total_bytes = 1000, available_bytes = 220, keeppeek_bytes = 430\<rparr>)
    \<and> ev_pressure (evaluate \<lparr>archive_max_bytes = 500, minimum_free_bytes = 100, maximum_used_percent = Some 80,
       p_warning_free_bytes = 0, p_critical_free_bytes = 50, cleanup_hysteresis_bytes = 20\<rparr>
       \<lparr>total_bytes = 1000, available_bytes = 220, keeppeek_bytes = 430\<rparr>) = PressureNormal) \<or> (430 :: nat) = 0"
  using cleanup_target_suffices [of "\<lparr>total_bytes = 1000, available_bytes = 50, keeppeek_bytes = 600\<rparr>"
    "\<lparr>archive_max_bytes = 500, minimum_free_bytes = 100, maximum_used_percent = Some 80,
       p_warning_free_bytes = 0, p_critical_free_bytes = 50, cleanup_hysteresis_bytes = 20\<rparr>" 430 170
    "\<lparr>total_bytes = 1000, available_bytes = 220, keeppeek_bytes = 430\<rparr>"]
  by (simp add: capacity_ok_def critical_level_def u64_max_def) (simp add: evaluate_def warning_level_def critical_level_def
      percent_of_def saturating_add_u64_def saturating_sub_u64_def u64_max_def Let_def)

section \<open>Health\<close>

text \<open>Any sequence of updates of the health record, with the evaluations that the policy makes.\<close>

datatype SafetyOp =
  Observe StorageCleanupTrigger StorageSafetyPolicy FilesystemCapacity u64 u64
| CleanupStarted StorageCleanupReason u64
| CleanupFinished u64 u64 u64
| CleanupProgress u64
| CleanupFailed scalars u64

fun safety_step :: "StorageSafetyHealthSnapshot \<Rightarrow> SafetyOp \<Rightarrow> StorageSafetyHealthSnapshot" where
  "safety_step s (Observe trigger p c now later) = observe trigger c (evaluate p c) now later s"
| "safety_step s (CleanupStarted reason now) = cleanup_started reason now s"
| "safety_step s (CleanupFinished files_removed bytes_removed now) = cleanup_finished files_removed bytes_removed now s"
| "safety_step s (CleanupProgress bytes_removed) = cleanup_progress bytes_removed s"
| "safety_step s (CleanupFailed error now) = cleanup_failed error now s"

definition health_ok :: "StorageSafetyHealthSnapshot \<Rightarrow> bool" where
  "health_ok s \<longleftrightarrow>
     (if hs_cleanup_running s then hs_recording_state s = RecordingDegraded
      else hs_recording_state s = state_for (hs_pressure s)
        \<or> hs_recording_state s = RecordingPaused \<and> hs_pressure s = PressureCritical \<and> hs_last_failure s \<noteq> None)
     \<and> is_none_or (hs_last_failure s) (\<lambda>e. length e \<le> MAX_ERROR_CHARS)"

lemma state_for_not_paused [simp]: "state_for x \<noteq> RecordingPaused" "RecordingPaused \<noteq> state_for x"
  by (cases x; simp)+

lemma state_for_active: "state_for x = RecordingActive \<longleftrightarrow> x = PressureNormal"
  by (cases x) simp_all

interpretation health: machine safety_step health_ok
proof
  fix s x
  assume "health_ok s"
  then show "health_ok (safety_step s x)"
    by (cases x)
      (auto simp: health_ok_def observe_def cleanup_started_def cleanup_finished_def cleanup_progress_def
        cleanup_failed_def Let_def)
qed

lemma health_run: "health_ok (foldl safety_step snapshot_default ops)"
  by (rule health.run_inv) (simp add: health_ok_def snapshot_default_def)

text \<open>
  C24: in every history of the health record, recording pauses only with a recorded cleanup failure and
  critical pressure, never while a cleanup runs; recording is active only under normal pressure; and
  the stored failure text is bounded.
\<close>

theorem recording_pause_justified:
  assumes "s = foldl safety_step snapshot_default ops"
  shows "(recording_paused s \<longrightarrow> hs_last_failure s \<noteq> None \<and> hs_pressure s = PressureCritical \<and> \<not> hs_cleanup_running s)
    \<and> (hs_recording_state s = RecordingActive \<longrightarrow> hs_pressure s = PressureNormal)
    \<and> is_none_or (hs_last_failure s) (\<lambda>e. length e \<le> MAX_ERROR_CHARS)"
  using health_run [of ops] assms
  by (auto simp: health_ok_def recording_paused_def state_for_active [symmetric] split: if_splits)

definition demo_safety_ops :: "SafetyOp list" where
  "demo_safety_ops = [CleanupStarted Combined 5, CleanupProgress 10, CleanupFailed (replicate 300 65) 9]"

theorem recording_pause_justified_witness:
  "recording_paused (foldl safety_step snapshot_default demo_safety_ops)
   \<and> hs_last_failure (foldl safety_step snapshot_default demo_safety_ops) \<noteq> None"
proof -
  have "recording_paused (foldl safety_step snapshot_default demo_safety_ops)" by code_simp
  with recording_pause_justified [OF refl, of demo_safety_ops] show ?thesis by blast
qed

text \<open>
  A pause ends with the next observation outside a cleanup: recording becomes active exactly if the
  evaluation is normal, and then the time of the recovery is noted.
\<close>

theorem observe_recovers:
  assumes "recording_paused s" "\<not> hs_cleanup_running s" "s' = observe trigger c (evaluate p c) now later s"
  shows "\<not> recording_paused s' \<and> (hs_recording_state s' = RecordingActive \<longleftrightarrow> ev_pressure (evaluate p c) = PressureNormal)
    \<and> (ev_pressure (evaluate p c) = PressureNormal \<longrightarrow> hs_last_recovered_at_ms s' = Some later)"
  using assms by (auto simp: observe_def recording_paused_def Let_def state_for_active)

theorem observe_recovers_witness:
  "\<not> recording_paused (observe TriggerPeriodic \<lparr>total_bytes = 1000, available_bytes = 900, keeppeek_bytes = 10\<rparr>
     (evaluate \<lparr>archive_max_bytes = 500, minimum_free_bytes = 100, maximum_used_percent = Some 80,
       p_warning_free_bytes = 0, p_critical_free_bytes = 50, cleanup_hysteresis_bytes = 20\<rparr>
       \<lparr>total_bytes = 1000, available_bytes = 900, keeppeek_bytes = 10\<rparr>) 20 21 (foldl safety_step snapshot_default demo_safety_ops))"
proof -
  have "recording_paused (foldl safety_step snapshot_default demo_safety_ops)"
    "\<not> hs_cleanup_running (foldl safety_step snapshot_default demo_safety_ops)" by code_simp+
  from observe_recovers [OF this refl] show ?thesis by blast
qed

end
