(* ===== verification/Short_Term.thy ===== *)
theory Short_Term
  imports Media_Frame
begin

text \<open>
  The short-term buffer of \<open>src/src/storage/short_term.rs\<close>, between the cameras and the writer of a
  recording. Clock readings count from the epoch of the monotonic clock; a cutoff before the epoch
  lies before every frame, so it selects none, as an overflowing \<open>checked_sub\<close> does. The byte counter
  is a natural number: it counts bytes that are in memory.
\<close>

section \<open>Model\<close>

record ShortTermBuffer =
  chunks :: "RecordingFrame list"
  max_duration :: duration
  st_total_bytes :: usize

definition ShortTermBuffer_new :: "duration \<Rightarrow> ShortTermBuffer" where
  "ShortTermBuffer_new d = \<lparr>chunks = [], max_duration = d, st_total_bytes = 0\<rparr>"

text \<open>The loop that takes frames from the front while they are older than the cutoff.\<close>

fun pop_before :: "instant \<Rightarrow> RecordingFrame list \<Rightarrow> usize \<Rightarrow> RecordingFrame list \<times> RecordingFrame list \<times> usize" where
  "pop_before cutoff [] n = ([], [], n)"
| "pop_before cutoff (f # fs) n =
     (if received_at f < cutoff
      then let (drained, rest, n) = pop_before cutoff fs (n - byte_len f) in (f # drained, rest, n)
      else ([], f # fs, n))"

definition evict_expired :: "ShortTermBuffer \<Rightarrow> ShortTermBuffer" where
  "evict_expired b =
     (if chunks b = [] then b
      else let newest = last (chunks b) in
        if max_duration b > received_at newest then b
        else let (_, rest, n) = pop_before (received_at newest - max_duration b) (chunks b) (st_total_bytes b)
             in b\<lparr>chunks := rest, st_total_bytes := n\<rparr>)"

definition push :: "RecordingFrame \<Rightarrow> ShortTermBuffer \<Rightarrow> ShortTermBuffer" where
  "push f b = evict_expired (b\<lparr>st_total_bytes := st_total_bytes b + byte_len f, chunks := chunks b @ [f]\<rparr>)"

definition drain_before :: "instant \<Rightarrow> ShortTermBuffer \<Rightarrow> ShortTermBuffer \<times> RecordingFrame list" where
  "drain_before cutoff b =
     (let (drained, rest, n) = pop_before cutoff (chunks b) (st_total_bytes b)
      in (b\<lparr>chunks := rest, st_total_bytes := n\<rparr>, drained))"

text \<open>The indices of the frames that satisfy a predicate, as \<open>enumerate\<close> gives them.\<close>

definition indices :: "('a \<Rightarrow> bool) \<Rightarrow> 'a list \<Rightarrow> nat list" where
  "indices P xs = filter (\<lambda>i. P (xs ! i)) [0..<length xs]"

definition key_before :: "instant \<Rightarrow> RecordingFrame \<Rightarrow> bool" where
  "key_before cutoff f \<longleftrightarrow> is_video_keyframe f \<and> received_at f < cutoff"

primrec pop_frames :: "nat \<Rightarrow> RecordingFrame list \<times> usize \<Rightarrow> RecordingFrame list \<times> RecordingFrame list \<times> usize" where
  "pop_frames 0 b = ([], b)"
| "pop_frames (Suc k) b =
     (case b of
        ([], n) \<Rightarrow> ([], [], n)
      | (f # fs, n) \<Rightarrow> let (drained, b) = pop_frames k (fs, n - byte_len f) in (f # drained, b))"

definition drain_up_to_last_keyframe_before :: "instant \<Rightarrow> ShortTermBuffer \<Rightarrow> ShortTermBuffer \<times> RecordingFrame list" where
  "drain_up_to_last_keyframe_before cutoff b =
     (case indices (key_before cutoff) (chunks b) of
        [] \<Rightarrow> (b, [])
      | start # later \<Rightarrow>
          let last_kf = last (start # later);
              end = (case filter (\<lambda>i. i \<ge> Suc last_kf) (indices is_video_keyframe (chunks b)) of
                       i # _ \<Rightarrow> i | [] \<Rightarrow> Suc last_kf);
              (_, fs, n) = pop_frames start (chunks b, st_total_bytes b);
              (drained, fs, n) = pop_frames (end - start) (fs, n)
          in (b\<lparr>chunks := fs, st_total_bytes := n\<rparr>, drained))"

definition drain_all :: "ShortTermBuffer \<Rightarrow> ShortTermBuffer \<times> RecordingFrame list" where
  "drain_all b = (b\<lparr>chunks := [], st_total_bytes := 0\<rparr>, chunks b)"

definition st_len :: "ShortTermBuffer \<Rightarrow> usize" where
  "st_len b = length (chunks b)"

definition st_is_empty :: "ShortTermBuffer \<Rightarrow> bool" where
  "st_is_empty b \<longleftrightarrow> chunks b = []"

definition st_duration :: "ShortTermBuffer \<Rightarrow> duration" where
  "st_duration b = (case chunks b of [] \<Rightarrow> 0 | f # _ \<Rightarrow> received_at (last (chunks b)) - received_at f)"

section \<open>Accounting\<close>

definition bytes_of :: "RecordingFrame list \<Rightarrow> nat" where
  "bytes_of fs = sum_list (map byte_len fs)"

definition st_ok :: "ShortTermBuffer \<Rightarrow> bool" where
  "st_ok b \<longleftrightarrow> st_total_bytes b = bytes_of (chunks b)"

lemma pop_before_split:
  "pop_before cutoff fs (bytes_of fs) =
     (takeWhile (\<lambda>f. received_at f < cutoff) fs, dropWhile (\<lambda>f. received_at f < cutoff) fs,
      bytes_of (dropWhile (\<lambda>f. received_at f < cutoff) fs))"
  by (induction fs) (simp_all add: bytes_of_def)

lemma pop_frames_split: "pop_frames k (fs, bytes_of fs) = (take k fs, drop k fs, bytes_of (drop k fs))"
  by (induction k arbitrary: fs) (auto simp: bytes_of_def split: list.split)

lemma evict_expired_chunks:
  assumes "st_ok b"
  shows "st_ok (evict_expired b) \<and> (\<exists>old. chunks b = old @ chunks (evict_expired b))"
proof -
  let ?p = "\<lambda>f. received_at f < received_at (last (chunks b)) - max_duration b"
  have "chunks b = takeWhile ?p (chunks b) @ dropWhile ?p (chunks b)" by simp
  then have "\<exists>old. chunks b = old @ dropWhile ?p (chunks b)" by blast
  with assms show ?thesis by (auto simp: st_ok_def evict_expired_def pop_before_split Let_def)
qed

lemma push_chunks:
  assumes "st_ok b"
  shows "st_ok (push f b) \<and> (\<exists>old. chunks b @ [f] = old @ chunks (push f b))"
proof -
  have "st_ok (b\<lparr>st_total_bytes := st_total_bytes b + byte_len f, chunks := chunks b @ [f]\<rparr>)"
    using assms by (simp add: st_ok_def bytes_of_def)
  from evict_expired_chunks [OF this] show ?thesis by (simp add: push_def)
qed

lemma drain_before_chunks:
  assumes "st_ok b" "drain_before cutoff b = (b', drained)"
  shows "st_ok b' \<and> chunks b = drained @ chunks b'"
  using assms by (auto simp: st_ok_def drain_before_def pop_before_split)

section \<open>Keyframe drain\<close>

lemma indices_iff: "i \<in> set (indices P xs) \<longleftrightarrow> i < length xs \<and> P (xs ! i)"
  by (auto simp: indices_def)

lemma indices_sorted: "sorted_wrt (<) (indices P xs)"
  by (simp add: indices_def sorted_wrt_filter)

lemma sorted_le_last:
  fixes xs :: "nat list"
  shows "sorted xs \<Longrightarrow> x \<in> set xs \<Longrightarrow> x \<le> last xs"
  by (induction xs) (auto split: if_splits)

lemma indices_first_last:
  assumes "indices P xs = i # is"
  shows "i \<le> last (i # is)" "last (i # is) < length xs" "P (xs ! i)" "P (xs ! last (i # is))"
    "k < length xs \<Longrightarrow> P (xs ! k) \<Longrightarrow> i \<le> k \<and> k \<le> last (i # is)"
proof -
  have srt: "sorted (i # is)" using indices_sorted [of P xs] assms strict_sorted_iff by metis
  have mem: "k \<in> set (i # is) \<longleftrightarrow> k < length xs \<and> P (xs ! k)" for k using indices_iff [of k P xs] assms by simp
  have "last (i # is) \<in> set (i # is)" by (rule last_in_set) simp
  with mem show "last (i # is) < length xs" "P (xs ! last (i # is))" by blast+
  show "P (xs ! i)" using mem [of i] by simp
  show "i \<le> last (i # is)" using sorted_le_last [OF srt, of i] by simp
  show "k < length xs \<Longrightarrow> P (xs ! k) \<Longrightarrow> i \<le> k \<and> k \<le> last (i # is)"
    using mem [of k] srt sorted_le_last [OF srt, of k] by auto
qed

lemma first_after:
  assumes "n < length xs" "stop = (case filter (\<lambda>i. i \<ge> Suc n) (indices P xs) of i # _ \<Rightarrow> i | [] \<Rightarrow> Suc n)"
  shows "n < stop" "stop \<le> length xs"
    "stop < length xs \<and> P (xs ! stop) \<or> (\<forall>j < length xs. n < j \<longrightarrow> \<not> P (xs ! j)) \<and> stop = Suc n"
    "n < j \<Longrightarrow> j < stop \<Longrightarrow> \<not> P (xs ! j)"
proof -
  let ?later = "filter (\<lambda>i. i \<ge> Suc n) (indices P xs)"
  have iff: "j \<in> set ?later \<longleftrightarrow> j < length xs \<and> n < j \<and> P (xs ! j)" for j by (auto simp: indices_iff)
  have srt: "sorted ?later" using indices_sorted [of P xs] by (simp add: strict_sorted_iff sorted_wrt_filter)
  have "(n < stop \<and> stop \<le> length xs) \<and> (stop < length xs \<and> P (xs ! stop) \<or> (\<forall>j < length xs. n < j \<longrightarrow> \<not> P (xs ! j)) \<and> stop = Suc n)
      \<and> (\<forall>j. n < j \<longrightarrow> j < stop \<longrightarrow> \<not> P (xs ! j))"
  proof (cases ?later)
    case Nil
    then have "j \<notin> set ?later" for j by simp
    with Nil assms iff show ?thesis by auto
  next
    case (Cons e es)
    then have e: "stop = e" "e < length xs \<and> n < e \<and> P (xs ! e)" using assms(2) iff [of e] by simp_all
    have "\<not> P (xs ! j)" if "n < j" "j < e" for j
      using iff [of j] srt that e(2) unfolding Cons by auto
    with e show ?thesis by auto
  qed
  then show "n < stop" "stop \<le> length xs"
    "stop < length xs \<and> P (xs ! stop) \<or> (\<forall>j < length xs. n < j \<longrightarrow> \<not> P (xs ! j)) \<and> stop = Suc n"
    "n < j \<Longrightarrow> j < stop \<Longrightarrow> \<not> P (xs ! j)"
    by blast+
qed

lemma in_set_drop:
  assumes "x \<in> set (drop n xs)"
  obtains i where "n \<le> i" "i < length xs" "x = xs ! i"
proof -
  obtain i where "i < length (drop n xs)" "x = drop n xs ! i" using assms by (metis in_set_conv_nth)
  then show thesis using that [of "n + i"] by simp
qed

text \<open>Where the drain cuts the buffer.\<close>

lemma drain_up_to_split:
  assumes ok: "st_ok b" and keys: "indices (key_before cutoff) (chunks b) = start # later"
    and stop: "stop = (case filter (\<lambda>i. i \<ge> Suc (last (start # later))) (indices is_video_keyframe (chunks b)) of
                 i # _ \<Rightarrow> i | [] \<Rightarrow> Suc (last (start # later)))"
  shows "drain_up_to_last_keyframe_before cutoff b =
      (b\<lparr>chunks := drop stop (chunks b), st_total_bytes := bytes_of (drop stop (chunks b))\<rparr>, take (stop - start) (drop start (chunks b)))"
proof -
  have "start \<le> stop" using indices_first_last(1,2) [OF keys] first_after(1) [OF _ stop] by simp
  then have "drop (stop - start) (drop start (chunks b)) = drop stop (chunks b)" by simp
  moreover have "st_total_bytes b = bytes_of (chunks b)" using ok by (simp add: st_ok_def)
  ultimately show ?thesis
    unfolding drain_up_to_last_keyframe_before_def keys list.case Let_def stop [symmetric]
    by (simp only: pop_frames_split prod.case)
qed

lemma drain_up_to_ok: "st_ok b \<Longrightarrow> st_ok (fst (drain_up_to_last_keyframe_before cutoff b))"
  using drain_up_to_split [of b cutoff _ _ _, OF _ _ refl]
  by (cases "indices (key_before cutoff) (chunks b)") (simp_all add: st_ok_def drain_up_to_last_keyframe_before_def)

section \<open>Properties\<close>

text \<open>
  C25: a keyframe drain that returns something cuts the buffer in three: frames before the first keyframe that is old enough,
  which it discards; the frames it returns, which start with that keyframe and hold every other one that
  is old enough; and the rest, which it keeps. The rest starts with a keyframe whenever there is one
  behind the last old one.
\<close>

theorem drain_up_to_keyframe_cut:
  assumes ok: "st_ok b" and run: "drain_up_to_last_keyframe_before cutoff b = (b', drained)" and some: "drained \<noteq> []"
  shows "\<exists>skipped. chunks b = skipped @ drained @ chunks b'
    \<and> list_all (\<lambda>f. \<not> key_before cutoff f) (skipped @ chunks b')
    \<and> key_before cutoff (hd drained)
    \<and> (list_all (\<lambda>f. \<not> is_video_keyframe f) (chunks b') \<or> is_video_keyframe (hd (chunks b')))"
proof (cases "indices (key_before cutoff) (chunks b)")
  case Nil
  with run some show ?thesis by (simp add: drain_up_to_last_keyframe_before_def)
next
  case (Cons start later)
  let ?xs = "chunks b" and ?n = "last (start # later)"
  define stop where "stop = (case filter (\<lambda>i. i \<ge> Suc ?n) (indices is_video_keyframe ?xs) of i # _ \<Rightarrow> i | [] \<Rightarrow> Suc ?n)"
  note keys = indices_first_last [OF Cons]
  note cut = first_after [OF keys(2) stop_def]
  have eq: "chunks b' = drop stop ?xs" "drained = take (stop - start) (drop start ?xs)"
    using run drain_up_to_split [OF ok Cons stop_def] by auto
  have le: "start < stop" using keys(1) cut(1) by linarith
  have "take start ?xs @ take (stop - start) (drop start ?xs) = take stop ?xs"
    using le by (metis le_add_diff_inverse less_imp_le take_add)
  then have parts: "?xs = take start ?xs @ drained @ chunks b'"
    by (metis append.assoc append_take_drop_id eq)
  have "\<not> key_before cutoff f" if "f \<in> set (take start ?xs)" for f
    using that keys(5) by (fastforce simp: in_set_conv_nth)
  moreover have "\<not> key_before cutoff f" if "f \<in> set (chunks b')" for f
  proof -
    obtain i where "stop \<le> i" "i < length ?xs" "f = ?xs ! i" using in_set_drop [OF \<open>f \<in> set (chunks b')\<close> [unfolded eq(1)]] by blast
    with keys(5) [of i] cut(1) show ?thesis by auto
  qed
  moreover have "hd drained = ?xs ! start"
    using le keys(1,2) eq(2) by (simp add: hd_conv_nth hd_drop_conv_nth take_eq_Nil)
  moreover have "list_all (\<lambda>f. \<not> is_video_keyframe f) (chunks b') \<or> is_video_keyframe (hd (chunks b'))"
    using cut(3)
  proof
    assume "stop < length ?xs \<and> is_video_keyframe (?xs ! stop)"
    then show ?thesis by (simp add: eq(1) hd_drop_conv_nth)
  next
    assume "(\<forall>j < length ?xs. ?n < j \<longrightarrow> \<not> is_video_keyframe (?xs ! j)) \<and> stop = Suc ?n"
    then show ?thesis unfolding eq(1) list_all_iff by (metis Suc_le_lessD in_set_drop)
  qed
  ultimately show ?thesis using parts keys(3) by (auto simp: list_all_iff)
qed

definition st_video :: "nat \<Rightarrow> bool \<Rightarrow> RecordingFrame" where
  "st_video t key = \<lparr>received_at = t, timestamp = Some t,
     media = Video \<lparr>v_codec = H264, v_is_keyframe = key, v_width = 4, v_height = 2, v_data = [0, 1]\<rparr>\<rparr>"

definition st_demo :: ShortTermBuffer where
  "st_demo = fold push [st_video 5 False, st_video 10 True, st_video 12 False, st_video 20 True, st_video 22 False]
     (ShortTermBuffer_new 1000)"

lemma st_demo_ok: "st_ok st_demo"
  unfolding st_ok_def by code_simp

theorem drain_up_to_keyframe_cut_witness:
  "\<exists>skipped. chunks st_demo = skipped @ snd (drain_up_to_last_keyframe_before 15 st_demo)
     @ chunks (fst (drain_up_to_last_keyframe_before 15 st_demo))"
proof -
  have "snd (drain_up_to_last_keyframe_before 15 st_demo) \<noteq> []" by code_simp
  from drain_up_to_keyframe_cut [OF st_demo_ok surjective_pairing this] show ?thesis by blast
qed

text \<open>Any sequence of operations on a buffer; every operation keeps the byte counter exact.\<close>

datatype ShortTermOp = StPush RecordingFrame | StDrainBefore instant | StDrainUpTo instant | StDrainAll

fun st_step :: "ShortTermBuffer \<Rightarrow> ShortTermOp \<Rightarrow> ShortTermBuffer" where
  "st_step b (StPush f) = push f b"
| "st_step b (StDrainBefore cutoff) = fst (drain_before cutoff b)"
| "st_step b (StDrainUpTo cutoff) = fst (drain_up_to_last_keyframe_before cutoff b)"
| "st_step b StDrainAll = fst (drain_all b)"

interpretation short_term: machine st_step st_ok
proof
  fix b x
  assume "st_ok b"
  then show "st_ok (st_step b x)"
    using push_chunks drain_up_to_ok drain_before_chunks [OF _ surjective_pairing]
    by (cases x) (simp_all add: drain_all_def, simp add: st_ok_def bytes_of_def)
qed

text \<open>
  after any sequence of pushes and drains the byte counter is the number of bytes in the buffer, so
  none of its subtractions underflows.
\<close>

theorem short_term_bytes_exact:
  "st_total_bytes (foldl st_step (ShortTermBuffer_new d) ops)
     = sum_list (map byte_len (chunks (foldl st_step (ShortTermBuffer_new d) ops)))"
  using short_term.run_inv [of "ShortTermBuffer_new d" ops]
  by (simp add: st_ok_def bytes_of_def ShortTermBuffer_new_def)

lemma push_last: "st_ok b \<Longrightarrow> \<exists>old. chunks b @ [f] = old @ chunks (push f b) \<and> chunks (push f b) \<noteq> []"
proof -
  assume ok: "st_ok b"
  let ?b = "b\<lparr>st_total_bytes := st_total_bytes b + byte_len f, chunks := chunks b @ [f]\<rparr>"
  have "dropWhile (\<lambda>x. received_at x < received_at f - d) (chunks b @ [f]) \<noteq> []" for d :: nat
    by (auto simp: dropWhile_eq_Nil_conv)
  moreover have "st_ok ?b" using ok by (simp add: st_ok_def bytes_of_def)
  ultimately have "chunks (push f b) \<noteq> []"
    by (auto simp: push_def evict_expired_def st_ok_def pop_before_split Let_def)
  with push_chunks [OF ok] show ?thesis by blast
qed

text \<open>Only the last frame of the buffer is a keyframe, and it is old enough: the drain takes it alone.\<close>

lemma drain_single_key:
  assumes "st_ok b" "chunks b = dependents @ [key]" "list_all (\<lambda>f. \<not> is_video_keyframe f) dependents" "key_before cutoff key"
  shows "drain_up_to_last_keyframe_before cutoff b = (b\<lparr>chunks := [], st_total_bytes := 0\<rparr>, [key])"
proof -
  have idx: "indices P (dependents @ [key]) = [length dependents]" if "P key" "list_all (\<lambda>f. \<not> P f) dependents" for P
  proof -
    have "indices P (dependents @ [key]) = filter (\<lambda>i. P ((dependents @ [key]) ! i)) [0..<length dependents] @ [length dependents]"
      using that(1) by (simp add: indices_def)
    moreover have "filter (\<lambda>i. P ((dependents @ [key]) ! i)) [0..<length dependents] = []"
      using that(2) by (auto simp: filter_empty_conv nth_append list_all_length)
    ultimately show ?thesis by simp
  qed
  have "list_all (\<lambda>f. \<not> key_before cutoff f) dependents" using assms(3) by (auto simp: key_before_def list_all_iff)
  with idx [of "key_before cutoff"] assms(4) have "indices (key_before cutoff) (chunks b) = [length dependents]" by (simp add: assms(2))
  moreover have "indices is_video_keyframe (chunks b) = [length dependents]"
    using idx [of is_video_keyframe] assms(3,4) by (simp add: assms(2) key_before_def)
  ultimately show ?thesis
    using drain_up_to_split [OF assms(1), of cutoff "length dependents" "[]" "Suc (length dependents)"] by (simp add: assms(2) bytes_of_def)
qed

text \<open>
  C26: an open group is lost. Take any buffer in which a keyframe that is old enough has no keyframe behind
  it. The drain returns what it returns up to that keyframe and leaves the group behind the keyframe in
  the buffer. When the next keyframe arrives and is old enough, the drain returns that keyframe alone
  and the buffer is empty: every frame of the group was received and is neither written nor kept.
\<close>

theorem drain_loses_open_group:
  assumes ok: "st_ok b" and split: "chunks b = front @ key # dependents" and key: "key_before cutoff key"
    and open_group: "list_all (\<lambda>f. \<not> is_video_keyframe f) dependents" and next_key: "key_before cutoff' new_key"
    and run: "drain_up_to_last_keyframe_before cutoff b = (b1, written1)"
      "drain_up_to_last_keyframe_before cutoff' (push new_key b1) = (b2, written2)"
  shows "chunks b1 = dependents \<and> (\<exists>skipped. chunks b = skipped @ written1 @ dependents) \<and> written2 = [new_key] \<and> chunks b2 = []"
proof -
  let ?xs = "chunks b" and ?n = "length front"
  have at: "?xs ! ?n = key" "?n < length ?xs" by (simp_all add: split)
  have "?n \<in> set (indices (key_before cutoff) ?xs)" using key at by (simp add: indices_iff)
  then obtain start later where keys: "indices (key_before cutoff) ?xs = start # later"
    by (cases "indices (key_before cutoff) ?xs") auto
  note fl = indices_first_last [OF keys]
  have behind: "\<not> is_video_keyframe (?xs ! j)" if "?n < j" "j < length ?xs" for j
    using that open_group by (auto simp: split nth_append nth_Cons' list_all_length)
  then have last: "last (start # later) = ?n"
    using fl(2,4) fl(5) [OF at(2)] key at(1) by (metis key_before_def le_neq_implies_less)
  have "filter (\<lambda>i. i \<ge> Suc ?n) (indices is_video_keyframe ?xs) = []"
    using behind by (fastforce simp: filter_empty_conv indices_iff)
  then have d: "drain_up_to_last_keyframe_before cutoff b =
      (b\<lparr>chunks := drop (Suc ?n) ?xs, st_total_bytes := bytes_of (drop (Suc ?n) ?xs)\<rparr>, take (Suc ?n - start) (drop start ?xs))"
    using drain_up_to_split [OF ok keys, of "Suc ?n"] by (simp only: last list.case)
  then have b1: "chunks b1 = dependents" "written1 = take (Suc ?n - start) (drop start ?xs)" "st_ok b1"
    using run(1) by (auto simp: split st_ok_def)
  have "start \<le> Suc ?n" using fl(1) last by simp
  then have "take start ?xs @ written1 = take (Suc ?n) ?xs" unfolding b1(2) by (metis le_add_diff_inverse take_add)
  then have "?xs = take start ?xs @ written1 @ dependents" by (simp add: split)
  moreover obtain old where "dependents @ [new_key] = old @ chunks (push new_key b1)" "chunks (push new_key b1) \<noteq> []"
    using push_last [OF b1(3), of "new_key"] b1(1) by auto
  then obtain rest where rest: "chunks (push new_key b1) = rest @ [new_key]" "dependents = old @ rest"
    by (metis append_butlast_last_id append.assoc butlast_snoc last_appendR last_snoc butlast_append)
  have "list_all (\<lambda>f. \<not> is_video_keyframe f) rest" using open_group rest(2) by simp
  with drain_single_key [OF _ rest(1) _ next_key] push_chunks [OF b1(3), of "new_key"] run(2)
  have "written2 = [new_key]" "chunks b2 = []" by auto
  ultimately show ?thesis using b1(1) by blast
qed

theorem drain_loses_open_group_witness:
  "\<exists>b1 written1 b2 written2.
     drain_up_to_last_keyframe_before 11 (fold push [st_video 10 True, st_video 12 False] (ShortTermBuffer_new 1000)) = (b1, written1)
     \<and> drain_up_to_last_keyframe_before 21 (push (st_video 20 True) b1) = (b2, written2)
     \<and> chunks b1 = [st_video 12 False] \<and> written2 = [st_video 20 True] \<and> chunks b2 = []"
proof -
  let ?b = "fold push [st_video 10 True, st_video 12 False] (ShortTermBuffer_new 1000)"
  obtain b1 written1 where 1: "drain_up_to_last_keyframe_before 11 ?b = (b1, written1)" by fastforce
  obtain b2 written2 where 2: "drain_up_to_last_keyframe_before 21 (push (st_video 20 True) b1) = (b2, written2)" by fastforce
  have "st_ok ?b" unfolding st_ok_def by code_simp
  moreover have "chunks ?b = [] @ st_video 10 True # [st_video 12 False]" by code_simp
  moreover have "key_before 11 (st_video 10 True)" "key_before 21 (st_video 20 True)"
    "list_all (\<lambda>f. \<not> is_video_keyframe f) [st_video 12 False]" by code_simp+
  ultimately show ?thesis using drain_loses_open_group [OF _ _ _ _ _ 1 2] 1 2 by blast
qed

end
