(* ===== verification/Recording_Policy.thy ===== *)
theory Recording_Policy
  imports Media_Frame
begin

text \<open>
  The admission policy of \<open>src/src/storage/recording_policy.rs\<close>: which stream of a camera is recorded. In
  boost mode the substream is recorded until an event; then the main stream takes over at its next
  keyframe, and the substream again at its first keyframe after the event.
\<close>

section \<open>Model\<close>

datatype EventMainState = Idle | WaitingForKeyframe | Recording

record CameraRecordingPolicy =
  rp_mode :: CameraRecordingMode
  event_duration :: duration
  main_until :: "instant option"
  event_main_state :: EventMainState

datatype AdmissionDecision = Record | RecordAs string | Ignore

definition CameraRecordingPolicy_new :: "CameraRecordingMode \<Rightarrow> duration \<Rightarrow> CameraRecordingPolicy" where
  "CameraRecordingPolicy_new m d = \<lparr>rp_mode = m, event_duration = d, main_until = None, event_main_state = Idle\<rparr>"

definition policy_note_event :: "instant \<Rightarrow> CameraRecordingPolicy \<Rightarrow> CameraRecordingPolicy" where
  "policy_note_event now p =
     (if rp_mode p \<noteq> EventBoost then p
      else let p = p\<lparr>main_until := checked_add_instant now (event_duration p)\<rparr>
           in if event_main_state p = Idle then p\<lparr>event_main_state := WaitingForKeyframe\<rparr> else p)"

text \<open>The boost-mode match on a video frame of the main stream or the substream.\<close>

definition decide_boost :: "string \<Rightarrow> bool \<Rightarrow> instant \<Rightarrow> CameraRecordingPolicy \<Rightarrow> CameraRecordingPolicy \<times> AdmissionDecision" where
  "decide_boost stream is_key now p =
     (let p = (if event_main_state p = WaitingForKeyframe \<and> is_none_or (main_until p) (\<lambda>deadline. now \<ge> deadline)
               then p\<lparr>event_main_state := Idle, main_until := None\<rparr> else p) in
      case event_main_state p of
        Idle \<Rightarrow> (p, if stream = ''sub'' then RecordAs ''sub'' else Ignore)
      | WaitingForKeyframe \<Rightarrow>
          if stream = ''sub'' then (p, RecordAs ''sub'')
          else if stream = ''main'' \<and> is_key then (p\<lparr>event_main_state := Recording\<rparr>, RecordAs ''sub'')
          else (p, Ignore)
      | Recording \<Rightarrow>
          if is_some_and (main_until p) (\<lambda>deadline. now < deadline) \<and> stream = ''main'' then (p, RecordAs ''sub'')
          else if stream = ''sub'' \<and> is_key \<and> is_none_or (main_until p) (\<lambda>deadline. now \<ge> deadline)
          then (p\<lparr>event_main_state := Idle, main_until := None\<rparr>, RecordAs ''sub'')
          else if stream = ''main'' then (p, RecordAs ''sub'')
          else (p, Ignore))"

definition decide :: "string \<Rightarrow> bool \<Rightarrow> bool \<Rightarrow> instant \<Rightarrow> CameraRecordingPolicy \<Rightarrow> CameraRecordingPolicy \<times> AdmissionDecision" where
  "decide stream video is_key now p =
     (if rp_mode p = Sub \<and> stream = ''sub'' \<or> rp_mode p = Main \<and> stream = ''main''
         \<or> rp_mode p = Both \<and> (stream = ''main'' \<or> stream = ''sub'')
      then (p, Record)
      else if rp_mode p = EventBoost \<and> (stream = ''main'' \<or> stream = ''sub'')
      then if \<not> video
           then (p, if stream = (if event_main_state p = Recording then ''main'' else ''sub'') then RecordAs ''sub'' else Ignore)
           else decide_boost stream is_key now p
      else (p, Ignore))"

definition preferred_audio_stream :: "CameraRecordingPolicy \<Rightarrow> string" where
  "preferred_audio_stream p =
     (case rp_mode p of
        Main \<Rightarrow> ''main''
      | Both \<Rightarrow> ''main''
      | EventBoost \<Rightarrow> if event_main_state p = Recording then ''main'' else ''sub''
      | _ \<Rightarrow> ''sub'')"

section \<open>What boost mode records\<close>

datatype PolicyOp = PolicyEvent instant | PolicyFrame string bool bool instant

text \<open>The accepted frames of a run: stream, whether it is video, whether it is a keyframe.\<close>

fun policy_run :: "PolicyOp list \<Rightarrow> CameraRecordingPolicy \<Rightarrow> CameraRecordingPolicy \<times> (string \<times> bool \<times> bool) list" where
  "policy_run [] p = (p, [])"
| "policy_run (PolicyEvent now # ops) p = policy_run ops (policy_note_event now p)"
| "policy_run (PolicyFrame stream video is_key now # ops) p =
     (let (p, d) = decide stream video is_key now p;
          (p, accepted) = policy_run ops p
      in (p, (if d = Ignore then [] else [(stream, video, is_key)]) @ accepted))"

text \<open>A recording that follows one stream at a time and changes it at video keyframes only.\<close>

fun one_stream :: "string \<Rightarrow> (string \<times> bool \<times> bool) list \<Rightarrow> bool" where
  "one_stream current [] = True"
| "one_stream current ((stream, video, is_key) # fs) =
     ((stream = current \<or> video \<and> is_key) \<and> one_stream stream fs)"

definition current_stream :: "CameraRecordingPolicy \<Rightarrow> string" where
  "current_stream p = (if event_main_state p = Recording then ''main'' else ''sub'')"

lemma note_event_current:
  "rp_mode (policy_note_event now p) = rp_mode p" "current_stream (policy_note_event now p) = current_stream p"
  by (auto simp: policy_note_event_def current_stream_def Let_def)

lemma decide_current:
  assumes "decide stream video is_key now p = (p', d)" "rp_mode p = EventBoost"
  shows "rp_mode p' = EventBoost
    \<and> (if d = Ignore then current_stream p' = current_stream p
       else current_stream p' = stream \<and> (stream = current_stream p \<or> video \<and> is_key))"
proof (cases "video \<and> (stream = ''main'' \<or> stream = ''sub'')")
  case True
  with assms have "decide_boost stream is_key now p = (p', d)" by (auto simp: decide_def)
  with True assms(2) show ?thesis
    by (cases "event_main_state p")
      (auto simp: decide_boost_def current_stream_def Let_def split: if_splits)
next
  case False
  with assms show ?thesis by (auto simp: decide_def current_stream_def split: if_splits)
qed

lemma policy_run_one_stream:
  "rp_mode p = EventBoost \<Longrightarrow> one_stream (current_stream p) (snd (policy_run ops p))"
proof (induction ops p rule: policy_run.induct)
  case (2 now ops p)
  then show ?case by (simp add: note_event_current)
next
  case (3 stream video is_key now ops p)
  obtain p1 d where 1: "decide stream video is_key now p = (p1, d)" by fastforce
  note step = decide_current [OF 1 "3.prems"]
  have IH: "one_stream (current_stream p1) (snd (policy_run ops p1))" using "3.IH" [OF 1 [symmetric] refl] step by simp
  have "snd (policy_run (PolicyFrame stream video is_key now # ops) p)
      = (if d = Ignore then [] else [(stream, video, is_key)]) @ snd (policy_run ops p1)"
    using 1 by (simp add: case_prod_beta)
  with IH step show ?case by (auto split: if_splits)
qed simp

text \<open>
  C27: in boost mode, whatever the order of events and frames, the recorded frames follow one stream at a
  time, audio included; the recording changes between the substream and the main stream only at a video
  keyframe of the stream it changes to, so the recorded sequence is decodable across the switch.
\<close>

theorem boost_switches_at_keyframes:
  "one_stream ''sub'' (snd (policy_run ops (CameraRecordingPolicy_new EventBoost d)))"
  using policy_run_one_stream [of "CameraRecordingPolicy_new EventBoost d" ops]
  by (simp add: CameraRecordingPolicy_new_def current_stream_def)

text \<open>
  A boost ends: once the event's deadline has passed, the next substream keyframe is recorded and the
  policy is back in its initial state.
\<close>

theorem boost_ends:
  assumes "rp_mode p = EventBoost" "is_none_or (main_until p) (\<lambda>deadline. deadline \<le> now)"
    "event_main_state p = Recording"
  shows "decide ''sub'' True True now p = (CameraRecordingPolicy_new EventBoost (event_duration p), RecordAs ''sub'')"
proof -
  have "\<not> is_some_and (main_until p) (\<lambda>deadline. now < deadline)" using assms(2) by (cases "main_until p") auto
  with assms show ?thesis
    by (simp add: decide_def decide_boost_def CameraRecordingPolicy_new_def Let_def)
qed

theorem boost_ends_witness:
  "decide ''sub'' True True 50 \<lparr>rp_mode = EventBoost, event_duration = 10, main_until = Some 40, event_main_state = Recording\<rparr>
     = (CameraRecordingPolicy_new EventBoost 10, RecordAs ''sub'')"
  using boost_ends [of "\<lparr>rp_mode = EventBoost, event_duration = 10, main_until = Some 40, event_main_state = Recording\<rparr>" 50] by simp

end
