(* ===== verification/Recording_Demand.thy ===== *)
theory Recording_Demand
  imports KP_Prelude
begin

text \<open>
  Who needs a stream: \<open>src/src/storage/demand.rs\<close>. Viewers hold guards, other users renew leases. The
  mutex makes each method one step; the clock is an argument. A failed assertion or \<open>expect\<close> is
  \<open>None\<close>. The \<open>HashMap\<close> is an ordered map: the only iteration sorts by stream.
\<close>

section \<open>Model\<close>

record StreamDemand =
  viewers :: usize
  lease_until :: "instant option"

record RecordingDemand =
  inactivity_grace :: duration
  rd_streams :: "(string, StreamDemand) btree"

record RecordingDemandStreamHealth =
  sh_stream_id :: string
  sh_viewers :: usize
  lease_remaining_ms :: "u64 option"

record RecordingDemandHealth =
  active_streams :: usize
  total_viewers :: usize
  leased_streams :: usize
  stream_reports :: "RecordingDemandStreamHealth list"

definition StreamDemand_default :: StreamDemand where
  "StreamDemand_default = \<lparr>viewers = 0, lease_until = None\<rparr>"

definition RecordingDemand_new :: "duration \<Rightarrow> RecordingDemand" where
  "RecordingDemand_new grace = \<lparr>inactivity_grace = grace, rd_streams = []\<rparr>"

text \<open>\<open>entry(stream).or_default()\<close>.\<close>

definition demand_entry :: "string \<Rightarrow> RecordingDemand \<Rightarrow> StreamDemand" where
  "demand_entry s d = (case bt_get (rd_streams d) s of None \<Rightarrow> StreamDemand_default | Some x \<Rightarrow> x)"

definition acquire :: "string \<Rightarrow> RecordingDemand \<Rightarrow> RecordingDemand option" where
  "acquire s d =
     (if s = [] then None
      else case checked_add_u64 (viewers (demand_entry s d)) 1 of
        None \<Rightarrow> None
      | Some n \<Rightarrow> Some (d\<lparr>rd_streams := bt_insert s ((demand_entry s d)\<lparr>viewers := n\<rparr>) (rd_streams d)\<rparr>))"

definition extend_lease :: "instant \<Rightarrow> StreamDemand \<Rightarrow> StreamDemand" where
  "extend_lease until x = (if is_none_or (lease_until x) (\<lambda>current. until > current) then x\<lparr>lease_until := Some until\<rparr> else x)"

definition renew_at :: "string \<Rightarrow> duration \<Rightarrow> instant \<Rightarrow> RecordingDemand \<Rightarrow> RecordingDemand option" where
  "renew_at s ttl now d =
     (if s = [] then None
      else case checked_add_instant now ttl of
        None \<Rightarrow> None
      | Some until \<Rightarrow> Some (d\<lparr>rd_streams := bt_insert s (extend_lease until (demand_entry s d)) (rd_streams d)\<rparr>))"

definition demand_active :: "instant \<Rightarrow> StreamDemand \<Rightarrow> bool" where
  "demand_active now x \<longleftrightarrow> viewers x > 0 \<or> is_some_and (lease_until x) (\<lambda>until. until > now)"

definition is_active_at :: "string \<Rightarrow> instant \<Rightarrow> RecordingDemand \<Rightarrow> RecordingDemand \<times> bool" where
  "is_active_at s now d =
     (case bt_get (rd_streams d) s of
        None \<Rightarrow> (d, False)
      | Some x \<Rightarrow> if demand_active now x then (d, True) else (d\<lparr>rd_streams := bt_remove s (rd_streams d)\<rparr>, False))"

definition viewer_count :: "string \<Rightarrow> RecordingDemand \<Rightarrow> usize" where
  "viewer_count s d = (case bt_get (rd_streams d) s of None \<Rightarrow> 0 | Some x \<Rightarrow> viewers x)"

text \<open>The last viewer leaves: the stream stays in demand for the grace period.\<close>

definition start_grace :: "duration \<Rightarrow> instant \<Rightarrow> StreamDemand \<Rightarrow> StreamDemand option" where
  "start_grace grace now x =
     (if viewers x = 0 \<and> grace \<noteq> 0
      then map_option (\<lambda>until. extend_lease until x) (checked_add_instant now grace) else Some x)"

definition put_demand :: "string \<Rightarrow> instant \<Rightarrow> StreamDemand \<Rightarrow> RecordingDemand \<Rightarrow> RecordingDemand" where
  "put_demand s now x d =
     d\<lparr>rd_streams := (if viewers x = 0 \<and> is_none_or (lease_until x) (\<lambda>until. until \<le> now)
                      then bt_remove s (rd_streams d) else bt_update s x (rd_streams d))\<rparr>"

definition release_at :: "string \<Rightarrow> instant \<Rightarrow> RecordingDemand \<Rightarrow> RecordingDemand option" where
  "release_at s now d =
     (case bt_get (rd_streams d) s of
        None \<Rightarrow> Some d
      | Some x \<Rightarrow>
          if viewers x = 0 then None
          else map_option (\<lambda>y. put_demand s now y d) (start_grace (inactivity_grace d) now (x\<lparr>viewers := viewers x - 1\<rparr>)))"

definition stream_report :: "instant \<Rightarrow> string \<times> StreamDemand \<Rightarrow> RecordingDemandStreamHealth" where
  "stream_report now e =
     \<lparr>sh_stream_id = fst e, sh_viewers = viewers (snd e),
      lease_remaining_ms = (case lease_until (snd e) of
                              None \<Rightarrow> None
                            | Some until \<Rightarrow> if now \<le> until then Some (min (as_millis (until - now)) u64_max) else None)\<rparr>"

definition health_snapshot :: "instant \<Rightarrow> RecordingDemand \<Rightarrow> RecordingDemand \<times> RecordingDemandHealth" where
  "health_snapshot now d =
     (let d = d\<lparr>rd_streams := filter (\<lambda>e. demand_active now (snd e)) (rd_streams d)\<rparr>;
          reports = map (stream_report now) (rd_streams d)
      in (d, \<lparr>active_streams = length reports, total_viewers = sum_list (map sh_viewers reports),
              leased_streams = length (filter (\<lambda>r. lease_remaining_ms r \<noteq> None) reports), stream_reports = reports\<rparr>))"

section \<open>Guards\<close>

text \<open>
  The demand with the guards that are alive, as the streams they hold. A guard is dropped once
  (\<open>DropGuard\<close> with its position); every other call may come at any time. A call that panics ends the
  run (\<open>None\<close>).
\<close>

datatype DemandOp = Acquire string | Renew string duration instant | IsActive string instant | DropGuard nat instant | Health instant

fun demand_step :: "RecordingDemand \<times> string list \<Rightarrow> DemandOp \<Rightarrow> (RecordingDemand \<times> string list) option" where
  "demand_step (d, gs) (Acquire s) = map_option (\<lambda>d. (d, gs @ [s])) (acquire s d)"
| "demand_step (d, gs) (Renew s ttl now) = map_option (\<lambda>d. (d, gs)) (renew_at s ttl now d)"
| "demand_step (d, gs) (IsActive s now) = Some (fst (is_active_at s now d), gs)"
| "demand_step (d, gs) (DropGuard i now) =
     (if i < length gs then map_option (\<lambda>d. (d, take i gs @ drop (Suc i) gs)) (release_at (gs ! i) now d) else Some (d, gs))"
| "demand_step (d, gs) (Health now) = Some (fst (health_snapshot now d), gs)"

fun demand_run :: "RecordingDemand \<times> string list \<Rightarrow> DemandOp list \<Rightarrow> (RecordingDemand \<times> string list) option" where
  "demand_run st [] = Some st"
| "demand_run st (x # xs) = (case demand_step st x of None \<Rightarrow> None | Some st' \<Rightarrow> demand_run st' xs)"

text \<open>Every stream counts exactly the guards that hold it.\<close>

definition demand_ok :: "RecordingDemand \<times> string list \<Rightarrow> bool" where
  "demand_ok st \<longleftrightarrow> bt_ok (rd_streams (fst st)) \<and> (\<forall>s. viewer_count s (fst st) = count_list (snd st) s)"

lemma viewer_count_get: "viewer_count s d = viewers (demand_entry s d)"
  by (simp add: viewer_count_def demand_entry_def StreamDemand_default_def split: option.split)

lemma viewers_extend_lease [simp]: "viewers (extend_lease until x) = viewers x"
  by (simp add: extend_lease_def)

lemma viewer_count_insert:
  "viewer_count t (d\<lparr>rd_streams := bt_insert s x (rd_streams d)\<rparr>) = (if t = s then viewers x else viewer_count t d)"
  by (simp add: viewer_count_def bt_get_insert)

lemma viewer_count_remove:
  "viewer_count t (d\<lparr>rd_streams := bt_remove s (rd_streams d)\<rparr>) = (if t = s then 0 else viewer_count t d)"
  by (simp add: viewer_count_def bt_get_remove)

lemma acquire_ok: "demand_ok (d, gs) \<Longrightarrow> acquire s d = Some d' \<Longrightarrow> demand_ok (d', gs @ [s])"
  by (auto simp: demand_ok_def acquire_def checked_add_u64_def bt_ok_insert viewer_count_insert
      viewer_count_get [symmetric] split: if_splits option.splits)

lemma renew_at_ok: "demand_ok (d, gs) \<Longrightarrow> renew_at s ttl now d = Some d' \<Longrightarrow> demand_ok (d', gs)"
  by (auto simp: demand_ok_def renew_at_def bt_ok_insert viewer_count_insert viewer_count_get [symmetric]
      split: if_splits option.splits)

lemma is_active_at_ok: "demand_ok (d, gs) \<Longrightarrow> demand_ok (fst (is_active_at s now d), gs)"
  by (auto simp: demand_ok_def is_active_at_def demand_active_def bt_ok_remove viewer_count_remove split: option.splits)
    (metis viewer_count_def option.case(2))

lemma guard_entry:
  assumes "demand_ok (d, gs)" "0 < count_list gs s"
  obtains x where "bt_get (rd_streams d) s = Some x" "viewers x = count_list gs s"
proof (cases "bt_get (rd_streams d) s")
  case None
  with assms have "count_list gs s = 0" by (auto simp: demand_ok_def viewer_count_def dest!: spec [of _ s])
  with assms(2) show thesis by simp
next
  case (Some x)
  with assms(1) have "viewers x = count_list gs s" by (auto simp: demand_ok_def viewer_count_def dest!: spec [of _ s])
  with Some show thesis by (rule that)
qed

lemma put_demand_ok:
  assumes "bt_ok (rd_streams d)" "bt_get (rd_streams d) s = Some x"
  shows "bt_ok (rd_streams (put_demand s now y d))"
    "viewer_count t (put_demand s now y d) = (if t = s then viewers y else viewer_count t d)"
  using assms by (auto simp: put_demand_def viewer_count_def bt_ok_remove bt_ok_update bt_get_remove bt_get_update)

lemma start_grace_viewers: "start_grace grace now x = Some y \<Longrightarrow> viewers y = viewers x"
  by (auto simp: start_grace_def split: if_splits)

lemma start_grace_Some: "now + grace \<le> instant_max \<Longrightarrow> \<exists>y. start_grace grace now x = Some y"
  by (simp add: start_grace_def checked_add_instant_def)

lemma release_at_ok:
  assumes ok: "demand_ok (d, gs)" and i: "i < length gs" and run: "release_at (gs ! i) now d = Some d'"
  shows "demand_ok (d', take i gs @ drop (Suc i) gs)"
proof -
  let ?s = "gs ! i" and ?gs = "take i gs @ drop (Suc i) gs"
  have split: "count_list gs t = (if t = ?s then 1 else 0) + count_list ?gs t" for t
  proof -
    have "count_list gs t = count_list (take i gs @ ?s # drop (Suc i) gs) t"
      by (simp only: id_take_nth_drop [OF i, symmetric])
    then show ?thesis by simp
  qed
  have "0 < count_list gs ?s" by (simp add: split)
  then obtain x where x: "bt_get (rd_streams d) ?s = Some x" "viewers x = count_list gs ?s"
    by (rule guard_entry [OF ok])
  obtain y where y: "start_grace (inactivity_grace d) now (x\<lparr>viewers := viewers x - 1\<rparr>) = Some y" "d' = put_demand ?s now y d"
    using run x(1) by (auto simp: release_at_def split: if_splits)
  have bt: "bt_ok (rd_streams d)" and count: "\<And>t. viewer_count t d = count_list gs t" using ok by (simp_all add: demand_ok_def)
  have "viewer_count t d' = count_list ?gs t" for t
    unfolding y(2) put_demand_ok(2) [OF bt x(1)] start_grace_viewers [OF y(1)]
    using count [of t] split [of t] x(2) by (cases "t = ?s") simp_all
  then show ?thesis using put_demand_ok(1) [OF bt x(1)] y(2) by (simp add: demand_ok_def)
qed

lemma demand_health_ok: "demand_ok (d, gs) \<Longrightarrow> demand_ok (fst (health_snapshot now d), gs)"
proof -
  assume ok: "demand_ok (d, gs)"
  let ?p = "\<lambda>e. demand_active now (snd e)"
  have bt: "bt_ok (rd_streams d)" using ok by (simp add: demand_ok_def)
  have "viewer_count t (d\<lparr>rd_streams := filter ?p (rd_streams d)\<rparr>) = viewer_count t d" for t
    using bt_get_filter [OF bt, of ?p t] by (auto simp: viewer_count_def demand_active_def split: option.splits if_splits)
  moreover have "bt_ok (filter ?p (rd_streams d))"
    using bt by (rule bt_ok_filter)
  ultimately show ?thesis using ok by (simp add: demand_ok_def health_snapshot_def Let_def)
qed

lemma demand_step_ok: "demand_step st x = Some st' \<Longrightarrow> demand_ok st \<Longrightarrow> demand_ok st'"
  by (cases st; cases x)
    (auto intro: acquire_ok renew_at_ok is_active_at_ok release_at_ok demand_health_ok split: if_splits)

lemma demand_run_ok: "demand_run st ops = Some st' \<Longrightarrow> demand_ok st \<Longrightarrow> demand_ok st'"
  by (induction st ops rule: demand_run.induct) (auto split: option.splits dest: demand_step_ok)

section \<open>Properties\<close>

text \<open>
  C28: in every history that started with an empty demand, each stream counts exactly the guards that
  hold it, and no guard can fail when it is dropped: the assertion that a released stream has a viewer
  always holds. (The clock must be far enough from the end of its range for the grace period.)
\<close>

theorem demand_guards_counted:
  assumes "demand_run (RecordingDemand_new grace, []) ops = Some (d, gs)"
    and "i < length gs" "now + inactivity_grace d \<le> instant_max"
  shows "viewer_count s d = count_list gs s \<and> (\<exists>d'. release_at (gs ! i) now d = Some d')"
proof -
  have ok: "demand_ok (d, gs)"
    using demand_run_ok [OF assms(1)] by (simp add: demand_ok_def RecordingDemand_new_def viewer_count_def)
  have "0 < count_list gs (gs ! i)" using assms(2) by (metis count_list_0_iff gr0I nth_mem)
  then obtain x where "bt_get (rd_streams d) (gs ! i) = Some x" "viewers x > 0"
    using guard_entry [OF ok] by metis
  then show ?thesis
    using ok start_grace_Some [OF assms(3)] by (auto simp: demand_ok_def release_at_def)
qed

definition demo_demand_ops :: "DemandOp list" where
  "demo_demand_ops = [Acquire ''a'', Acquire ''b'', Acquire ''a'', Renew ''c'' 50 10, IsActive ''c'' 70, DropGuard 0 20, Health 21]"

theorem demand_guards_counted_witness:
  "viewer_count ''a'' (fst (the (demand_run (RecordingDemand_new 30, []) demo_demand_ops))) = 1"
proof -
  have run: "demand_run (RecordingDemand_new 30, []) demo_demand_ops =
      Some (fst (the (demand_run (RecordingDemand_new 30, []) demo_demand_ops)), [''b'', ''a''])" by code_simp
  have "inactivity_grace (fst (the (demand_run (RecordingDemand_new 30, []) demo_demand_ops))) = 30" by code_simp
  with demand_guards_counted [OF run, of 0 5 "''a''"] show ?thesis by (simp add: instant_max_def)
qed

text \<open>
  a stream that a viewer just released stays in demand at least for the grace period, and longer if
  a lease or another viewer keeps it.
\<close>

theorem demand_grace:
  assumes "release_at s now d = Some d'" "bt_ok (rd_streams d)" "bt_get (rd_streams d) s = Some x"
    "now \<le> t" "t < now + inactivity_grace d"
  shows "snd (is_active_at s t d')"
proof -
  obtain y where y: "start_grace (inactivity_grace d) now (x\<lparr>viewers := viewers x - 1\<rparr>) = Some y" "d' = put_demand s now y d"
    using assms(1,3) by (auto simp: release_at_def split: if_splits)
  have "viewers y > 0 \<or> (\<exists>until. lease_until y = Some until \<and> now + inactivity_grace d \<le> until)"
    using y(1) assms(4,5)
    by (cases "lease_until x") (auto simp: start_grace_def extend_lease_def checked_add_instant_def split: if_splits)
  with assms(4,5) have live: "demand_active t y" "\<not> (viewers y = 0 \<and> is_none_or (lease_until y) (\<lambda>until. until \<le> now))"
    by (auto simp: demand_active_def)
  then have "bt_get (rd_streams d') s = Some y" using assms(3) y(2) by (auto simp: put_demand_def bt_get_update)
  with live(1) show ?thesis by (simp add: is_active_at_def)
qed

theorem demand_grace_witness:
  "snd (is_active_at ''a'' 40 (the (release_at ''a'' 20 (the (acquire ''a'' (RecordingDemand_new 30))))))"
proof -
  let ?d = "the (acquire ''a'' (RecordingDemand_new 30))"
  have 1: "release_at ''a'' 20 ?d = Some (the (release_at ''a'' 20 ?d))" by code_simp
  have 2: "bt_ok (rd_streams ?d)" "bt_get (rd_streams ?d) ''a'' = Some \<lparr>viewers = 1, lease_until = None\<rparr>"
    unfolding bt_ok_def by code_simp+
  have "inactivity_grace ?d = 30" by code_simp
  with demand_grace [OF 1 2, of 40] show ?thesis by simp
qed

end
