(* ===== verification/Notification_State.thy ===== *)
theory Notification_State
  imports KP_Prelude "HOL-Library.Sublist"
begin

text \<open>
  The in-memory state of the notification runtime, \<open>src/src/notifications/state.rs\<close>: logical
  notifications, their deliveries (outbox), receipts, history, cooldowns and rate windows, and the
  pruning that bounds them. A \<open>HashMap\<close> is the list of its entries in iteration order, which is
  arbitrary; a failed \<open>expect\<close> is \<open>None\<close>. The stored rule records are only kept here, so their type
  is a parameter; a rule is what \<open>cancel_disabled_outbox\<close> reads of it. Log lines are left out.
\<close>

section \<open>Data\<close>

definition MAX_PENDING_OUTBOX :: usize where "MAX_PENDING_OUTBOX = 10000"
definition MAX_TERMINAL_NOTIFICATIONS :: usize where "MAX_TERMINAL_NOTIFICATIONS = 2000"
definition MAX_LOGICAL_NOTIFICATIONS :: usize where
  "MAX_LOGICAL_NOTIFICATIONS = MAX_PENDING_OUTBOX + MAX_TERMINAL_NOTIFICATIONS"
definition MAX_HISTORY_EVENTS :: usize where "MAX_HISTORY_EVENTS = 50000"
definition MAX_DELIVERY_ATTEMPTS :: usize where "MAX_DELIVERY_ATTEMPTS = 50000"
definition MAX_COOLDOWN_WINDOWS :: usize where "MAX_COOLDOWN_WINDOWS = 10000"
definition MAX_RATE_WINDOWS :: usize where "MAX_RATE_WINDOWS = 4096"
definition MAX_INACTIVE_OPERATIONAL_INTERVALS :: usize where "MAX_INACTIVE_OPERATIONAL_INTERVALS = 4096"
definition MAX_OPERATIONAL_INTERVALS :: usize where "MAX_OPERATIONAL_INTERVALS = 8192"

datatype Lifecycle = LifecycleEvent | LifecycleOutage | LifecycleStorage | LifecycleRecording | LifecycleTest
datatype Stage = Preliminary | Enriched | Recovery
datatype Severity = SeverityInfo | SeverityWarning | SeverityCritical
datatype Channel = Browser | PushChannel | Webhook | Forwarder
datatype CooldownScope = ScopeEvent | ScopeCameraEventKind | ScopeGroup | ScopeRule | ScopeOutage

record CooldownKey =
  ck_rule_id :: string
  ck_scope :: CooldownScope
  ck_value :: string

record EventAttachment =
  ea_id :: string
  ea_attachment_type :: string
  ea_content_type :: string
  ea_byte_len :: "u64 option"
  ea_ordinal :: nat
  ea_timestamp_ms :: "i64 option"
  ea_text :: "string option"

record LogicalNotification =
  ln_id :: string
  ln_rule_id :: string
  ln_owner_id :: string
  ln_source_id :: string
  ln_source_identity :: string
  ln_lifecycle :: Lifecycle
  ln_stage :: Stage
  ln_highest_revision :: u64
  ln_enrichment_attempts :: nat
  ln_created_at_ms :: i64
  ln_updated_at_ms :: i64
  ln_enrichment_deadline_at_ms :: i64
  ln_title :: string
  ln_body :: string
  ln_deep_link :: string
  ln_attachment_path :: "string option"
  ln_severity :: Severity
  ln_canonical_attachment :: "EventAttachment option"
  ln_icon_key :: "string option"
  ln_image_available :: bool

record InboxReceipt =
  seen_at_ms :: "i64 option"
  acknowledged_at_ms :: "i64 option"
  cleared_at_ms :: "i64 option"

record HistoryEntry =
  he_sequence :: u64
  he_logical_id :: string
  he_rule_id :: string
  he_revision :: u64
  he_stage :: Stage
  he_outcome :: string
  he_reason :: "string option"
  he_occurred_at_ms :: i64
  he_next_eligible_at_ms :: "i64 option"

record OperationalIntervalKey =
  ok_source_id :: string
  ok_lifecycle :: Lifecycle
  ok_event_kind :: string

record OperationalInterval =
  oi_identity :: string
  oi_revision :: u64
  oi_active :: bool
  oi_updated_at_ms :: i64

record RateWindow =
  started_at_ms :: i64
  rw_count :: u64

datatype OutboxStatus = Pending | Retrying | Delivering | Delivered | Failed | Expired | Suppressed

fun status_pending :: "OutboxStatus \<Rightarrow> bool" where
  "status_pending Pending = True"
| "status_pending Retrying = True"
| "status_pending _ = False"

record NotificationOutboxItem =
  oi_id :: u64
  oi_logical_id :: string
  oi_action_index :: usize
  oi_stage :: Stage
  oi_channel :: Channel
  oi_destination_json :: string
  oi_payload_json :: string
  oi_replacement_key :: string
  oi_priority :: int
  oi_status :: OutboxStatus
  oi_attempt_count :: nat
  oi_max_attempts :: nat
  oi_max_retry_interval_ms :: u64
  oi_attachment_enabled :: bool
  oi_attachment_required :: bool
  oi_max_attachment_bytes :: u64
  oi_next_attempt_at_ms :: i64
  oi_expires_at_ms :: i64
  oi_item_updated_at_ms :: i64
  oi_last_reason :: "string option"
  oi_provider_request_id :: "string option"
  oi_provider_receipt :: "string option"
  oi_next_receipt_check_at_ms :: "i64 option"
  oi_provider_receipt_expires_at_ms :: "i64 option"
  oi_provider_acknowledged_at_ms :: "i64 option"
  oi_provider_expired_at_ms :: "i64 option"
  oi_provider_acknowledged_by_hash :: "string option"

definition receipt_pending :: "NotificationOutboxItem \<Rightarrow> bool" where
  "receipt_pending item \<longleftrightarrow> oi_status item = Delivered \<and> oi_provider_receipt item \<noteq> None
     \<and> oi_provider_acknowledged_at_ms item = None \<and> oi_provider_expired_at_ms item = None
     \<and> oi_next_receipt_check_at_ms item \<noteq> None"

record DeliveryAttempt =
  da_sequence :: u64
  da_outbox_id :: u64
  da_logical_id :: string
  da_channel :: Channel
  da_stage :: Stage
  da_attempt :: nat
  da_outcome :: string
  da_target_hash :: string
  da_provider_status :: "nat option"
  da_provider_request_id :: "string option"
  da_reason :: "string option"
  da_attempted_at_ms :: i64
  da_retry_at_ms :: "i64 option"

text \<open>The parts of a rule and of its actions that the state reads.\<close>

record Action =
  ac_enabled :: bool
  ac_channel :: Channel

record Rule =
  ru_enabled :: bool
  ru_actions :: "Action list"

record 'r RuntimeState =
  rules :: "(string, 'r) btree"
  logical :: "(string \<times> LogicalNotification) list"
  operational_intervals :: "(OperationalIntervalKey \<times> OperationalInterval) list"
  receipts :: "((string \<times> string) \<times> InboxReceipt) list"
  history :: "HistoryEntry list"
  cooldowns :: "(CooldownKey \<times> i64) list"
  rate_windows :: "((string \<times> string) \<times> RateWindow) list"
  outbox :: "(u64, NotificationOutboxItem) btree"
  attempts :: "DeliveryAttempt list"
  next_history_sequence :: u64
  next_attempt_sequence :: u64
  ns_next_outbox_id :: u64

record PendingHistoryEntry =
  ph_logical_id :: string
  ph_rule_id :: string
  ph_revision :: u64
  ph_stage :: Stage
  ph_outcome :: string
  ph_reason :: "string option"
  ph_occurred_at_ms :: i64
  ph_next_eligible_at_ms :: "i64 option"

datatype NotificationLimit = CooldownLimit | IntervalLimit | LogicalLimit

section \<open>Operations\<close>

definition RuntimeState_new :: "(string, 'r) btree \<Rightarrow> 'r RuntimeState" where
  "RuntimeState_new rs =
     \<lparr>rules = rs, logical = [], operational_intervals = [], receipts = [], history = [], cooldowns = [],
      rate_windows = [], outbox = [], attempts = [], next_history_sequence = 1, next_attempt_sequence = 1,
      ns_next_outbox_id = 1\<rparr>"

definition next_outbox_id :: "'r RuntimeState \<Rightarrow> ('r RuntimeState \<times> u64) option" where
  "next_outbox_id s =
     (case checked_add_u64 (ns_next_outbox_id s) 1 of
        None \<Rightarrow> None
      | Some n \<Rightarrow> Some (s\<lparr>ns_next_outbox_id := n\<rparr>, ns_next_outbox_id s))"

definition pending_outbox_count :: "'r RuntimeState \<Rightarrow> usize" where
  "pending_outbox_count s = length (filter (\<lambda>e. status_pending (oi_status (snd e))) (outbox s))"

definition logical_capacity_available :: "'r RuntimeState \<Rightarrow> bool" where
  "logical_capacity_available s \<longleftrightarrow> length (logical s) < MAX_LOGICAL_NOTIFICATIONS"

definition cooldown_capacity_for :: "CooldownKey list \<Rightarrow> 'r RuntimeState \<Rightarrow> bool" where
  "cooldown_capacity_for keys s \<longleftrightarrow>
     saturating_add_u64 (length (cooldowns s)) (length (remdups (filter (\<lambda>k. map_of (cooldowns s) k = None) keys)))
       \<le> MAX_COOLDOWN_WINDOWS"

definition outbox_key_exists :: "string \<Rightarrow> usize \<Rightarrow> Stage \<Rightarrow> 'r RuntimeState \<Rightarrow> bool" where
  "outbox_key_exists logical_id action_index stage s \<longleftrightarrow>
     list_ex (\<lambda>e. oi_logical_id (snd e) = logical_id \<and> oi_action_index (snd e) = action_index \<and> oi_stage (snd e) = stage)
       (outbox s)"

text \<open>\<open>while xs.len() > limit { xs.pop_front(); }\<close>.\<close>

definition keep_last :: "nat \<Rightarrow> 'a list \<Rightarrow> 'a list" where
  "keep_last limit xs = drop (length xs - limit) xs"

definition history_entry :: "u64 \<Rightarrow> PendingHistoryEntry \<Rightarrow> HistoryEntry" where
  "history_entry sequence entry =
     \<lparr>he_sequence = sequence, he_logical_id = ph_logical_id entry, he_rule_id = ph_rule_id entry,
      he_revision = ph_revision entry, he_stage = ph_stage entry, he_outcome = ph_outcome entry,
      he_reason = ph_reason entry, he_occurred_at_ms = ph_occurred_at_ms entry,
      he_next_eligible_at_ms = ph_next_eligible_at_ms entry\<rparr>"

definition push_history :: "PendingHistoryEntry \<Rightarrow> 'r RuntimeState \<Rightarrow> 'r RuntimeState option" where
  "push_history entry s =
     (case checked_add_u64 (next_history_sequence s) 1 of
        None \<Rightarrow> None
      | Some n \<Rightarrow>
          Some (s\<lparr>next_history_sequence := n,
                  history := keep_last MAX_HISTORY_EVENTS (history s @ [history_entry (next_history_sequence s) entry])\<rparr>))"

definition push_attempt :: "DeliveryAttempt \<Rightarrow> 'r RuntimeState \<Rightarrow> 'r RuntimeState option" where
  "push_attempt attempt s =
     (case checked_add_u64 (next_attempt_sequence s) 1 of
        None \<Rightarrow> None
      | Some n \<Rightarrow>
          Some (s\<lparr>next_attempt_sequence := n,
                  attempts := keep_last MAX_DELIVERY_ATTEMPTS
                    (attempts s @ [attempt\<lparr>da_sequence := next_attempt_sequence s\<rparr>])\<rparr>))"

definition prune_oldest_rate_windows :: "((string \<times> string) \<times> RateWindow) list \<Rightarrow> ((string \<times> string) \<times> RateWindow) list" where
  "prune_oldest_rate_windows windows =
     (if length windows \<le> MAX_RATE_WINDOWS then windows
      else let oldest = sort (map (\<lambda>(key, window). (started_at_ms window, key)) windows);
               gone = set (map snd (take (length windows - MAX_RATE_WINDOWS) oldest))
           in filter (\<lambda>e. fst e \<notin> gone) windows)"

definition prune_operational_intervals :: "(OperationalIntervalKey \<times> OperationalInterval) list
    \<Rightarrow> (OperationalIntervalKey \<times> OperationalInterval) list \<times> (NotificationLimit + unit)" where
  "prune_operational_intervals intervals =
     (let inactive = sort_key fst (map (\<lambda>(key, interval). (oi_updated_at_ms interval, key))
                       (filter (\<lambda>e. \<not> oi_active (snd e)) intervals));
          remove_count = saturating_sub_u64 (length inactive) MAX_INACTIVE_OPERATIONAL_INTERVALS;
          gone = set (map snd (take remove_count inactive));
          intervals = filter (\<lambda>e. fst e \<notin> gone) intervals
      in (intervals, if length intervals > MAX_OPERATIONAL_INTERVALS then Inl IntervalLimit else Inr ()))"

definition outbox_active :: "NotificationOutboxItem \<Rightarrow> bool" where
  "outbox_active item \<longleftrightarrow> status_pending (oi_status item) \<or> oi_status item = Delivering \<or> receipt_pending item"

definition removed_ids :: "'r RuntimeState \<Rightarrow> string list" where
  "removed_ids s =
     (let active_logical_ids = set (map (oi_logical_id \<circ> snd) (filter (\<lambda>e. outbox_active (snd e)) (outbox s)));
          terminal = map (\<lambda>(_, l). (ln_updated_at_ms l, ln_id l)) (filter (\<lambda>(_, l). ln_id l \<notin> active_logical_ids) (logical s))
      in map snd (drop MAX_TERMINAL_NOTIFICATIONS (rev (sort terminal))))"

definition prune_terminal_notifications :: "'r RuntimeState \<Rightarrow> 'r RuntimeState" where
  "prune_terminal_notifications s =
     (let removed = set (removed_ids s) in
      if removed = {} then s
      else s\<lparr>logical := filter (\<lambda>(id, _). id \<notin> removed) (logical s),
             receipts := filter (\<lambda>((id, _), _). id \<notin> removed) (receipts s),
             history := filter (\<lambda>e. he_logical_id e \<notin> removed) (history s),
             attempts := filter (\<lambda>e. da_logical_id e \<notin> removed) (attempts s),
             outbox := filter (\<lambda>(_, item). oi_logical_id item \<notin> removed) (outbox s)\<rparr>)"

definition prune :: "i64 \<Rightarrow> 'r RuntimeState \<Rightarrow> 'r RuntimeState \<times> (NotificationLimit + unit)" where
  "prune now s =
     (let s = s\<lparr>cooldowns := filter (\<lambda>(_, eligible_at_ms). eligible_at_ms > now) (cooldowns s)\<rparr> in
      if length (cooldowns s) > MAX_COOLDOWN_WINDOWS then (s, Inl CooldownLimit)
      else
        let s = s\<lparr>rate_windows := prune_oldest_rate_windows (rate_windows s)\<rparr>;
            (intervals, r) = prune_operational_intervals (operational_intervals s);
            s = s\<lparr>operational_intervals := intervals\<rparr>
        in case r of
             Inl e \<Rightarrow> (s, Inl e)
           | Inr _ \<Rightarrow>
               let s = prune_terminal_notifications s
               in (s, if length (logical s) > MAX_LOGICAL_NOTIFICATIONS then Inl LogicalLimit else Inr ()))"

definition action_allowed :: "Rule option \<Rightarrow> NotificationOutboxItem \<Rightarrow> bool" where
  "action_allowed active item \<longleftrightarrow>
     is_some_and active (\<lambda>rule. ru_enabled rule \<and> oi_action_index item < length (ru_actions rule)
       \<and> ac_enabled (ru_actions rule ! oi_action_index item)
       \<and> ac_channel (ru_actions rule ! oi_action_index item) = oi_channel item)"

definition cancels :: "string \<Rightarrow> Rule option \<Rightarrow> 'r RuntimeState \<Rightarrow> NotificationOutboxItem \<Rightarrow> bool" where
  "cancels rule_id active s item \<longleftrightarrow>
     status_pending (oi_status item)
     \<and> is_some_and (map_of (logical s) (oi_logical_id item)) (\<lambda>l. ln_rule_id l = rule_id)
     \<and> \<not> action_allowed active item"

definition cancel_item :: "i64 \<Rightarrow> NotificationOutboxItem \<Rightarrow> NotificationOutboxItem" where
  "cancel_item now item =
     item\<lparr>oi_status := Expired, oi_item_updated_at_ms := now, oi_last_reason := Some ''rule_or_action_disabled''\<rparr>"

fun push_cancelled :: "string \<Rightarrow> i64 \<Rightarrow> (string \<times> Stage) list \<Rightarrow> 'r RuntimeState \<Rightarrow> 'r RuntimeState option" where
  "push_cancelled rule_id now [] s = Some s"
| "push_cancelled rule_id now ((logical_id, stage) # rest) s =
     (case (case map_of (logical s) logical_id of
              None \<Rightarrow> Some s
            | Some l \<Rightarrow>
                push_history \<lparr>ph_logical_id = logical_id, ph_rule_id = rule_id, ph_revision = ln_highest_revision l,
                  ph_stage = stage, ph_outcome = ''expired'', ph_reason = Some ''rule_or_action_disabled'',
                  ph_occurred_at_ms = now, ph_next_eligible_at_ms = None\<rparr> s) of
        None \<Rightarrow> None
      | Some s \<Rightarrow> push_cancelled rule_id now rest s)"

definition cancel_disabled_outbox :: "string \<Rightarrow> Rule option \<Rightarrow> i64 \<Rightarrow> 'r RuntimeState \<Rightarrow> ('r RuntimeState \<times> u64) option" where
  "cancel_disabled_outbox rule_id active now s =
     (let cancelled = map (\<lambda>(_, item). (oi_logical_id item, oi_stage item)) (filter (\<lambda>(_, item). cancels rule_id active s item) (outbox s));
          s = s\<lparr>outbox := map (\<lambda>(k, item). (k, if cancels rule_id active s item then cancel_item now item else item)) (outbox s)\<rparr>
      in map_option (\<lambda>s. (s, min (length cancelled) u64_max)) (push_cancelled rule_id now cancelled s))"

section \<open>Pruning\<close>

lemma length_filter_keys:
  assumes "distinct (map fst m)" "A \<subseteq> fst ` set m"
  shows "length (filter (\<lambda>e. fst e \<in> A) m) = card A"
proof -
  have "distinct (map fst (filter (\<lambda>e. fst e \<in> A) m))" using assms(1) by (rule distinct_map_filter)
  then have "length (map fst (filter (\<lambda>e. fst e \<in> A) m)) = card (set (map fst (filter (\<lambda>e. fst e \<in> A) m)))"
    by (rule distinct_card [symmetric])
  also have "set (map fst (filter (\<lambda>e. fst e \<in> A) m)) = A" using assms(2) by auto
  finally show ?thesis by simp
qed

lemma length_filter_not: "length (filter (\<lambda>e. \<not> P e) m) = length m - length (filter P m)"
  using sum_length_filter_compl [of P m] by simp

lemma prune_rate_bound:
  assumes "distinct (map fst windows)"
  shows "length (prune_oldest_rate_windows windows) \<le> MAX_RATE_WINDOWS"
proof (cases "length windows \<le> MAX_RATE_WINDOWS")
  case False
  let ?xs = "map (\<lambda>(key, window). (started_at_ms window, key)) windows"
  let ?n = "length windows - MAX_RATE_WINDOWS"
  have keys0: "map snd ?xs = map fst windows" by (simp add: case_prod_beta)
  have "mset (map snd (sort ?xs)) = mset (map snd ?xs)" by (simp only: mset_map mset_sort)
  then have m: "mset (map snd (sort ?xs)) = mset (map fst windows)" unfolding keys0 .
  have d: "distinct (map snd (sort ?xs))" using assms mset_eq_imp_distinct_iff [OF m] by blast
  have keys: "set (map snd (sort ?xs)) = fst ` set windows" using mset_eq_setD [OF m] by simp
  let ?gone = "set (take ?n (map snd (sort ?xs)))"
  have "card ?gone = ?n" using distinct_card [OF distinct_take [OF d, of ?n]] by simp
  moreover have "?gone \<subseteq> fst ` set windows" unfolding keys [symmetric] by (rule set_take_subset)
  ultimately have "length (filter (\<lambda>e. fst e \<in> ?gone) windows) = ?n" by (simp only: length_filter_keys [OF assms])
  then have "length (filter (\<lambda>e. fst e \<notin> ?gone) windows) = MAX_RATE_WINDOWS"
    using False by (simp add: length_filter_not)
  then show ?thesis using False by (simp add: prune_oldest_rate_windows_def Let_def take_map)
qed (simp add: prune_oldest_rate_windows_def)

text \<open>The ids of the outbox entries that still have work to do.\<close>

definition active_ids :: "'r RuntimeState \<Rightarrow> string set" where
  "active_ids s = set (map (oi_logical_id \<circ> snd) (filter (\<lambda>e. outbox_active (snd e)) (outbox s)))"

definition terminal_notifications :: "'r RuntimeState \<Rightarrow> (i64 \<times> string) list" where
  "terminal_notifications s = map (\<lambda>(_, l). (ln_updated_at_ms l, ln_id l)) (filter (\<lambda>(_, l). ln_id l \<notin> active_ids s) (logical s))"

lemma removed_ids_eq: "removed_ids s = map snd (drop MAX_TERMINAL_NOTIFICATIONS (rev (sort (terminal_notifications s))))"
  by (simp add: removed_ids_def terminal_notifications_def active_ids_def Let_def)

lemma removed_terminal: "x \<in> set (removed_ids s) \<Longrightarrow> x \<notin> active_ids s"
proof -
  assume "x \<in> set (removed_ids s)"
  then obtain t where "(t, x) \<in> set (terminal_notifications s)"
    unfolding removed_ids_eq by (auto dest: in_set_dropD)
  then show ?thesis by (auto simp: terminal_notifications_def)
qed

lemma prune_terminal_keeps:
  assumes "(k, item) \<in> set (outbox s)" "outbox_active item"
  shows "(k, item) \<in> set (outbox (prune_terminal_notifications s))"
    "(oi_logical_id item, l) \<in> set (logical s) \<Longrightarrow> (oi_logical_id item, l) \<in> set (logical (prune_terminal_notifications s))"
proof -
  have "oi_logical_id item \<in> active_ids s" using assms by (force simp: active_ids_def)
  then have "oi_logical_id item \<notin> set (removed_ids s)" using removed_terminal by blast
  with assms(1) show "(k, item) \<in> set (outbox (prune_terminal_notifications s))"
    "(oi_logical_id item, l) \<in> set (logical s) \<Longrightarrow> (oi_logical_id item, l) \<in> set (logical (prune_terminal_notifications s))"
    by (auto simp: prune_terminal_notifications_def Let_def)
qed

lemma prune_cases:
  assumes "prune now s = (s', r)"
  obtains (cooldown) "s' = s\<lparr>cooldowns := filter (\<lambda>(_, t). t > now) (cooldowns s)\<rparr>" "r = Inl CooldownLimit"
  | (interval) c w i where "s' = s\<lparr>cooldowns := c, rate_windows := w, operational_intervals := i\<rparr>" "r = Inl IntervalLimit"
  | (pruned) s0 where "length (filter (\<lambda>(_, t). t > now) (cooldowns s)) \<le> MAX_COOLDOWN_WINDOWS"
      "s0 = s\<lparr>cooldowns := filter (\<lambda>(_, t). t > now) (cooldowns s), rate_windows := prune_oldest_rate_windows (rate_windows s),
         operational_intervals := fst (prune_operational_intervals (operational_intervals s))\<rparr>"
      "snd (prune_operational_intervals (operational_intervals s)) = Inr ()"
      "s' = prune_terminal_notifications s0"
      "r = (if length (logical s') > MAX_LOGICAL_NOTIFICATIONS then Inl LogicalLimit else Inr ())"
proof (cases "length (filter (\<lambda>(_, t). t > now) (cooldowns s)) > MAX_COOLDOWN_WINDOWS")
  case True
  with assms show thesis by (intro cooldown) (simp_all add: prune_def Let_def)
next
  case False
  obtain i q where i: "prune_operational_intervals (operational_intervals s) = (i, q)" by fastforce
  then have q: "q = Inl IntervalLimit \<or> q = Inr ()" by (auto simp: prune_operational_intervals_def Let_def split: if_splits)
  from q show thesis
  proof
    assume "q = Inl IntervalLimit"
    with assms False i show thesis by (intro interval) (auto simp: prune_def Let_def)
  next
    assume "q = Inr ()"
    with assms False i show thesis by (intro pruned [OF _ refl]) (auto simp: prune_def Let_def)
  qed
qed

text \<open>What pruning terminal notifications leaves alone.\<close>

lemma prune_terminal_fields [simp]:
  "cooldowns (prune_terminal_notifications s) = cooldowns s"
  "rate_windows (prune_terminal_notifications s) = rate_windows s"
  "operational_intervals (prune_terminal_notifications s) = operational_intervals s"
  "next_history_sequence (prune_terminal_notifications s) = next_history_sequence s"
  by (simp_all add: prune_terminal_notifications_def Let_def)

section \<open>Sequence numbers\<close>

definition history_ok :: "'r RuntimeState \<Rightarrow> bool" where
  "history_ok s \<longleftrightarrow> sorted_wrt (<) (map he_sequence (history s)) \<and> (\<forall>e \<in> set (history s). he_sequence e < next_history_sequence s)
     \<and> length (history s) \<le> MAX_HISTORY_EVENTS"

lemma sorted_wrt_drop: "sorted_wrt P xs \<Longrightarrow> sorted_wrt P (drop n xs)"
  by (metis append_take_drop_id sorted_wrt_append)

lemma push_history_ok:
  assumes "push_history entry s = Some s'" "history_ok s"
  shows "history_ok s'"
proof -
  define e where "e = history_entry (next_history_sequence s) entry"
  have n: "next_history_sequence s' = Suc (next_history_sequence s)" "he_sequence e = next_history_sequence s"
    and h: "history s' = keep_last MAX_HISTORY_EVENTS (history s @ [e])"
    using assms(1) by (auto simp: push_history_def checked_add_u64_def e_def history_entry_def split: if_splits)
  have "sorted_wrt (<) (map he_sequence (history s @ [e]))"
    using assms(2) n(2) by (auto simp: history_ok_def sorted_wrt_append)
  then have "sorted_wrt (<) (map he_sequence (history s'))"
    unfolding h keep_last_def drop_map [symmetric] by (rule sorted_wrt_drop)
  moreover have "\<forall>x \<in> set (history s @ [e]). he_sequence x < next_history_sequence s'"
    using assms(2) n by (auto simp: history_ok_def less_SucI)
  moreover have "set (history s') \<subseteq> set (history s @ [e])" unfolding h keep_last_def by (rule set_drop_subset)
  moreover have "length (history s') \<le> MAX_HISTORY_EVENTS" by (simp add: h keep_last_def)
  ultimately show "history_ok s'" unfolding history_ok_def by blast
qed

lemma history_ok_filter:
  assumes "history_ok s" "history s' = filter P (history s)" "next_history_sequence s' = next_history_sequence s"
  shows "history_ok s'"
proof -
  have "sorted_wrt (<) (map he_sequence (filter P (history s)))"
    using assms(1) by (simp add: history_ok_def sorted_wrt_map sorted_wrt_filter)
  then show ?thesis
    using assms le_trans [OF length_filter_le] by (auto simp: history_ok_def)
qed

lemma history_ok_same: "history_ok s \<Longrightarrow> history s' = history s \<Longrightarrow> next_history_sequence s' = next_history_sequence s \<Longrightarrow> history_ok s'"
  by (simp add: history_ok_def)

lemma prune_terminal_history: "history_ok s \<Longrightarrow> history_ok (prune_terminal_notifications s)"
proof (cases "set (removed_ids s) = {}")
  case False
  assume "history_ok s"
  then show ?thesis
    by (rule history_ok_filter [where P = "\<lambda>e. he_logical_id e \<notin> set (removed_ids s)"])
      (use False in \<open>simp_all add: prune_terminal_notifications_def Let_def\<close>)
qed (simp add: prune_terminal_notifications_def)

lemma prune_history:
  assumes "history_ok s"
  shows "history_ok (fst (prune now s))"
proof -
  obtain s' r where run: "prune now s = (s', r)" by fastforce
  then have "history_ok s'"
  proof (cases rule: prune_cases)
    case (pruned s0)
    have "history_ok s0" by (rule history_ok_same [OF assms]) (simp_all add: pruned(2))
    then show ?thesis unfolding pruned(4) by (rule prune_terminal_history)
  qed (auto intro: history_ok_same [OF assms])
  with run show ?thesis by simp
qed

lemma push_cancelled_ok: "push_cancelled rule_id now ids s = Some s' \<Longrightarrow> history_ok s \<Longrightarrow> history_ok s'"
proof (induction rule_id now ids s rule: push_cancelled.induct)
  case (2 rule_id now logical_id stage rest s)
  then show ?case by (auto split: option.splits dest: push_history_ok)
qed simp

lemma keep_last_bound: "length (keep_last n xs) \<le> n"
  by (simp add: keep_last_def)

lemma keep_last_keep_last: "keep_last n (keep_last n xs @ ys) = keep_last n (xs @ ys)"
  by (cases "length xs \<le> n") (simp_all add: keep_last_def add.commute)

section \<open>What cancelling writes\<close>

lemma push_cancelled_effect:
  "push_cancelled rule_id now ids s = Some s' \<Longrightarrow> \<forall>(i, _) \<in> set ids. map_of (logical s) i \<noteq> None \<Longrightarrow>
   length (history s) \<le> MAX_HISTORY_EVENTS \<Longrightarrow>
     outbox s' = outbox s \<and> logical s' = logical s
     \<and> (\<exists>new. history s' = keep_last MAX_HISTORY_EVENTS (history s @ new)
         \<and> map he_sequence new = [next_history_sequence s..<next_history_sequence s + length ids]
         \<and> map (\<lambda>e. (he_logical_id e, he_stage e)) new = ids
         \<and> list_all (\<lambda>e. he_rule_id e = rule_id \<and> he_outcome e = ''expired'' \<and> he_occurred_at_ms e = now) new)"
proof (induction rule_id now ids s rule: push_cancelled.induct)
  case (2 rule_id now logical_id stage rest s)
  obtain l where l: "map_of (logical s) logical_id = Some l" using "2.prems"(2) by auto
  let ?p = "\<lparr>ph_logical_id = logical_id, ph_rule_id = rule_id, ph_revision = ln_highest_revision l,
                  ph_stage = stage, ph_outcome = ''expired'', ph_reason = Some ''rule_or_action_disabled'',
                  ph_occurred_at_ms = now, ph_next_eligible_at_ms = None\<rparr>"
  let ?e = "history_entry (next_history_sequence s) ?p"
  obtain s1 where s1: "push_history ?p s = Some s1" and rec: "push_cancelled rule_id now rest s1 = Some s'"
    using "2.prems"(1) l by (cases "push_history ?p s") simp_all
  have f: "next_history_sequence s1 = Suc (next_history_sequence s)" "outbox s1 = outbox s" "logical s1 = logical s"
      "history s1 = keep_last MAX_HISTORY_EVENTS (history s @ [?e])"
    using s1 by (auto simp: push_history_def checked_add_u64_def split: if_splits)
  have "(case map_of (logical s) logical_id of None \<Rightarrow> Some s | Some l \<Rightarrow>
      push_history \<lparr>ph_logical_id = logical_id, ph_rule_id = rule_id, ph_revision = ln_highest_revision l,
                ph_stage = stage, ph_outcome = ''expired'', ph_reason = Some ''rule_or_action_disabled'',
                ph_occurred_at_ms = now, ph_next_eligible_at_ms = None\<rparr> s) = Some s1" using l s1 by simp
  from "2.IH" [OF this rec] "2.prems"(2) f obtain new where
    new: "outbox s' = outbox s" "logical s' = logical s"
      "history s' = keep_last MAX_HISTORY_EVENTS (keep_last MAX_HISTORY_EVENTS (history s @ [?e]) @ new)"
      "map he_sequence new = [Suc (next_history_sequence s)..<Suc (next_history_sequence s) + length rest]"
      "map (\<lambda>e. (he_logical_id e, he_stage e)) new = rest"
      "list_all (\<lambda>e. he_rule_id e = rule_id \<and> he_outcome e = ''expired'' \<and> he_occurred_at_ms e = now) new"
    by (auto simp: keep_last_bound)
  then show ?case
    by (intro conjI exI [of _ "?e # new"])
      (simp_all add: keep_last_keep_last history_entry_def upt_conv_Cons del: upt_Suc)
next
  case 1
  then show ?case by (simp add: keep_last_def)
qed

text \<open>A rule that still asks for the delivery: it is enabled and so is its action, for the same channel.\<close>

definition delivers :: "Rule option \<Rightarrow> nat \<Rightarrow> Channel \<Rightarrow> bool" where
  "delivers active index channel \<longleftrightarrow> (\<exists>rule before action after. active = Some rule \<and> ru_enabled rule
     \<and> ru_actions rule = before @ action # after \<and> length before = index \<and> ac_enabled action \<and> ac_channel action = channel)"

lemma action_allowed_iff: "action_allowed active item \<longleftrightarrow> delivers active (oi_action_index item) (oi_channel item)"
proof -
  have split: "i < length xs \<and> P (xs ! i) \<longleftrightarrow> (\<exists>ys x zs. xs = ys @ x # zs \<and> length ys = i \<and> P x)" for i and P and xs :: "'b list"
    by (metis append_take_drop_id Cons_nth_drop_Suc length_append length_take less_add_same_cancel1 list.size(4)
        min.absorb4 nth_append_length add_gr_0 zero_less_Suc add_Suc_right)
  show ?thesis
    unfolding action_allowed_def delivers_def is_some_and_def
    using split [of "oi_action_index item" _ "\<lambda>a. ac_enabled a \<and> ac_channel a = oi_channel item"]
    by (auto split: option.split)
qed

definition of_rule :: "string \<Rightarrow> 'r RuntimeState \<Rightarrow> NotificationOutboxItem \<Rightarrow> bool" where
  "of_rule rule_id s item \<longleftrightarrow> (\<exists>l. map_of (logical s) (oi_logical_id item) = Some l \<and> ln_rule_id l = rule_id)"

lemma cancels_iff:
  "cancels rule_id active s item \<longleftrightarrow> (oi_status item = Pending \<or> oi_status item = Retrying) \<and> of_rule rule_id s item
     \<and> \<not> delivers active (oi_action_index item) (oi_channel item)"
  by (cases "oi_status item") (auto simp: cancels_def of_rule_def action_allowed_iff is_some_and_def split: option.splits)

lemma cancel_item_changed: "cancels rule_id active s item \<Longrightarrow> cancel_item now item \<noteq> item"
  by (auto simp: cancels_def cancel_item_def dest: arg_cong [of _ _ oi_status])

lemma changed_cancelled:
  "map fst (filter (\<lambda>(old, new). new \<noteq> old)
     (zip es (map (\<lambda>(k, item). (k, if cancels rule_id active s item then cancel_item now item else item)) es)))
   = filter (\<lambda>(_, item). cancels rule_id active s item) es"
  by (induction es) (auto dest: cancel_item_changed)

lemma cancel_disabled_cases:
  assumes "cancel_disabled_outbox rule_id active now s = Some (s', n)"
  obtains s1 cancelled where
    "cancelled = map (\<lambda>(_, item). (oi_logical_id item, oi_stage item)) (filter (\<lambda>(_, item). cancels rule_id active s item) (outbox s))"
    "s1 = s\<lparr>outbox := map (\<lambda>(k, item). (k, if cancels rule_id active s item then cancel_item now item else item)) (outbox s)\<rparr>"
    "push_cancelled rule_id now cancelled s1 = Some s'" "n = min (length cancelled) u64_max"
    "\<forall>(i, _) \<in> set cancelled. map_of (logical s1) i \<noteq> None"
proof -
  let ?c = "map (\<lambda>(_, item). (oi_logical_id item, oi_stage item)) (filter (\<lambda>(_, item). cancels rule_id active s item) (outbox s))"
  have "\<forall>(i, _) \<in> set ?c. map_of (logical s) i \<noteq> None" by (auto simp: cancels_iff of_rule_def)
  with assms show thesis by (intro that [OF refl refl]) (auto simp: cancel_disabled_outbox_def Let_def)
qed

section \<open>Any sequence of operations\<close>

text \<open>
  The methods of the state, and \<open>Elsewhere\<close> for what the modules that share it do in between:
  they insert and change rules, notifications, deliveries, receipts, intervals and windows directly, in
  any way, but leave the history, the attempts and the (private) sequence counters to the methods.
\<close>

datatype 'r NotificationOp = PushHistory PendingHistoryEntry | PushAttempt DeliveryAttempt | Prune i64
  | CancelDisabled string "Rule option" i64 | NextOutboxId | Elsewhere "'r RuntimeState"

definition written_elsewhere :: "'r RuntimeState \<Rightarrow> 'r RuntimeState \<Rightarrow> 'r RuntimeState" where
  "written_elsewhere t s = s\<lparr>rules := rules t, logical := logical t, operational_intervals := operational_intervals t,
     receipts := receipts t, cooldowns := cooldowns t, rate_windows := rate_windows t, outbox := outbox t\<rparr>"

text \<open>A panic ends the run (\<open>None\<close>).\<close>

fun notification_step :: "'r RuntimeState option \<Rightarrow> 'r NotificationOp \<Rightarrow> 'r RuntimeState option" where
  "notification_step None x = None"
| "notification_step (Some s) (PushHistory entry) = push_history entry s"
| "notification_step (Some s) (PushAttempt attempt) = push_attempt attempt s"
| "notification_step (Some s) (Prune now) = Some (fst (prune now s))"
| "notification_step (Some s) (CancelDisabled rule_id active now) = map_option fst (cancel_disabled_outbox rule_id active now s)"
| "notification_step (Some s) NextOutboxId = map_option fst (next_outbox_id s)"
| "notification_step (Some s) (Elsewhere t) = Some (written_elsewhere t s)"

text \<open>A later history: what is left of the earlier one, in its order, and entries with fresh numbers.\<close>

definition later_history :: "'r RuntimeState \<Rightarrow> 'r RuntimeState \<Rightarrow> bool" where
  "later_history s s' \<longleftrightarrow> next_history_sequence s \<le> next_history_sequence s'
     \<and> (\<exists>old new. history s' = old @ new \<and> subseq old (history s) \<and> (\<forall>e \<in> set new. next_history_sequence s \<le> he_sequence e))"

lemma later_history_same:
  "history s' = history s \<Longrightarrow> next_history_sequence s' = next_history_sequence s \<Longrightarrow> later_history s s'"
  unfolding later_history_def by (intro conjI exI [of _ "history s"] exI [of _ "[]"]) simp_all

lemma later_history_trans:
  assumes "later_history s1 s2" "later_history s2 s3"
  shows "later_history s1 s3"
proof -
  obtain o1 n1 o2 n2 where h: "history s2 = o1 @ n1" "subseq o1 (history s1)" "\<forall>e \<in> set n1. next_history_sequence s1 \<le> he_sequence e"
      "history s3 = o2 @ n2" "subseq o2 (o1 @ n1)" "\<forall>e \<in> set n2. next_history_sequence s2 \<le> he_sequence e"
    using assms by (auto simp: later_history_def)
  obtain p q where o2: "o2 = p @ q" "subseq p o1" "subseq q n1" using h(5) subseq_appendE by metis
  have "set q \<subseteq> set n1" using o2(3) by (auto simp: subseq_conv_nths dest: in_set_nthsD)
  with assms h o2 show ?thesis
    unfolding later_history_def
    by (intro conjI exI [of _ p] exI [of _ "q @ n2"]) (auto intro: subseq_order.trans)
qed

lemma push_history_later: "push_history entry s = Some s' \<Longrightarrow> later_history s s'"
proof -
  assume run: "push_history entry s = Some s'"
  let ?e = "history_entry (next_history_sequence s) entry"
  let ?k = "length (history s @ [?e]) - MAX_HISTORY_EVENTS"
  have f: "next_history_sequence s' = Suc (next_history_sequence s)" "history s' = drop ?k (history s @ [?e])"
    using run by (auto simp: push_history_def checked_add_u64_def keep_last_def split: if_splits)
  have "?k \<le> length (history s)" by (simp add: MAX_HISTORY_EVENTS_def)
  then have "history s' = drop ?k (history s) @ [?e]" using f(2) by simp
  then show ?thesis
    unfolding later_history_def
    by (intro conjI exI [of _ "drop ?k (history s)"] exI [of _ "[?e]"])
      (simp_all add: f(1) suffix_imp_subseq suffix_drop history_entry_def)
qed

lemma push_cancelled_later: "push_cancelled rule_id now ids s = Some s' \<Longrightarrow> later_history s s'"
proof (induction rule_id now ids s rule: push_cancelled.induct)
  case (2 rule_id now logical_id stage rest s)
  then show ?case
    by (auto split: option.splits intro: later_history_trans [OF push_history_later])
qed (simp add: later_history_same)

lemma prune_later: "later_history s (fst (prune now s))"
proof -
  obtain s' r where run: "prune now s = (s', r)" by fastforce
  then have "later_history s s'"
  proof (cases rule: prune_cases)
    case (pruned s0)
    have "later_history s s0" by (rule later_history_same) (simp_all add: pruned(2))
    moreover have "history s' = filter (\<lambda>e. he_logical_id e \<notin> set (removed_ids s0)) (history s0)"
      unfolding pruned(4) by (simp add: prune_terminal_notifications_def Let_def)
    then have "later_history s0 s'"
      unfolding later_history_def
      by (intro conjI exI [of _ "history s'"] exI [of _ "[]"]) (simp_all add: pruned(4) subseq_filter_left)
    ultimately show ?thesis by (rule later_history_trans)
  qed (simp_all add: later_history_same)
  with run show ?thesis by simp
qed

lemma cancel_disabled_later:
  assumes "cancel_disabled_outbox rule_id active now s = Some (s', n)"
  shows "later_history s s'"
  using assms
proof (cases rule: cancel_disabled_cases)
  case (1 s1 cancelled)
  have "later_history s s1" by (rule later_history_same) (simp_all add: 1(2))
  then show ?thesis using push_cancelled_later [OF 1(3)] by (rule later_history_trans)
qed

lemma notification_step_later: "notification_step (Some s) x = Some s' \<Longrightarrow> later_history s s'"
  by (cases x)
    (auto simp: push_attempt_def next_outbox_id_def written_elsewhere_def split: option.splits
      intro: push_history_later prune_later cancel_disabled_later later_history_same)

lemma notification_run_later: "foldl notification_step (Some s) ops = Some s' \<Longrightarrow> later_history s s'"
proof (induction ops arbitrary: s)
  case (Cons x ops)
  have none: "foldl notification_step None ops = None" by (induction ops) simp_all
  obtain s1 where s1: "notification_step (Some s) x = Some s1"
    using Cons.prems none by (cases "notification_step (Some s) x") simp_all
  with Cons.prems have "later_history s1 s'" by (intro Cons.IH) simp
  with notification_step_later [OF s1] show ?case by (rule later_history_trans)
qed (simp add: later_history_same)

interpretation notification: machine notification_step "\<lambda>st. is_none_or st history_ok"
proof
  fix st :: "'a RuntimeState option" and x
  assume ok: "is_none_or st history_ok"
  show "is_none_or (notification_step st x) history_ok"
  proof (cases st)
    case (Some s)
    then have s: "history_ok s" using ok by simp
    show ?thesis
    proof (cases x)
      case (PushHistory e)
      then show ?thesis using Some push_history_ok [OF _ s] by (auto simp: is_none_or_iff)
    next
      case (PushAttempt a)
      then show ?thesis
        using Some s by (auto simp: is_none_or_iff push_attempt_def history_ok_def split: option.splits)
    next
      case (Prune now)
      then show ?thesis using Some prune_history [OF s] by simp
    next
      case (CancelDisabled rule_id active now)
      have "history_ok s'" if "cancel_disabled_outbox rule_id active now s = Some (s', n)" for s' n
        using that
      proof (cases rule: cancel_disabled_cases)
        case (1 s1 cancelled)
        have "history_ok s1" using s by (simp add: 1(2) history_ok_def)
        then show ?thesis by (rule push_cancelled_ok [OF 1(3)])
      qed
      then show ?thesis using CancelDisabled Some by (auto simp: is_none_or_iff)
    next
      case NextOutboxId
      then show ?thesis
        using Some s by (auto simp: is_none_or_iff next_outbox_id_def history_ok_def split: option.splits)
    next
      case (Elsewhere t)
      then show ?thesis using Some s by (simp add: written_elsewhere_def history_ok_def)
    qed
  qed simp
qed

section \<open>Properties\<close>

text \<open>
  C20: pruning never drops work: an outbox entry that is pending, being delivered or waiting for a receipt
  stays, and so does its notification, whether or not the pruning reports an exceeded limit.
\<close>

theorem prune_keeps_active_work:
  assumes "(k, item) \<in> set (outbox s)" "outbox_active item" "(oi_logical_id item, l) \<in> set (logical s)"
  shows "(k, item) \<in> set (outbox (fst (prune now s))) \<and> (oi_logical_id item, l) \<in> set (logical (fst (prune now s)))"
proof -
  obtain s' r where run: "prune now s = (s', r)" by fastforce
  then have "(k, item) \<in> set (outbox s') \<and> (oi_logical_id item, l) \<in> set (logical s')"
  proof (cases rule: prune_cases)
    case (pruned s0)
    have "outbox s0 = outbox s" "logical s0 = logical s" by (simp_all add: pruned(2))
    with prune_terminal_keeps [of k item s0] assms show ?thesis by (simp add: pruned(4))
  qed (use assms in simp_all)
  with run show ?thesis by simp
qed

definition demo_item :: "string \<Rightarrow> OutboxStatus \<Rightarrow> NotificationOutboxItem" where
  "demo_item l st = \<lparr>oi_id = 1, oi_logical_id = l, oi_action_index = 0, oi_stage = Preliminary, oi_channel = Browser,
     oi_destination_json = [], oi_payload_json = [], oi_replacement_key = [], oi_priority = 0, oi_status = st,
     oi_attempt_count = 0, oi_max_attempts = 3, oi_max_retry_interval_ms = 1000, oi_attachment_enabled = False,
     oi_attachment_required = False, oi_max_attachment_bytes = 0, oi_next_attempt_at_ms = 0, oi_expires_at_ms = 100,
     oi_item_updated_at_ms = 0, oi_last_reason = None, oi_provider_request_id = None, oi_provider_receipt = None,
     oi_next_receipt_check_at_ms = None, oi_provider_receipt_expires_at_ms = None, oi_provider_acknowledged_at_ms = None,
     oi_provider_expired_at_ms = None, oi_provider_acknowledged_by_hash = None\<rparr>"

definition demo_notification :: "string \<Rightarrow> LogicalNotification" where
  "demo_notification x = \<lparr>ln_id = x, ln_rule_id = ''r'', ln_owner_id = ''o'', ln_source_id = ''cam'', ln_source_identity = ''e'',
     ln_lifecycle = LifecycleEvent, ln_stage = Preliminary, ln_highest_revision = 1, ln_enrichment_attempts = 0,
     ln_created_at_ms = 0, ln_updated_at_ms = 0, ln_enrichment_deadline_at_ms = 10, ln_title = [], ln_body = [],
     ln_deep_link = [], ln_attachment_path = None, ln_severity = SeverityInfo, ln_canonical_attachment = None,
     ln_icon_key = None, ln_image_available = False\<rparr>"

definition demo_runtime :: "unit RuntimeState" where
  "demo_runtime = (RuntimeState_new [])\<lparr>logical := [(''n1'', demo_notification ''n1''), (''n2'', demo_notification ''n2'')],
     outbox := [(1, demo_item ''n1'' Pending), (2, demo_item ''n2'' Delivered)]\<rparr>"

theorem prune_keeps_active_work_witness: "(1, demo_item ''n1'' Pending) \<in> set (outbox (fst (prune 50 demo_runtime)))"
  using prune_keeps_active_work [of 1 "demo_item ''n1'' Pending" demo_runtime "demo_notification ''n1''" 50]
  by (simp add: demo_runtime_def outbox_active_def demo_item_def)

text \<open>
  a pruning that succeeds leaves every map within its limit and only cooldowns that are still running.
\<close>

theorem prune_bounded:
  assumes "prune now s = (s', Inr ())" "distinct (map fst (rate_windows s))"
  shows "length (cooldowns s') \<le> MAX_COOLDOWN_WINDOWS \<and> list_all (\<lambda>(_, eligible_at). now < eligible_at) (cooldowns s')
    \<and> length (rate_windows s') \<le> MAX_RATE_WINDOWS \<and> length (operational_intervals s') \<le> MAX_OPERATIONAL_INTERVALS
    \<and> length (logical s') \<le> MAX_LOGICAL_NOTIFICATIONS"
  using assms(1)
proof (cases rule: prune_cases)
  case (pruned s0)
  have "length (operational_intervals s') \<le> MAX_OPERATIONAL_INTERVALS"
    using pruned(2-4) by (auto simp: prune_operational_intervals_def Let_def split: if_splits)
  with pruned prune_rate_bound [OF assms(2)] show ?thesis
    by (auto simp: list_all_iff split: if_splits)
qed simp_all

theorem prune_bounded_witness: "length (rate_windows (fst (prune 50 demo_runtime))) \<le> MAX_RATE_WINDOWS"
proof -
  have "prune 50 demo_runtime = (fst (prune 50 demo_runtime), Inr ())" by code_simp
  moreover have "distinct (map fst (rate_windows demo_runtime))" by code_simp
  ultimately show ?thesis using prune_bounded by blast
qed

text \<open>
  C22: whatever the modules that share the state do with its notifications and deliveries in between, the
  history is ordered by strictly increasing sequence numbers and bounded. Between two moments of a run
  entries can only disappear or be added behind the others: what a later history holds of the earlier
  numbers is a part of the earlier history in the same order, and every other entry has a fresh number.
\<close>

theorem notification_history_ordered:
  assumes "foldl notification_step (Some (RuntimeState_new rs)) ops1 = Some s1" "foldl notification_step (Some s1) ops2 = Some s2"
  shows "sorted_wrt (<) (map he_sequence (history s2)) \<and> length (history s2) \<le> MAX_HISTORY_EVENTS
    \<and> (\<forall>e \<in> set (history s1). he_sequence e < next_history_sequence s1)
    \<and> (\<exists>old new. history s2 = old @ new \<and> subseq old (history s1)
         \<and> (\<forall>e \<in> set new. next_history_sequence s1 \<le> he_sequence e \<and> he_sequence e < next_history_sequence s2))"
proof -
  have "is_none_or (foldl notification_step (Some (RuntimeState_new rs)) ops1) history_ok"
    by (rule notification.run_inv) (simp add: history_ok_def RuntimeState_new_def)
  then have s1: "history_ok s1" using assms(1) by simp
  have "is_none_or (foldl notification_step (Some s1) ops2) history_ok"
    by (rule notification.run_inv) (simp add: s1)
  then have s2: "history_ok s2" using assms(2) by simp
  obtain old new where "history s2 = old @ new" "subseq old (history s1)" "\<forall>e \<in> set new. next_history_sequence s1 \<le> he_sequence e"
    using notification_run_later [OF assms(2)] by (auto simp: later_history_def)
  with s1 s2 show ?thesis unfolding history_ok_def by (intro conjI exI [of _ old] exI [of _ new]) auto
qed

definition demo_history_op :: "unit NotificationOp" where
  "demo_history_op = PushHistory \<lparr>ph_logical_id = ''n'', ph_rule_id = ''r'', ph_revision = 1, ph_stage = Enriched,
     ph_outcome = ''sent'', ph_reason = None, ph_occurred_at_ms = 5, ph_next_eligible_at_ms = None\<rparr>"

theorem notification_history_ordered_witness:
  "\<exists>s1 s2. foldl notification_step (Some (RuntimeState_new [])) [demo_history_op, Elsewhere demo_runtime] = Some s1
     \<and> foldl notification_step (Some s1) [CancelDisabled ''r'' None 60, Prune 70] = Some s2
     \<and> map he_sequence (history s1) = [1] \<and> map he_sequence (history s2) = [1, 2]
     \<and> (\<exists>old new. history s2 = old @ new \<and> subseq old (history s1)
         \<and> (\<forall>e \<in> set new. next_history_sequence s1 \<le> he_sequence e \<and> he_sequence e < next_history_sequence s2))"
proof -
  let ?r1 = "foldl notification_step (Some (RuntimeState_new [])) [demo_history_op, Elsewhere demo_runtime]"
  let ?r2 = "foldl notification_step (Some (the ?r1)) [CancelDisabled ''r'' None 60, Prune 70]"
  have 1: "?r1 = Some (the ?r1)" and h1: "map he_sequence (history (the ?r1)) = [1]" by code_simp+
  have 2: "?r2 = Some (the ?r2)" and h2: "map he_sequence (history (the ?r2)) = [1, 2]" by code_simp+
  have "\<exists>old new. history (the ?r2) = old @ new \<and> subseq old (history (the ?r1))
      \<and> (\<forall>e \<in> set new. next_history_sequence (the ?r1) \<le> he_sequence e \<and> he_sequence e < next_history_sequence (the ?r2))"
    by (rule notification_history_ordered [OF 1 2, THEN conjunct2, THEN conjunct2, THEN conjunct2])
  with 1 2 h1 h2 show ?thesis by (intro exI [of _ "the ?r1"] exI [of _ "the ?r2"] conjI)
qed

text \<open>
  C21: disabling a rule or an action cancels exactly its waiting deliveries. Afterwards every delivery of
  the rule that is pending or retrying is one that an enabled action of the enabled rule still asks for;
  a delivery that changed was waiting, belonged to the rule and is no longer asked for, and is now
  expired with the reason; all others are as they were. The result is the number of changed deliveries,
  and the history grew by one consecutively numbered ''expired'' entry for each, in their order.
\<close>

theorem cancel_disabled_exact:
  assumes "cancel_disabled_outbox rule_id active now s = Some (s', n)"
    "length (outbox s) \<le> u64_max" "length (history s) \<le> MAX_HISTORY_EVENTS"
    and "changed = map fst (filter (\<lambda>(old, new). new \<noteq> old) (zip (outbox s) (outbox s')))"
  shows "list_all (\<lambda>(_, item). oi_status item \<in> {Pending, Retrying} \<and> of_rule rule_id s item
        \<longrightarrow> delivers active (oi_action_index item) (oi_channel item)) (outbox s')
    \<and> list_all2 (\<lambda>(k, item) (k', item'). k' = k \<and> (item' = item
        \<or> oi_status item \<in> {Pending, Retrying} \<and> of_rule rule_id s item
          \<and> \<not> delivers active (oi_action_index item) (oi_channel item)
          \<and> item' = item\<lparr>oi_status := Expired, oi_item_updated_at_ms := now, oi_last_reason := Some ''rule_or_action_disabled''\<rparr>))
        (outbox s) (outbox s')
    \<and> n = length changed
    \<and> (\<exists>new. history s' = keep_last MAX_HISTORY_EVENTS (history s @ new)
         \<and> map he_sequence new = [next_history_sequence s..<next_history_sequence s + n]
         \<and> map (\<lambda>e. (he_logical_id e, he_stage e)) new = map (\<lambda>(_, item). (oi_logical_id item, oi_stage item)) changed
         \<and> list_all (\<lambda>e. he_rule_id e = rule_id \<and> he_outcome e = ''expired'' \<and> he_occurred_at_ms e = now) new)"
  using assms(1)
proof (cases rule: cancel_disabled_cases)
  case (1 s1 cancelled)
  note effect = push_cancelled_effect [OF 1(3,5)]
  let ?gone = "filter (\<lambda>(_, item). cancels rule_id active s item) (outbox s)"
  have s': "outbox s' = map (\<lambda>(k, item). (k, if cancels rule_id active s item then cancel_item now item else item)) (outbox s)"
    using effect assms(3) 1(2) by simp
  have ch: "changed = ?gone" unfolding assms(4) s' by (rule changed_cancelled)
  have "length ?gone \<le> u64_max" using assms(2) length_filter_le le_trans by blast
  then have n: "n = length changed" "length cancelled = n" using 1(1,4) ch by simp_all
  have "list_all (\<lambda>(_, item). oi_status item \<in> {Pending, Retrying} \<and> of_rule rule_id s item
        \<longrightarrow> delivers active (oi_action_index item) (oi_channel item)) (outbox s')"
    by (auto simp: s' list_all_iff cancels_iff cancel_item_def split: if_splits)
  moreover have "list_all2 (\<lambda>(k, item) (k', item'). k' = k \<and> (item' = item
        \<or> oi_status item \<in> {Pending, Retrying} \<and> of_rule rule_id s item
          \<and> \<not> delivers active (oi_action_index item) (oi_channel item)
          \<and> item' = item\<lparr>oi_status := Expired, oi_item_updated_at_ms := now, oi_last_reason := Some ''rule_or_action_disabled''\<rparr>))
        (outbox s) (outbox s')"
    unfolding s' list_all2_map2
  proof (rule list.rel_refl_strong)
    fix e :: "nat \<times> NotificationOutboxItem"
    obtain k item where e: "e = (k, item)" by (cases e)
    show "(case e of (k, item) \<Rightarrow> \<lambda>(k', item'). k' = k \<and> (item' = item
        \<or> oi_status item \<in> {Pending, Retrying} \<and> of_rule rule_id s item
          \<and> \<not> delivers active (oi_action_index item) (oi_channel item)
          \<and> item' = item\<lparr>oi_status := Expired, oi_item_updated_at_ms := now, oi_last_reason := Some ''rule_or_action_disabled''\<rparr>))
        (case e of (k, item) \<Rightarrow> (k, if cancels rule_id active s item then cancel_item now item else item))"
      using cancels_iff [of rule_id active s item] by (cases "cancels rule_id active s item") (auto simp: e cancel_item_def)
  qed
  ultimately show ?thesis using effect assms(3) n ch 1(1,2) by (intro conjI) simp_all
qed

theorem cancel_disabled_exact_witness:
  "\<exists>s'. cancel_disabled_outbox ''r'' None 60 demo_runtime = Some (s', 1)
     \<and> list_all (\<lambda>(_, item). oi_status item \<in> {Pending, Retrying} \<and> of_rule ''r'' demo_runtime item
         \<longrightarrow> delivers None (oi_action_index item) (oi_channel item)) (outbox s')
     \<and> map (oi_status \<circ> snd) (outbox s') = [Expired, Delivered]"
proof -
  let ?r = "cancel_disabled_outbox ''r'' None 60 demo_runtime"
  have 1: "?r = Some (fst (the ?r), 1)" and st: "map (oi_status \<circ> snd) (outbox (fst (the ?r))) = [Expired, Delivered]" by code_simp+
  have "length (outbox demo_runtime) \<le> u64_max" "length (history demo_runtime) \<le> MAX_HISTORY_EVENTS"
    by (simp_all add: demo_runtime_def u64_max_def RuntimeState_new_def)
  from cancel_disabled_exact [OF 1 this refl, THEN conjunct1] 1 st show ?thesis
    by (intro exI [of _ "fst (the ?r)"] conjI)
qed

end
