(* ===== verification/Battery_Wake.thy ===== *)
theory Battery_Wake
  imports KP_Prelude "HOL-Library.Sublist"
begin

text \<open>
  Waking battery cameras, \<open>src/src/battery_wake.rs\<close>: the registry of sleeping cameras, the two
  listeners that answer discovery messages, and the client that asks for a wake. A packet is its
  transmission number and the list of events of its XML document, as the XML library writes them and
  reads them back; a datagram is \<open>None\<close> when it does not decode to a discovery packet. The byte
  framing of \<open>crates/reo-proto\<close>, failures to send, and the threads are not modelled. The clock, the
  random numbers and the local route of an address are arguments. A \<open>HashSet\<close> is the list of its
  elements in iteration order.
\<close>

section \<open>Numbers as text\<close>

fun digits :: "nat \<Rightarrow> string" where
  "digits n = (if n < 10 then [] else digits (n div 10)) @ [char_of (48 + n mod 10)]"

declare digits.simps [simp del]

definition show_int :: "int \<Rightarrow> string" where
  "show_int i = (if i < 0 then CHR ''-'' # digits (nat (- i)) else digits (nat i))"

definition is_digit :: "char \<Rightarrow> bool" where
  "is_digit c \<longleftrightarrow> 48 \<le> (of_char c :: nat) \<and> (of_char c :: nat) \<le> 57"

definition digits_value :: "string \<Rightarrow> nat" where
  "digits_value s = foldl (\<lambda>n c. n * 10 + (of_char c - 48)) 0 s"

definition parse_digits :: "string \<Rightarrow> nat option" where
  "parse_digits s = (if s \<noteq> [] \<and> list_all is_digit s then Some (digits_value s) else None)"

text \<open>\<open>str::parse\<close> for unsigned integers up to \<open>limit\<close> and for \<open>i32\<close>: an optional sign, then digits.\<close>

definition parse_unsigned :: "nat \<Rightarrow> string \<Rightarrow> nat option" where
  "parse_unsigned limit s =
     (case parse_digits (if s \<noteq> [] \<and> hd s = CHR ''+'' then tl s else s) of
        None \<Rightarrow> None | Some n \<Rightarrow> if n \<le> limit then Some n else None)"

definition parse_i32 :: "string \<Rightarrow> int option" where
  "parse_i32 s =
     (let sign = (if s \<noteq> [] \<and> hd s = CHR ''-'' then -1 else 1);
          t = (if s \<noteq> [] \<and> (hd s = CHR ''-'' \<or> hd s = CHR ''+'') then tl s else s)
      in case parse_digits t of
           None \<Rightarrow> None
         | Some n \<Rightarrow> if - (2 ^ 31) \<le> sign * int n \<and> sign * int n < 2 ^ 31 then Some (sign * int n) else None)"

section \<open>Messages\<close>

datatype IpAddr = V4 nat nat nat nat | V6 string

type_synonym SocketAddr = "IpAddr \<times> nat"

fun show_ip :: "IpAddr \<Rightarrow> string" where
  "show_ip (V4 a b c d) = digits a @ ''.'' @ digits b @ ''.'' @ digits c @ ''.'' @ digits d"
| "show_ip (V6 s) = s"

datatype XmlEvent = XStart string | XText string | XCData string | XEnd string | XEmpty string | XOther | XMalformed

datatype WakeMessage =
  DeviceMiddlemanQuery string
| DeviceHeartbeat string bool
| DeviceRegistration string u64
| DeviceDisconnect
| ClientConnect string int nat
| ClientConnectReply int
| OtherMessage

datatype WakeError = NotDiscovery | BadXml | Io | MissingUid | InvalidUid | MissingToken | MissingClientId | MissingClientPort | MissingStatus | NoRoute

definition MAX_UID_LEN :: usize where
  "MAX_UID_LEN = 64"

definition valid_uid :: "string \<Rightarrow> bool" where
  "valid_uid uid \<longleftrightarrow> uid \<noteq> [] \<and> length uid \<le> MAX_UID_LEN
     \<and> list_all (\<lambda>c. is_digit c \<or> (65 \<le> (of_char c :: nat) \<and> (of_char c :: nat) \<le> 90)
          \<or> (97 \<le> (of_char c :: nat) \<and> (of_char c :: nat) \<le> 122) \<or> c = CHR ''-'' \<or> c = CHR ''_'') uid"

fun required_uid :: "string option \<Rightarrow> WakeError + string" where
  "required_uid None = Inl MissingUid"
| "required_uid (Some uid) = (if valid_uid uid then Inr uid else Inl InvalidUid)"

record WakeFields =
  wf_uid :: "string option"
  wf_token :: "u64 option"
  wf_needs_reply :: bool
  wf_client_id :: "int option"
  wf_client_port :: "nat option"
  wf_response :: "int option"

definition parse_field :: "string option \<Rightarrow> string \<Rightarrow> WakeFields \<Rightarrow> WakeFields" where
  "parse_field field v f =
     (if field = Some ''uid'' then f\<lparr>wf_uid := Some v\<rparr>
      else if field = Some ''token'' then f\<lparr>wf_token := parse_unsigned u64_max v\<rparr>
      else if field = Some ''needrsp'' then f\<lparr>wf_needs_reply := (v = ''1'')\<rparr>
      else if field = Some ''cid'' then f\<lparr>wf_client_id := parse_i32 v\<rparr>
      else if field = Some ''port'' then f\<lparr>wf_client_port := parse_unsigned 65535 v\<rparr>
      else if field = Some ''rsp'' then f\<lparr>wf_response := parse_i32 v\<rparr>
      else f)"

text \<open>The loop of \<open>parse_message\<close>: the operation, the current field, and the fields read so far.\<close>

type_synonym parse_state = "string option \<times> string option \<times> WakeFields"

fun parse_event :: "parse_state \<Rightarrow> XmlEvent \<Rightarrow> parse_state" where
  "parse_event (operation, field, f) (XStart name) =
     (if name \<noteq> ''P2P'' \<and> operation = None then (Some name, field, f) else (operation, Some name, f))"
| "parse_event (operation, field, f) (XText v) = (operation, field, parse_field field v f)"
| "parse_event (operation, field, f) (XCData v) = (operation, field, parse_field field v f)"
| "parse_event (operation, field, f) (XEnd name) = (operation, None, f)"
| "parse_event st (XEmpty name) = st"
| "parse_event st XOther = st"
| "parse_event st XMalformed = st"

definition no_fields :: WakeFields where
  "no_fields = \<lparr>wf_uid = None, wf_token = None, wf_needs_reply = False, wf_client_id = None, wf_client_port = None, wf_response = None\<rparr>"

definition need :: "'e \<Rightarrow> 'a option \<Rightarrow> 'e + 'a" where
  "need e x = (case x of None \<Rightarrow> Inl e | Some v \<Rightarrow> Inr v)"

definition wake_message :: "string option \<Rightarrow> WakeFields \<Rightarrow> WakeError + WakeMessage" where
  "wake_message operation f =
     (if operation = Some ''D2M_Q'' then and_then (required_uid (wf_uid f)) (\<lambda>uid. Inr (DeviceMiddlemanQuery uid))
      else if operation = Some ''D2R_HB'' then and_then (required_uid (wf_uid f)) (\<lambda>uid. Inr (DeviceHeartbeat uid (wf_needs_reply f)))
      else if operation = Some ''D2R_R''
      then and_then (required_uid (wf_uid f)) (\<lambda>uid. and_then (need MissingToken (wf_token f)) (\<lambda>token. Inr (DeviceRegistration uid token)))
      else if operation = Some ''D2R_DISC'' then Inr DeviceDisconnect
      else if operation = Some ''C2R_C''
      then and_then (required_uid (wf_uid f)) (\<lambda>uid. and_then (need MissingClientId (wf_client_id f)) (\<lambda>client_id.
             and_then (need MissingClientPort (wf_client_port f)) (\<lambda>client_port. Inr (ClientConnect uid client_id client_port))))
      else if operation = Some ''R2C_C_R''
      then and_then (need MissingStatus (wf_response f)) (\<lambda>response. Inr (ClientConnectReply response))
      else Inr OtherMessage)"

definition parse_message :: "XmlEvent list \<Rightarrow> WakeError + WakeMessage" where
  "parse_message xml =
     (if XMalformed \<in> set xml then Inl BadXml
      else let (operation, _, f) = foldl parse_event (None, None, no_fields) xml in wake_message operation f)"

section \<open>Packets\<close>

type_synonym packet = "nat \<times> XmlEvent list"

definition decode_message :: "packet option \<Rightarrow> WakeError + nat \<times> WakeMessage" where
  "decode_message datagram =
     (case datagram of
        None \<Rightarrow> Inl NotDiscovery
      | Some (tid, xml) \<Rightarrow> and_then (parse_message xml) (\<lambda>message. Inr (tid, message)))"

definition write_text :: "string \<Rightarrow> string \<Rightarrow> XmlEvent list" where
  "write_text name v = [XStart name, XText v, XEnd name]"

definition write_endpoint :: "string \<Rightarrow> SocketAddr \<Rightarrow> XmlEvent list" where
  "write_endpoint name a = [XStart name] @ write_text ''ip'' (show_ip (fst a)) @ write_text ''port'' (digits (snd a)) @ [XEnd name]"

definition discovery_packet :: "nat \<Rightarrow> string \<Rightarrow> XmlEvent list \<Rightarrow> packet" where
  "discovery_packet tid operation body = (tid, [XStart ''P2P'', XStart operation] @ body @ [XEnd operation, XEnd ''P2P''])"

record SessionAnchor =
  sa_token :: u64
  sa_access_code :: nat
  sa_issued_at :: instant

definition middleman_reply_packet :: "nat \<Rightarrow> SocketAddr \<Rightarrow> SessionAnchor \<Rightarrow> packet" where
  "middleman_reply_packet tid reg anchor = discovery_packet tid ''M2D_Q_R''
     (write_endpoint ''reg'' reg @ write_endpoint ''log'' reg @ [XEmpty ''timer'', XEmpty ''retry'']
      @ write_text ''rsp'' ''0'' @ write_text ''token'' (digits (sa_token anchor)) @ write_text ''ac'' (digits (sa_access_code anchor)))"

definition heartbeat_reply_packet :: "nat \<Rightarrow> duration \<Rightarrow> nat \<Rightarrow> packet" where
  "heartbeat_reply_packet tid heartbeat unix_seconds = discovery_packet tid ''R2D_HB_R''
     (write_text ''rsp'' ''0'' @ write_text ''time'' (digits unix_seconds)
      @ [XStart ''timer''] @ write_text ''hb'' (digits (as_millis heartbeat)) @ [XEnd ''timer''])"

definition registration_reply_packet :: "nat \<Rightarrow> nat \<Rightarrow> packet" where
  "registration_reply_packet tid access_code = discovery_packet tid ''R2D_R_R''
     (write_text ''rsp'' ''-4'' @ write_text ''ac'' (digits access_code))"

definition disconnect_reply_packet :: "nat \<Rightarrow> packet" where
  "disconnect_reply_packet tid = discovery_packet tid ''R2D_DC_R'' (write_text ''rsp'' ''0'')"

definition client_connect_packet :: "nat \<Rightarrow> string \<Rightarrow> SocketAddr \<Rightarrow> int \<Rightarrow> packet" where
  "client_connect_packet tid uid client client_id = discovery_packet tid ''C2R_C''
     (write_text ''uid'' uid @ [XStart ''cli''] @ write_text ''ip'' (show_ip (fst client))
      @ write_text ''port'' (digits (snd client)) @ [XEnd ''cli''] @ write_text ''cid'' (show_int client_id))"

definition client_connect_reply_packet :: "nat \<Rightarrow> SocketAddr option \<Rightarrow> SocketAddr option \<Rightarrow> nat \<Rightarrow> int \<Rightarrow> packet" where
  "client_connect_reply_packet tid camera relay session_id response = discovery_packet tid ''R2C_C_R''
     ((case camera of None \<Rightarrow> [] | Some a \<Rightarrow> write_endpoint ''dev'' a @ write_endpoint ''dmap'' a)
      @ (case relay of None \<Rightarrow> [] | Some a \<Rightarrow> write_endpoint ''relay'' a)
      @ write_text ''nat'' ''NULL''
      @ (if response = 0 then write_text ''sid'' (digits session_id) else [])
      @ write_text ''rsp'' (show_int response) @ write_text ''ac'' ''0'')"

definition client_ticket_packet :: "nat \<Rightarrow> SocketAddr \<Rightarrow> nat \<Rightarrow> int \<Rightarrow> packet" where
  "client_ticket_packet tid camera session_id client_id = discovery_packet tid ''R2C_T''
     (write_endpoint ''dev'' camera @ write_endpoint ''dmap'' camera
      @ write_text ''sid'' (digits session_id) @ write_text ''cid'' (show_int client_id))"

definition wake_packet :: "nat \<Rightarrow> SocketAddr \<Rightarrow> SocketAddr \<Rightarrow> nat \<Rightarrow> int \<Rightarrow> packet" where
  "wake_packet tid client relay session_id client_id = discovery_packet tid ''R2D_C''
     (write_endpoint ''cli'' client @ write_endpoint ''cmap'' client @ write_endpoint ''relay'' relay
      @ write_text ''sid'' (digits session_id) @ write_text ''cid'' (show_int client_id))"

section \<open>Registry\<close>

definition MAX_REGISTRATIONS :: usize where
  "MAX_REGISTRATIONS = 256"

definition WAKE_BURST_COUNT :: usize where
  "WAKE_BURST_COUNT = 10"

record BatteryWakeConfig =
  bw_enabled :: bool
  bw_bind :: "IpAddr option"
  bw_middleman_port :: nat
  bw_register_port :: nat
  bw_heartbeat_secs :: u64
  bw_stale_after_secs :: u64

datatype ConfigError = PortsZero | PortsEqual | HeartbeatZero | StaleBelowHeartbeat

definition wake_config_validate :: "BatteryWakeConfig \<Rightarrow> ConfigError + unit" where
  "wake_config_validate c =
     (if bw_middleman_port c = 0 \<or> bw_register_port c = 0 then Inl PortsZero
      else if bw_middleman_port c = bw_register_port c then Inl PortsEqual
      else if bw_heartbeat_secs c = 0 then Inl HeartbeatZero
      else if bw_stale_after_secs c < bw_heartbeat_secs c then Inl StaleBelowHeartbeat
      else Inr ())"

record Registration =
  rg_address :: SocketAddr
  rg_last_seen :: instant

record WakeState =
  anchors :: "(string, SessionAnchor) btree"
  registrations :: "(string, Registration) btree"
  pending_wakes :: "(string, instant) btree"

record WakeCore =
  wc_config :: BatteryWakeConfig
  allowed_uids :: "string list"

definition WakeState_default :: WakeState where
  "WakeState_default = \<lparr>anchors = [], registrations = [], pending_wakes = []\<rparr>"

text \<open>\<open>max_by_key\<close>: the last of the longest.\<close>

fun longest :: "string list \<Rightarrow> string option" where
  "longest [] = None"
| "longest (x # xs) = (case longest xs of None \<Rightarrow> Some x | Some y \<Rightarrow> if length y \<ge> length x then Some y else Some x)"

definition configured_uid :: "WakeCore \<Rightarrow> string \<Rightarrow> string option" where
  "configured_uid core reported = longest (filter (\<lambda>configured. reported = configured \<or> prefix configured reported) (allowed_uids core))"

text \<open>\<open>local_route_ip\<close>: IPv4 only; \<open>route\<close> is what the operating system answers.\<close>

fun local_route_ip :: "(IpAddr \<Rightarrow> IpAddr option) \<Rightarrow> IpAddr \<Rightarrow> WakeError + IpAddr" where
  "local_route_ip route (V6 s) = Inl NoRoute"
| "local_route_ip route (V4 a b c d) =
     (case route (V4 a b c d) of
        Some (V4 w x y z) \<Rightarrow> if V4 w x y z \<noteq> V4 0 0 0 0 then Inr (V4 w x y z) else Inl NoRoute
      | _ \<Rightarrow> Inl NoRoute)"

text \<open>The route is asked even when a bind address is configured: \<open>unwrap_or\<close> evaluates its argument first.\<close>

definition server_address :: "(IpAddr \<Rightarrow> IpAddr option) \<Rightarrow> WakeCore \<Rightarrow> IpAddr \<Rightarrow> WakeError + SocketAddr" where
  "server_address route core camera_ip =
     and_then (local_route_ip route camera_ip) (\<lambda>routed.
       let bind = (case bw_bind (wc_config core) of
                     Some bind \<Rightarrow> if bind \<noteq> V4 0 0 0 0 then bind else routed
                   | None \<Rightarrow> routed)
       in Inr (bind, bw_register_port (wc_config core)))"

definition advertise_address :: "(IpAddr \<Rightarrow> IpAddr option) \<Rightarrow> WakeCore \<Rightarrow> SocketAddr \<Rightarrow> WakeError + SocketAddr" where
  "advertise_address route core peer =
     and_then (local_route_ip route (fst peer)) (\<lambda>routed.
       let bind = (case bw_bind (wc_config core) of
                     Some bind \<Rightarrow> if bind \<noteq> V4 0 0 0 0 then bind else routed
                   | None \<Rightarrow> routed)
       in Inr (bind, bw_register_port (wc_config core)))"

definition issue_anchor :: "WakeCore \<Rightarrow> string \<Rightarrow> u64 \<Rightarrow> nat \<Rightarrow> instant \<Rightarrow> WakeState \<Rightarrow> WakeState \<times> SessionAnchor option" where
  "issue_anchor core uid token access_code now s =
     (case configured_uid core uid of
        None \<Rightarrow> (s, None)
      | Some configured \<Rightarrow>
          let anchor = \<lparr>sa_token = token, sa_access_code = access_code, sa_issued_at = now\<rparr>
          in (s\<lparr>anchors := bt_insert configured anchor (anchors s)\<rparr>, Some anchor))"

definition register_at :: "WakeCore \<Rightarrow> string \<Rightarrow> SocketAddr \<Rightarrow> instant \<Rightarrow> WakeState \<Rightarrow> WakeState \<times> bool" where
  "register_at core uid address now s =
     (case configured_uid core uid of
        None \<Rightarrow> (s, False)
      | Some configured \<Rightarrow>
          if length (registrations s) \<ge> MAX_REGISTRATIONS \<and> bt_get (registrations s) configured = None then (s, False)
          else
            let returned_to_sleep = is_some_and (bt_get (pending_wakes s) configured)
                  (\<lambda>pending_since. saturating_duration_since now pending_since \<ge> from_secs (bw_heartbeat_secs (wc_config core)));
                s = (if returned_to_sleep then s\<lparr>pending_wakes := bt_remove configured (pending_wakes s)\<rparr> else s)
            in (s\<lparr>registrations := bt_insert configured \<lparr>rg_address = address, rg_last_seen = now\<rparr> (registrations s)\<rparr>, True))"

definition anchor :: "WakeCore \<Rightarrow> string \<Rightarrow> u64 \<Rightarrow> instant \<Rightarrow> WakeState \<Rightarrow> SessionAnchor option" where
  "anchor core uid token now s =
     (case configured_uid core uid of
        None \<Rightarrow> None
      | Some configured \<Rightarrow>
          (case bt_get (anchors s) configured of
             None \<Rightarrow> None
           | Some a \<Rightarrow> if sa_token a = token
                        \<and> saturating_duration_since now (sa_issued_at a) \<le> from_secs (bw_stale_after_secs (wc_config core))
                       then Some a else None))"

definition registration_at :: "WakeCore \<Rightarrow> string \<Rightarrow> instant \<Rightarrow> WakeState \<Rightarrow> WakeState \<times> Registration option" where
  "registration_at core uid now s =
     (case configured_uid core uid of
        None \<Rightarrow> (s, None)
      | Some configured \<Rightarrow>
          (case bt_get (registrations s) configured of
             None \<Rightarrow> (s, None)
           | Some r \<Rightarrow>
               if saturating_duration_since now (rg_last_seen r) > from_secs (bw_stale_after_secs (wc_config core))
               then (s\<lparr>registrations := bt_remove configured (registrations s),
                       pending_wakes := bt_remove configured (pending_wakes s)\<rparr>, None)
               else (s, Some r)))"

definition note_wake_requested :: "WakeCore \<Rightarrow> string \<Rightarrow> instant \<Rightarrow> WakeState \<Rightarrow> WakeState" where
  "note_wake_requested core uid now s =
     (case configured_uid core uid of
        None \<Rightarrow> s | Some configured \<Rightarrow> s\<lparr>pending_wakes := bt_insert configured now (pending_wakes s)\<rparr>)"

definition note_media_connected :: "WakeCore \<Rightarrow> string \<Rightarrow> WakeState \<Rightarrow> WakeState" where
  "note_media_connected core uid s =
     (case configured_uid core uid of
        None \<Rightarrow> s | Some configured \<Rightarrow> s\<lparr>pending_wakes := bt_remove configured (pending_wakes s)\<rparr>)"

definition wake_pending :: "WakeCore \<Rightarrow> string \<Rightarrow> WakeState \<Rightarrow> instant option" where
  "wake_pending core uid s =
     (case configured_uid core uid of None \<Rightarrow> None | Some configured \<Rightarrow> bt_get (pending_wakes s) configured)"

record BatteryWakeHealth =
  registered :: bool
  last_seen_age_ms :: "u64 option"
  wake_pending_age_ms :: "u64 option"
  sleeping :: bool

definition age_ms :: "instant \<Rightarrow> instant \<Rightarrow> u64" where
  "age_ms now t = min (as_millis (saturating_duration_since now t)) u64_max"

definition health_at :: "WakeCore \<Rightarrow> string \<Rightarrow> instant \<Rightarrow> WakeState \<Rightarrow> WakeState \<times> BatteryWakeHealth" where
  "health_at core uid now s =
     (let (s, registration) = registration_at core uid now s;
          pending = wake_pending core uid s
      in (s, \<lparr>registered = (registration \<noteq> None), last_seen_age_ms = map_option (\<lambda>r. age_ms now (rg_last_seen r)) registration,
              wake_pending_age_ms = map_option (age_ms now) pending, sleeping = (registration \<noteq> None \<and> pending = None)\<rparr>))"

section \<open>Listeners\<close>

text \<open>The random numbers and the clocks that a handler reads.\<close>

record WakeEnv =
  env_route :: "IpAddr \<Rightarrow> IpAddr option"
  env_token :: u64
  env_access_code :: nat
  env_session :: nat
  env_now :: instant
  env_unix_seconds :: nat

definition handle_middleman :: "WakeEnv \<Rightarrow> WakeCore \<Rightarrow> SocketAddr \<Rightarrow> packet option \<Rightarrow> WakeState \<Rightarrow> WakeState \<times> (WakeError + packet option)" where
  "handle_middleman env core source datagram s =
     (case decode_message datagram of
        Inl e \<Rightarrow> (s, Inl e)
      | Inr (tid, DeviceMiddlemanQuery uid) \<Rightarrow>
          (case issue_anchor core uid (env_token env) (env_access_code env) (env_now env) s of
             (s, None) \<Rightarrow> (s, Inr None)
           | (s, Some a) \<Rightarrow>
               (s, and_then (advertise_address (env_route env) core source)
                     (\<lambda>reg. Inr (Some (middleman_reply_packet tid reg a)))))
      | Inr _ \<Rightarrow> (s, Inr None))"

text \<open>What a handler of the register socket sends, in order, and how it ends.\<close>

type_synonym sent = "(packet \<times> SocketAddr) list \<times> (WakeError + unit)"

definition wake_burst :: "WakeEnv \<Rightarrow> nat \<Rightarrow> SocketAddr \<Rightarrow> SocketAddr \<Rightarrow> SocketAddr \<Rightarrow> int \<Rightarrow> (packet \<times> SocketAddr) list" where
  "wake_burst env tid camera client relay client_id =
     replicate WAKE_BURST_COUNT (wake_packet tid client relay (env_session env) client_id, camera)"

definition client_connect :: "WakeEnv \<Rightarrow> WakeCore \<Rightarrow> SocketAddr \<Rightarrow> nat \<Rightarrow> string \<Rightarrow> int \<Rightarrow> nat \<Rightarrow> WakeState \<Rightarrow> WakeState \<times> sent" where
  "client_connect env core source tid uid client_id client_port s =
     (case registration_at core uid (env_now env) s of
        (s, None) \<Rightarrow> (s, [(client_connect_reply_packet tid None None 0 (-1), source)], Inr ())
      | (s, Some camera) \<Rightarrow>
          (case advertise_address (env_route env) core (rg_address camera) of
             Inl e \<Rightarrow> (s, [], Inl e)
           | Inr relay \<Rightarrow>
               (s, wake_burst env tid (rg_address camera) (fst source, client_port) relay client_id
                   @ [(client_connect_reply_packet tid (Some (rg_address camera)) (Some relay) (env_session env) 0, source),
                      (client_ticket_packet tid (rg_address camera) (env_session env) client_id, source)], Inr ())))"

definition handle_register :: "WakeEnv \<Rightarrow> WakeCore \<Rightarrow> SocketAddr \<Rightarrow> packet option \<Rightarrow> WakeState \<Rightarrow> WakeState \<times> sent" where
  "handle_register env core source datagram s =
     (case decode_message datagram of
        Inl e \<Rightarrow> (s, [], Inl e)
      | Inr (tid, DeviceHeartbeat uid needs_reply) \<Rightarrow>
          (let (s, ok) = register_at core uid source (env_now env) s
           in (s, if ok \<and> needs_reply
                  then [(heartbeat_reply_packet tid (from_secs (bw_heartbeat_secs (wc_config core))) (env_unix_seconds env), source)]
                  else [], Inr ()))
      | Inr (tid, DeviceRegistration uid token) \<Rightarrow>
          (s, (case anchor core uid token (env_now env) s of
                 None \<Rightarrow> [] | Some a \<Rightarrow> [(registration_reply_packet tid (sa_access_code a), source)]), Inr ())
      | Inr (tid, DeviceDisconnect) \<Rightarrow> (s, [(disconnect_reply_packet tid, source)], Inr ())
      | Inr (tid, ClientConnect uid client_id client_port) \<Rightarrow> client_connect env core source tid uid client_id client_port s
      | Inr _ \<Rightarrow> (s, [], Inr ()))"

section \<open>Client\<close>

text \<open>
  One pass of the receive loop of \<open>request_wake\<close>: the clock at its head, and what the socket gives. The
  list of passes ends where the program does; an exhausted list is a clock that passed the deadline.
\<close>

datatype Received = Datagram "packet option" instant | TimedOut | ReceiveFailed

definition WAKE_REPLY_TIMEOUT :: duration where
  "WAKE_REPLY_TIMEOUT = from_secs 2"

fun await_reply :: "WakeCore \<Rightarrow> string \<Rightarrow> instant \<Rightarrow> (instant \<times> Received) list \<Rightarrow> WakeState \<Rightarrow> WakeState \<times> (WakeError + bool)" where
  "await_reply core uid deadline [] s = (s, Inr False)"
| "await_reply core uid deadline ((now, received) # rest) s =
     (if now < deadline then
        case received of
          Datagram datagram then_now \<Rightarrow>
            (case decode_message datagram of
               Inr (_, ClientConnectReply response) \<Rightarrow>
                 if response = 0 then (note_wake_requested core uid then_now s, Inr True) else (s, Inr False)
             | _ \<Rightarrow> await_reply core uid deadline rest s)
        | TimedOut \<Rightarrow> await_reply core uid deadline rest s
        | ReceiveFailed \<Rightarrow> (s, Inl Io)
      else (s, Inr False))"

text \<open>\<open>request_wake\<close> with the packet it sends and where to.\<close>

definition request_wake :: "(IpAddr \<Rightarrow> IpAddr option) \<Rightarrow> WakeCore \<Rightarrow> nat \<Rightarrow> IpAddr \<Rightarrow> string \<Rightarrow> int \<Rightarrow> nat \<Rightarrow> instant
    \<Rightarrow> (instant \<times> Received) list \<Rightarrow> WakeState \<Rightarrow> WakeState \<times> (packet \<times> SocketAddr) option \<times> (WakeError + bool)" where
  "request_wake route core local_port camera_ip uid client_id tid now passes s =
     (case server_address route core camera_ip of
        Inl e \<Rightarrow> (s, None, Inl e)
      | Inr server \<Rightarrow>
          (case local_route_ip route camera_ip of
             Inl e \<Rightarrow> (s, None, Inl e)
           | Inr ip \<Rightarrow>
               (let (s, result) = await_reply core uid (now + WAKE_REPLY_TIMEOUT) passes s
                in (s, Some (client_connect_packet tid uid (ip, local_port) client_id, server), result))))"

end
