(* ===== verification/Battery_Wake_Run.thy ===== *)
theory Battery_Wake_Run
  imports Battery_Wake
begin

text \<open>
  Battery wake-up as a whole: what is written is what is read, any interleaving of the two listeners,
  the clients and the health reports keeps the registry bounded and justified, and a wake request
  works end to end.
\<close>

section \<open>Text round trips\<close>

lemma of_char_digit: "of_char (char_of (48 + n mod 10) :: char) = 48 + n mod (10 :: nat)"
proof -
  have "48 + n mod 10 < (256 :: nat)" by (simp add: less_trans [of "n mod 10" 10])
  then show ?thesis by (simp del: char_of_eq_iff)
qed

lemma is_digit_char: "is_digit (char_of (48 + n mod 10 :: nat))"
proof -
  have "n mod 10 \<le> 9" using mod_less_divisor [of 10 n] by linarith
  then show ?thesis by (simp only: is_digit_def of_char_digit) simp
qed

lemma digits_ok: "digits n \<noteq> [] \<and> list_all is_digit (digits n)"
  by (induction n rule: digits.induct) (subst (1 2) digits.simps, simp add: is_digit_char)

lemma digits_value_digits: "digits_value (digits n) = n"
proof (induction n rule: digits.induct)
  case (1 n)
  show ?case
  proof (cases "n < 10")
    case True
    then show ?thesis by (subst digits.simps) (simp add: digits_value_def of_char_digit)
  next
    case False
    have "digits_value (digits n) = digits_value (digits (n div 10)) * 10 + n mod 10"
      using False by (subst digits.simps) (simp add: digits_value_def of_char_digit)
    with 1 False show ?thesis by simp
  qed
qed

lemma parse_digits_digits [simp]: "parse_digits (digits n) = Some n"
  using digits_ok [of n] by (simp add: parse_digits_def digits_value_digits)

lemma digits_no_sign: "hd (digits n) \<noteq> CHR ''+'' \<and> hd (digits n) \<noteq> CHR ''-''"
proof -
  have "is_digit (hd (digits n))" using digits_ok [of n] by (cases "digits n") auto
  then show ?thesis by (auto simp: is_digit_def)
qed

lemma parse_unsigned_digits [simp]: "n \<le> limit \<Longrightarrow> parse_unsigned limit (digits n) = Some n"
  by (simp add: parse_unsigned_def digits_no_sign)

lemma parse_i32_show [simp]: "- (2 ^ 31) \<le> i \<Longrightarrow> i < 2 ^ 31 \<Longrightarrow> parse_i32 (show_int i) = Some i"
  by (cases "i < 0") (simp_all add: parse_i32_def show_int_def digits_no_sign Let_def)

section \<open>Message round trips\<close>

lemma parse_write_text [simp]:
  "foldl parse_event (Some operation, field, f) (write_text name v) = (Some operation, None, parse_field (Some name) v f)"
  by (simp add: write_text_def)

lemma parse_write_endpoint [simp]:
  "foldl parse_event (Some operation, field, f) (write_endpoint name a)
     = (Some operation, None, parse_field (Some ''port'') (digits (snd a)) f)"
  by (simp add: write_endpoint_def, simp add: parse_field_def)

lemma well_formed_text [simp]: "XMalformed \<notin> set (write_text name v)" "XMalformed \<notin> set (write_endpoint name a)"
  by (simp_all add: write_text_def write_endpoint_def)

lemma parse_keeps_operation: "fst (foldl parse_event (Some operation, field, f) body) = Some operation"
proof (induction body arbitrary: field f)
  case (Cons e body)
  then show ?case by (cases e) simp_all
qed simp

lemma parse_discovery_packet:
  assumes "operation \<noteq> ''P2P''" "XMalformed \<notin> set body"
  shows "decode_message (Some (discovery_packet tid operation body))
    = and_then (wake_message (Some operation) (snd (snd (foldl parse_event (Some operation, Some ''P2P'', no_fields) body))))
        (\<lambda>message. Inr (tid, message))"
proof -
  let ?xml = "snd (discovery_packet tid operation body)"
  obtain field f where body: "foldl parse_event (Some operation, Some ''P2P'', no_fields) body = (Some operation, field, f)"
    using parse_keeps_operation by (metis prod.exhaust_sel)
  have "foldl parse_event (None, None, no_fields) ?xml = (Some operation, None, f)"
    using assms(1) by (simp add: discovery_packet_def body)
  moreover have "XMalformed \<notin> set ?xml" using assms(2) by (simp add: discovery_packet_def)
  ultimately have "parse_message ?xml = wake_message (Some operation) f" by (simp only: parse_message_def) simp
  then show ?thesis by (simp add: decode_message_def discovery_packet_def body)
qed

lemma decode_client_connect:
  assumes "valid_uid uid" "- (2 ^ 31) \<le> client_id" "client_id < 2 ^ 31" "snd client \<le> 65535"
  shows "decode_message (Some (client_connect_packet tid uid client client_id)) = Inr (tid, ClientConnect uid client_id (snd client))"
  unfolding client_connect_packet_def using assms
  by (simp add: parse_discovery_packet)
    (simp add: parse_field_def wake_message_def and_then_def need_def)

lemma decode_client_connect_reply:
  assumes "- (2 ^ 31) \<le> response" "response < 2 ^ 31"
  shows "decode_message (Some (client_connect_reply_packet tid camera relay session_id response)) = Inr (tid, ClientConnectReply response)"
  unfolding client_connect_reply_packet_def using assms
  by (cases camera; cases relay; simp add: parse_discovery_packet)
    (simp_all add: parse_field_def wake_message_def and_then_def need_def)

lemma decode_wake_packet: "decode_message (Some (wake_packet tid client relay session_id client_id)) = Inr (tid, OtherMessage)"
  unfolding wake_packet_def by (simp add: parse_discovery_packet) (simp add: wake_message_def and_then_def)


section \<open>Laws of the registry\<close>

lemma longest_None: "longest xs = None \<longleftrightarrow> xs = []"
  by (cases xs) (auto split: option.splits)

lemma longest_Some: "longest xs = Some x \<Longrightarrow> x \<in> set xs \<and> list_all (\<lambda>y. length y \<le> length x) xs"
proof (induction xs arbitrary: x)
  case (Cons y ys)
  show ?case
  proof (cases "longest ys")
    case None
    with Cons.prems show ?thesis by (simp add: longest_None)
  next
    case (Some z)
    with Cons.IH [of z] Cons.prems show ?thesis by (auto simp: list_all_iff split: if_splits)
  qed
qed simp

lemma configured_uid_allowed: "configured_uid core uid = Some c \<Longrightarrow> c \<in> set (allowed_uids core)"
  unfolding configured_uid_def using longest_Some by fastforce

definition map_ok :: "WakeCore \<Rightarrow> (string, 'v) btree \<Rightarrow> bool" where
  "map_ok core m \<longleftrightarrow> bt_ok m \<and> fst ` set m \<subseteq> set (allowed_uids core)"

definition wake_ok :: "WakeCore \<Rightarrow> WakeState \<Rightarrow> bool" where
  "wake_ok core s \<longleftrightarrow> map_ok core (anchors s) \<and> map_ok core (registrations s) \<and> map_ok core (pending_wakes s)
     \<and> length (registrations s) \<le> MAX_REGISTRATIONS"

lemma length_bt_remove: "length m \<le> n \<Longrightarrow> length (bt_remove k m) \<le> n"
  unfolding bt_remove_def by (rule le_trans [OF length_filter_le])

lemma map_ok_remove: "map_ok core m \<Longrightarrow> map_ok core (bt_remove k m)"
  by (auto simp: map_ok_def bt_ok_remove) (auto simp: bt_remove_def)

lemma map_ok_insert: "map_ok core m \<Longrightarrow> configured_uid core uid = Some k \<Longrightarrow> map_ok core (bt_insert k v m)"
  by (simp add: map_ok_def bt_ok_insert set_bt_insert_keys configured_uid_allowed)

lemmas wake_maps = map_ok_insert map_ok_remove length_bt_remove

lemma issue_anchor_ok: "wake_ok core s \<Longrightarrow> wake_ok core (fst (issue_anchor core uid token code now s))"
  by (cases "configured_uid core uid") (simp_all add: issue_anchor_def wake_ok_def Let_def wake_maps)

lemma register_at_ok:
  assumes "wake_ok core s"
  shows "wake_ok core (fst (register_at core uid address now s))"
proof (cases "configured_uid core uid")
  case None
  with assms show ?thesis by (simp add: register_at_def)
next
  case (Some k)
  have "bt_ok (registrations s)" using assms by (simp add: wake_ok_def map_ok_def)
  with Some assms show ?thesis by (simp add: register_at_def Let_def wake_ok_def wake_maps length_bt_insert)
qed

lemma registration_at_ok: "wake_ok core s \<Longrightarrow> wake_ok core (fst (registration_at core uid now s))"
  by (simp add: registration_at_def wake_ok_def wake_maps split: option.split)

lemma note_wake_requested_ok: "wake_ok core s \<Longrightarrow> wake_ok core (note_wake_requested core uid now s)"
  by (cases "configured_uid core uid") (simp_all add: note_wake_requested_def wake_ok_def wake_maps)

lemma note_media_connected_ok: "wake_ok core s \<Longrightarrow> wake_ok core (note_media_connected core uid s)"
  by (simp add: note_media_connected_def wake_ok_def wake_maps split: option.split)

section \<open>Runs\<close>

datatype WakeOp =
  OnMiddleman WakeEnv SocketAddr "packet option"
| OnRegister WakeEnv SocketAddr "packet option"
| OnRequest "IpAddr \<Rightarrow> IpAddr option" nat IpAddr string int nat instant "(instant \<times> Received) list"
| OnMediaConnected string
| OnMediaDisconnected string instant
| OnHealth string instant

fun wake_step :: "WakeCore \<Rightarrow> WakeState \<Rightarrow> WakeOp \<Rightarrow> WakeState" where
  "wake_step core s (OnMiddleman env source datagram) = fst (handle_middleman env core source datagram s)"
| "wake_step core s (OnRegister env source datagram) = fst (handle_register env core source datagram s)"
| "wake_step core s (OnRequest route local_port ip uid client_id tid now passes)
     = fst (request_wake route core local_port ip uid client_id tid now passes s)"
| "wake_step core s (OnMediaConnected uid) = note_media_connected core uid s"
| "wake_step core s (OnMediaDisconnected uid now) = note_wake_requested core uid now s"
| "wake_step core s (OnHealth uid now) = fst (health_at core uid now s)"

text \<open>The registration that an operation asks for: a heartbeat of a configured camera.\<close>

definition heartbeat_of :: "WakeCore \<Rightarrow> WakeOp \<Rightarrow> (string \<times> Registration) option" where
  "heartbeat_of core x =
     (case x of
        OnRegister env source datagram \<Rightarrow>
          (case decode_message datagram of
             Inr (_, DeviceHeartbeat uid _) \<Rightarrow>
               map_option (\<lambda>k. (k, \<lparr>rg_address = source, rg_last_seen = env_now env\<rparr>)) (configured_uid core uid)
           | _ \<Rightarrow> None)
      | _ \<Rightarrow> None)"

definition wake_logged_step :: "WakeCore \<Rightarrow> WakeOp list \<times> WakeState \<Rightarrow> WakeOp \<Rightarrow> WakeOp list \<times> WakeState" where
  "wake_logged_step core = (\<lambda>(past, s) x. (past @ [x], wake_step core s x))"

definition wake_logged_ok :: "WakeCore \<Rightarrow> WakeOp list \<times> WakeState \<Rightarrow> bool" where
  "wake_logged_ok core = (\<lambda>(past, s). wake_ok core s
     \<and> (\<forall>k r. bt_get (registrations s) k = Some r \<longrightarrow> Some (k, r) \<in> set (map (heartbeat_of core) past)))"

lemma await_reply_cases: "fst (await_reply core uid deadline passes s) = s \<or> (\<exists>t. fst (await_reply core uid deadline passes s) = note_wake_requested core uid t s)"
  by (induction core uid deadline passes s rule: await_reply.induct)
    (auto split: Received.split sum.split WakeMessage.split)

lemma request_wake_cases:
  "fst (request_wake route core port ip uid client_id tid now passes s) = s
   \<or> (\<exists>t. fst (request_wake route core port ip uid client_id tid now passes s) = note_wake_requested core uid t s)"
  using await_reply_cases [of core uid "now + WAKE_REPLY_TIMEOUT" passes s]
  by (auto simp: request_wake_def split: sum.split prod.split)

lemma handle_middleman_state:
  "fst (handle_middleman env core source datagram s) =
     (case decode_message datagram of
        Inr (_, DeviceMiddlemanQuery uid) \<Rightarrow> fst (issue_anchor core uid (env_token env) (env_access_code env) (env_now env) s)
      | _ \<Rightarrow> s)"
proof (cases "decode_message datagram")
  case (Inr m)
  then show ?thesis
    by (cases m; cases "snd m") (auto simp: handle_middleman_def split: option.split prod.split)
qed (simp add: handle_middleman_def)

lemma client_connect_state: "fst (client_connect env core source tid uid client_id port s) = fst (registration_at core uid (env_now env) s)"
  by (auto simp: client_connect_def split: option.split prod.split sum.split)

lemma handle_register_state:
  "fst (handle_register env core source datagram s) =
     (case decode_message datagram of
        Inr (_, DeviceHeartbeat uid _) \<Rightarrow> fst (register_at core uid source (env_now env) s)
      | Inr (_, ClientConnect uid _ _) \<Rightarrow> fst (registration_at core uid (env_now env) s)
      | _ \<Rightarrow> s)"
proof (cases "decode_message datagram")
  case (Inr m)
  then show ?thesis
    by (cases m; cases "snd m") (auto simp: handle_register_def client_connect_state split: prod.split)
qed (simp add: handle_register_def)

lemma health_at_state: "fst (health_at core uid now s) = fst (registration_at core uid now s)"
  by (simp add: health_at_def Let_def split: prod.split)

lemma wake_step_ok: "wake_ok core s \<Longrightarrow> wake_ok core (wake_step core s x)"
proof (cases x)
  case (OnMiddleman env source datagram)
  then show "wake_ok core s \<Longrightarrow> ?thesis"
    by (auto simp: handle_middleman_state issue_anchor_ok split: sum.split WakeMessage.split)
next
  case (OnRegister env source datagram)
  then show "wake_ok core s \<Longrightarrow> ?thesis"
    by (auto simp: handle_register_state register_at_ok registration_at_ok split: sum.split WakeMessage.split)
next
  case (OnRequest route port ip uid client_id tid now passes)
  then show "wake_ok core s \<Longrightarrow> ?thesis"
    using request_wake_cases [of route core port ip uid client_id tid now passes s] note_wake_requested_ok by auto
qed (simp_all add: note_media_connected_ok note_wake_requested_ok health_at_state registration_at_ok)

lemma registration_at_get:
  "bt_get (registrations (fst (registration_at core uid now s))) k = Some r \<Longrightarrow> bt_get (registrations s) k = Some r"
  by (auto simp: registration_at_def bt_get_remove split: option.splits if_splits)

lemma register_at_get:
  assumes "bt_get (registrations (fst (register_at core uid address now s))) k = Some r"
  shows "bt_get (registrations s) k = Some r \<or> configured_uid core uid = Some k \<and> r = \<lparr>rg_address = address, rg_last_seen = now\<rparr>"
  using assms by (cases "configured_uid core uid") (auto simp: register_at_def Let_def bt_get_insert split: if_splits)

lemma note_registrations [simp]:
  "registrations (note_wake_requested core uid t s) = registrations s"
  "registrations (note_media_connected core uid s) = registrations s"
  "registrations (fst (issue_anchor core uid token code t s)) = registrations s"
  by (auto simp: note_wake_requested_def note_media_connected_def issue_anchor_def Let_def split: option.split)

lemma wake_step_registrations:
  assumes "bt_get (registrations (wake_step core s x)) k = Some r"
  shows "bt_get (registrations s) k = Some r \<or> heartbeat_of core x = Some (k, r)"
proof (cases x)
  case (OnMiddleman env source datagram)
  then show ?thesis using assms by (auto simp: handle_middleman_state split: sum.splits WakeMessage.splits)
next
  case (OnRegister env source datagram)
  then show ?thesis using assms
    by (auto simp: handle_register_state heartbeat_of_def dest!: register_at_get registration_at_get split: sum.splits WakeMessage.splits)
next
  case (OnRequest route port ip uid client_id tid now passes)
  then show ?thesis using assms request_wake_cases [of route core port ip uid client_id tid now passes s] by auto
qed (use assms in \<open>auto simp: health_at_state dest: registration_at_get\<close>)

interpretation wake: machine "wake_logged_step core" "wake_logged_ok core" for core
proof
  fix s x
  assume ok: "wake_logged_ok core s"
  obtain past w where s: "s = (past, w)" by fastforce
  show "wake_logged_ok core (wake_logged_step core s x)"
    using ok by (auto simp: s wake_logged_ok_def wake_logged_step_def wake_step_ok dest!: wake_step_registrations)
qed

lemma wake_logged_run: "foldl (wake_logged_step core) (past, s) ops = (past @ ops, foldl (wake_step core) s ops)"
  by (induction ops arbitrary: past s) (simp_all add: wake_logged_step_def)

lemma wake_run_ok: "wake_logged_ok core (ops, foldl (wake_step core) WakeState_default ops)"
  using wake.run_inv [of core "([], WakeState_default)" ops]
  by (simp add: wake_logged_run wake_logged_ok_def wake_ok_def map_ok_def WakeState_default_def)


lemma await_skips_wake:
  "now < deadline \<Longrightarrow>
   await_reply core uid deadline (replicate n (now, Datagram (Some (wake_packet tid c relay session_id client_id)) later) @ rest) s
     = await_reply core uid deadline rest s"
  by (induction n) (simp_all add: decode_wake_packet)

lemma registration_at_Some:
  assumes "registration_at core uid now s = (s', Some r)"
  shows "\<exists>k. configured_uid core uid = Some k \<and> bt_get (registrations s) k = Some r
    \<and> now - rg_last_seen r \<le> from_secs (bw_stale_after_secs (wc_config core))"
  using assms by (auto simp: registration_at_def saturating_duration_since_def not_less split: option.splits if_splits)

lemma registration_at_None:
  assumes "registration_at core uid now s = (s', None)" "configured_uid core uid = Some k" "bt_get (registrations s) k = Some r"
  shows "rg_last_seen r + from_secs (bw_stale_after_secs (wc_config core)) < now"
  using assms by (auto simp: registration_at_def saturating_duration_since_def split: if_splits)

lemma map_ok_length: "map_ok core m \<Longrightarrow> length m \<le> card (set (allowed_uids core))"
proof -
  assume ok: "map_ok core m"
  then have "length m = card (fst ` set m)"
    using bt_ok_distinct by (metis distinct_card length_map list.set_map map_ok_def)
  also have "\<dots> \<le> card (set (allowed_uids core))" using ok by (simp add: card_mono map_ok_def)
  finally show ?thesis .
qed

section \<open>Properties\<close>

text \<open>
  C29: a wake request works end to end. The register listener understands the packet that the client
  writes, and the client understands its answers. The request succeeds exactly if the registry holds a
  registration of the camera that is not stale and the system knows a route to its address. Then the
  listener first sent the whole burst of wake packets to that address, and the wake is noted as pending.
\<close>

theorem wake_request_end_to_end:
  assumes packet: "valid_uid uid" "- (2 ^ 31) \<le> client_id" "client_id < 2 ^ 31" "snd client \<le> 65535"
    and server: "handle_register env core source (Some (client_connect_packet tid uid client client_id)) s = (s', sent, ended)"
    and replies: "passes = map (\<lambda>(p, _). (now, Datagram (Some p) later)) (filter (\<lambda>(_, a). a = source) sent)" "now < deadline"
    and client: "await_reply core uid deadline passes s' = (s'', result)"
  shows "result = Inr (\<exists>k r ip. configured_uid core uid = Some k \<and> bt_get (registrations s) k = Some r
              \<and> env_now env \<le> rg_last_seen r + from_secs (bw_stale_after_secs (wc_config core))
              \<and> local_route_ip (env_route env) (fst (rg_address r)) = Inr ip)
    \<and> (result = Inr True \<longrightarrow> (\<exists>k r relay. configured_uid core uid = Some k \<and> bt_get (registrations s) k = Some r
          \<and> take WAKE_BURST_COUNT sent
             = replicate WAKE_BURST_COUNT (wake_packet tid (fst source, snd client) relay (env_session env) client_id, rg_address r)
          \<and> wake_pending core uid s'' = Some later))"
proof -
  obtain s1 found where reg: "registration_at core uid (env_now env) s = (s1, found)" by fastforce
  have run: "(s', sent, ended) = client_connect env core source tid uid client_id (snd client) s"
    using server by (simp add: handle_register_def decode_client_connect [OF packet])
  show ?thesis
  proof (cases found)
    case None
    then have "s' = s1" "sent = [(client_connect_reply_packet tid None None 0 (-1), source)]"
      using run by (simp_all add: client_connect_def reg)
    then have "result = Inr False" using client replies by (simp add: decode_client_connect_reply)
    moreover have "\<not> (configured_uid core uid = Some k \<and> bt_get (registrations s) k = Some r
        \<and> env_now env \<le> rg_last_seen r + from_secs (bw_stale_after_secs (wc_config core)))" for k r
      using registration_at_None [OF reg [unfolded None], of k r] by linarith
    ultimately show ?thesis by blast
  next
    case (Some r)
    from registration_at_Some [OF reg [unfolded Some]] obtain k where k: "configured_uid core uid = Some k"
      "bt_get (registrations s) k = Some r" "env_now env \<le> rg_last_seen r + from_secs (bw_stale_after_secs (wc_config core))"
      by auto
    show ?thesis
    proof (cases "local_route_ip (env_route env) (fst (rg_address r))")
      case (Inl e)
      then have "sent = []" using run Some by (simp add: client_connect_def reg advertise_address_def)
      then have "result = Inr False" using client replies by simp
      with k Inl show ?thesis by auto
    next
      case (Inr ip)
      obtain relay where relay: "advertise_address (env_route env) core (rg_address r) = Inr relay"
        using Inr by (simp add: advertise_address_def)
      have sent: "sent = wake_burst env tid (rg_address r) (fst source, snd client) relay client_id
          @ [(client_connect_reply_packet tid (Some (rg_address r)) (Some relay) (env_session env) 0, source),
             (client_ticket_packet tid (rg_address r) (env_session env) client_id, source)]"
        using run Some relay by (simp_all add: client_connect_def reg)
      have "await_reply core uid deadline passes s' = (note_wake_requested core uid later s', Inr True)"
        using replies sent
        by (cases "rg_address r = source") (simp_all add: wake_burst_def filter_replicate await_skips_wake decode_client_connect_reply)
      then have "result = Inr True" "wake_pending core uid s'' = Some later"
        using client k(1) by (auto simp: note_wake_requested_def wake_pending_def bt_get_insert)
      moreover have "take WAKE_BURST_COUNT sent
          = replicate WAKE_BURST_COUNT (wake_packet tid (fst source, snd client) relay (env_session env) client_id, rg_address r)"
        using sent by (simp add: wake_burst_def)
      ultimately show ?thesis using k Inr by blast
    qed
  qed
qed

definition demo_core :: WakeCore where
  "demo_core = \<lparr>wc_config = \<lparr>bw_enabled = True, bw_bind = Some (V4 10 0 0 1), bw_middleman_port = 9999, bw_register_port = 58200,
     bw_heartbeat_secs = 20, bw_stale_after_secs = 90\<rparr>, allowed_uids = [''CAM'', ''CAM1'']\<rparr>"

definition demo_env :: "instant \<Rightarrow> WakeEnv" where
  "demo_env now = \<lparr>env_route = (\<lambda>_. Some (V4 10 0 0 9)), env_token = 7, env_access_code = 8, env_session = 3, env_now = now, env_unix_seconds = 100\<rparr>"

definition demo_heartbeat :: "string \<Rightarrow> packet option" where
  "demo_heartbeat uid = Some (1, [XStart ''P2P'', XStart ''D2R_HB''] @ write_text ''uid'' uid @ [XEnd ''D2R_HB'', XEnd ''P2P''])"

definition demo_wake_ops :: "WakeOp list" where
  "demo_wake_ops = [OnRegister (demo_env 5) (V4 10 0 0 20, 4000) (demo_heartbeat ''CAM1-X'')]"

definition demo_wake_state :: WakeState where
  "demo_wake_state = foldl (wake_step demo_core) WakeState_default demo_wake_ops"

theorem wake_request_end_to_end_witness:
  "let (s', sent, _) = handle_register (demo_env 9) demo_core (V4 10 0 0 2, 77)
         (Some (client_connect_packet 5 ''CAM1'' (V4 10 0 0 2, 77) (-12))) demo_wake_state;
       (s'', result) = await_reply demo_core ''CAM1'' 20
         (map (\<lambda>(p, _). (10, Datagram (Some p) 11)) (filter (\<lambda>(_, a). a = (V4 10 0 0 2, 77)) sent)) s'
   in result = Inr True \<and> wake_pending demo_core ''CAM1'' s'' = Some 11"
proof -
  let ?p = "client_connect_packet 5 ''CAM1'' (V4 10 0 0 2, 77) (-12)"
  obtain s' sent ended where run: "handle_register (demo_env 9) demo_core (V4 10 0 0 2, 77) (Some ?p) demo_wake_state = (s', sent, ended)"
    by (metis prod_cases3)
  let ?passes = "map (\<lambda>(p, _). (10, Datagram (Some p) 11)) (filter (\<lambda>(_, a). a = (V4 10 0 0 2, 77)) sent)"
  obtain s'' result where reply: "await_reply demo_core ''CAM1'' 20 ?passes s' = (s'', result)" by fastforce
  have k: "configured_uid demo_core ''CAM1'' = Some ''CAM1''" by code_simp
  have r: "bt_get (registrations demo_wake_state) ''CAM1'' = Some \<lparr>rg_address = (V4 10 0 0 20, 4000), rg_last_seen = 5\<rparr>" by code_simp
  have "valid_uid ''CAM1''" "4 \<le> from_secs (bw_stale_after_secs (wc_config demo_core))" by code_simp+
  with wake_request_end_to_end [OF _ _ _ _ run refl _ reply]
  have "result = Inr True" "result = Inr True \<longrightarrow> wake_pending demo_core ''CAM1'' s'' = Some 11"
    using k r by (auto simp: demo_env_def)
  then show ?thesis by (simp add: run reply)
qed

text \<open>
  C30: the listener wakes only cameras that asked for it: after any run, every packet that it sends for a
  client's request goes back to the client, or to an address from which a heartbeat of that configured
  camera arrived at most the stale time ago.
\<close>

theorem wake_target_justified:
  assumes "s = foldl (wake_step core) WakeState_default ops"
    and "decode_message datagram = Inr (tid, ClientConnect uid client_id port)"
    and "handle_register env core source datagram s = (s', sent, ended)" "(p, target) \<in> set sent"
  shows "target = source \<or> (\<exists>x k r. x \<in> set ops \<and> heartbeat_of core x = Some (k, r) \<and> configured_uid core uid = Some k
    \<and> rg_address r = target \<and> env_now env - rg_last_seen r \<le> from_secs (bw_stale_after_secs (wc_config core)))"
proof (rule disjCI)
  assume other: "\<not> (\<exists>x k r. x \<in> set ops \<and> heartbeat_of core x = Some (k, r) \<and> configured_uid core uid = Some k
    \<and> rg_address r = target \<and> env_now env - rg_last_seen r \<le> from_secs (bw_stale_after_secs (wc_config core)))"
  have run: "client_connect env core source tid uid client_id port s = (s', sent, ended)"
    using assms(2,3) by (simp add: handle_register_def)
  obtain s1 found where reg: "registration_at core uid (env_now env) s = (s1, found)" by fastforce
  have "rg_address r \<noteq> target" if found: "found = Some r" for r
  proof -
    obtain k where k: "configured_uid core uid = Some k" "bt_get (registrations s) k = Some r"
      "env_now env - rg_last_seen r \<le> from_secs (bw_stale_after_secs (wc_config core))"
      using registration_at_Some reg found by blast
    then have "Some (k, r) \<in> heartbeat_of core ` set ops"
      using wake_run_ok [of core ops] assms(1) by (simp add: wake_logged_ok_def)
    then obtain x where "x \<in> set ops" "heartbeat_of core x = Some (k, r)" by fastforce
    with other k show ?thesis by blast
  qed
  with run assms(4) show "target = source"
    by (cases found) (auto simp: client_connect_def reg wake_burst_def split: sum.splits)
qed

theorem wake_target_justified_witness:
  "\<exists>x k r. x \<in> set demo_wake_ops \<and> heartbeat_of demo_core x = Some (k, r) \<and> configured_uid demo_core ''CAM1'' = Some k
    \<and> rg_address r = (V4 10 0 0 20, 4000)"
proof -
  let ?d = "Some (client_connect_packet 5 ''CAM1'' (V4 10 0 0 2, 77) (-12))"
  have valid: "valid_uid ''CAM1''" by code_simp
  let ?p = "wake_packet 5 (V4 10 0 0 2, 77) (V4 10 0 0 1, 58200) 3 (-12)"
  obtain s' sent ended where run: "handle_register (demo_env 9) demo_core (V4 10 0 0 2, 77) ?d demo_wake_state = (s', sent, ended)"
    by (metis prod_cases3)
  have "(?p, (V4 10 0 0 20, 4000)) \<in> set (fst (snd (handle_register (demo_env 9) demo_core (V4 10 0 0 2, 77) ?d demo_wake_state)))"
    by code_simp
  then have "(?p, (V4 10 0 0 20, 4000)) \<in> set sent" by (simp add: run)
  from wake_target_justified [OF demo_wake_state_def _ run this, of 5 "''CAM1''" "-12" 77]
  have "(V4 10 0 0 20, 4000) = (V4 10 0 0 2, 77 :: nat) \<or> ?thesis"
    using decode_client_connect [of "''CAM1''" "-12" "(V4 10 0 0 2, 77)" 5] by (simp add: valid) blast
  then show ?thesis by simp
qed

text \<open>
  C31: the registry is bounded: after any run of the listeners, the clients and the health reports, every
  key of its maps is the identifier of a configured camera, no key occurs twice, and there are at most
  \<open>MAX_REGISTRATIONS\<close> registrations, whatever the traffic was.
\<close>

theorem wake_registry_bounded:
  assumes "s = foldl (wake_step core) WakeState_default ops"
  shows "length (registrations s) \<le> MAX_REGISTRATIONS \<and> distinct (map fst (registrations s))
    \<and> length (anchors s) \<le> card (set (allowed_uids core)) \<and> length (pending_wakes s) \<le> card (set (allowed_uids core))
    \<and> fst ` set (registrations s) \<union> fst ` set (anchors s) \<union> fst ` set (pending_wakes s) \<subseteq> set (allowed_uids core)"
proof -
  have ok: "wake_ok core s" using wake_run_ok [of core ops] assms by (simp add: wake_logged_ok_def)
  then show ?thesis by (simp add: wake_ok_def map_ok_length) (simp add: map_ok_def bt_ok_distinct)
qed

theorem wake_registry_bounded_witness:
  "length (registrations demo_wake_state) \<le> MAX_REGISTRATIONS
   \<and> fst ` set (registrations demo_wake_state) \<union> fst ` set (anchors demo_wake_state) \<union> fst ` set (pending_wakes demo_wake_state)
     \<subseteq> set (allowed_uids demo_core)"
  using wake_registry_bounded [OF demo_wake_state_def] by simp

text \<open>
  the camera that a reported identifier stands for is the one with the longest configured identifier
  that is a prefix of it. It does not depend on the order in which the set of identifiers is iterated.
\<close>

theorem configured_uid_longest:
  "configured_uid core reported = Some c \<longleftrightarrow>
     c \<in> set (allowed_uids core) \<and> prefix c reported
     \<and> list_all (\<lambda>d. prefix d reported \<longrightarrow> length d \<le> length c) (allowed_uids core)"
proof -
  let ?fits = "filter (\<lambda>d. reported = d \<or> prefix d reported) (allowed_uids core)"
  have unique: "x = y" if "prefix x reported" "prefix y reported" "length x = length y" for x y
    using that by (metis prefix_length_prefix prefix_order.antisym order_refl)
  show ?thesis
  proof
    assume "configured_uid core reported = Some c"
    then have "c \<in> set ?fits \<and> list_all (\<lambda>y. length y \<le> length c) ?fits"
      unfolding configured_uid_def by (rule longest_Some)
    then show "c \<in> set (allowed_uids core) \<and> prefix c reported
        \<and> list_all (\<lambda>d. prefix d reported \<longrightarrow> length d \<le> length c) (allowed_uids core)"
      by (auto simp: list_all_iff)
  next
    assume r: "c \<in> set (allowed_uids core) \<and> prefix c reported
        \<and> list_all (\<lambda>d. prefix d reported \<longrightarrow> length d \<le> length c) (allowed_uids core)"
    then have "?fits \<noteq> []" by (auto simp: filter_empty_conv)
    then obtain d where d: "configured_uid core reported = Some d"
      unfolding configured_uid_def using longest_None by blast
    then have "d \<in> set ?fits \<and> list_all (\<lambda>y. length y \<le> length d) ?fits"
      unfolding configured_uid_def by (rule longest_Some)
    with r have "prefix d reported" "length d = length c" by (auto simp: list_all_iff intro!: le_antisym)
    with unique r d show "configured_uid core reported = Some c" by blast
  qed
qed

theorem configured_uid_longest_witness: "configured_uid demo_core ''CAM1-X'' = Some ''CAM1''"
  unfolding configured_uid_longest by code_simp

definition message_uid :: "WakeMessage \<Rightarrow> string option" where
  "message_uid m = (case m of
      DeviceMiddlemanQuery uid \<Rightarrow> Some uid | DeviceHeartbeat uid _ \<Rightarrow> Some uid | DeviceRegistration uid _ \<Rightarrow> Some uid
    | ClientConnect uid _ _ \<Rightarrow> Some uid | _ \<Rightarrow> None)"

text \<open>
  C32: traffic about cameras that are not configured has no effect: it leaves the registry as it is, and
  the only answer it can get is the refusal of a wake request, which the client reads as such.
\<close>

theorem unknown_camera_ignored:
  assumes "decode_message datagram = Inr (tid, m)" "message_uid m = Some uid" "configured_uid core uid = None"
  shows "handle_middleman env core source datagram s = (s, Inr None)
    \<and> (\<exists>sent. handle_register env core source datagram s = (s, sent, Inr ())
        \<and> map (\<lambda>(p, target). (decode_message (Some p), target)) sent
           = (case m of ClientConnect _ _ _ \<Rightarrow> [(Inr (tid, ClientConnectReply (-1)), source)] | _ \<Rightarrow> []))"
  using assms
  by (cases m)
    (simp_all add: message_uid_def handle_middleman_def handle_register_def client_connect_def registration_at_def
      issue_anchor_def register_at_def anchor_def decode_client_connect_reply)

theorem unknown_camera_ignored_witness:
  "fst (handle_register (demo_env 9) demo_core (V4 10 0 0 2, 77) (demo_heartbeat ''OTHER'') demo_wake_state) = demo_wake_state"
proof -
  have decode: "decode_message (demo_heartbeat ''OTHER'') = Inr (1, DeviceHeartbeat ''OTHER'' False)" by code_simp
  have none: "configured_uid demo_core ''OTHER'' = None" by code_simp
  obtain sent where "handle_register (demo_env 9) demo_core (V4 10 0 0 2, 77) (demo_heartbeat ''OTHER'') demo_wake_state
      = (demo_wake_state, sent, Inr ())"
    using unknown_camera_ignored [OF decode _ none] by (auto simp: message_uid_def)
  then show ?thesis by simp
qed

end
