(* ===== verification/Retention.thy ===== *)
theory Retention
  imports KP_Prelude
begin

text \<open>
  Retention of recordings, \<open>src/src/storage/retention.rs\<close>: which rules apply to a recording and until
  when it must be kept; the operator's settings, \<open>src/src/storage/retention/settings.rs\<close>; and the
  durable commitment of \<open>src/src/storage/catalog/retention.rs\<close>, where the table of decisions is a map.
  What the SQL queries return is an argument, and so are SHA-256 and the conversion of fractional days
  (64-bit floating point) to milliseconds. Of a timeline event only what retention reads is kept.
\<close>

section \<open>Policies\<close>

definition MAX_RULES :: usize where
  "MAX_RULES = 16"

definition MAX_EVENTS :: usize where
  "MAX_EVENTS = 256"

definition MAX_SELECTOR_BYTES :: usize where
  "MAX_SELECTOR_BYTES = 128"

datatype RetentionError =
  EmptyInterval | BadSelector | DurationRange | TooManyRules | DuplicateRule | TooManyEvents | NoIdentity
| NotCanonical | EndBeforeStart | PulseRange | DeadlineRange
| SettingsLimit | NoPolicy | NoRules | CameraKey | Days
| BadIdentity | RevisionZero | RevisionRange | Unavailable | StaleRevision | RevisionReused | NotRecorded | CleanupRefused

record Interval =
  start_ms :: i64
  end_ms :: i64

definition Interval_new :: "i64 \<Rightarrow> i64 \<Rightarrow> RetentionError + Interval" where
  "Interval_new s e = (if s \<ge> e then Inl EmptyInterval else Inr \<lparr>start_ms = s, end_ms = e\<rparr>)"

definition overlaps :: "Interval \<Rightarrow> Interval \<Rightarrow> bool" where
  "overlaps a b \<longleftrightarrow> start_ms a < end_ms b \<and> start_ms b < end_ms a"

datatype Predicate = Continuous | Motion | EventType string

record Rule =
  rule_id :: string
  duration_ms :: i64
  predicate :: Predicate

record TimelineEvent =
  te_id :: string
  te_camera_id :: string
  te_stream :: "string option"
  te_kind :: string
  te_start_time_ms :: i64
  te_end_time_ms :: "i64 option"

definition selector_byte :: "char \<Rightarrow> bool" where
  "selector_byte c \<longleftrightarrow> (let n = (of_char c :: nat) in
     (48 \<le> n \<and> n \<le> 57) \<or> (65 \<le> n \<and> n \<le> 90) \<or> (97 \<le> n \<and> n \<le> 122)) \<or> c = CHR ''_'' \<or> c = CHR ''-'' \<or> c = CHR ''.''"

definition validate_selector :: "string \<Rightarrow> RetentionError + unit" where
  "validate_selector v =
     (if v = [] \<or> length v > MAX_SELECTOR_BYTES \<or> \<not> list_all selector_byte v then Inl BadSelector else Inr ())"

definition Rule_new :: "string \<Rightarrow> u64 \<Rightarrow> Predicate \<Rightarrow> RetentionError + Rule" where
  "Rule_new i d p =
     and_then (validate_selector i) (\<lambda>_.
     and_then (case p of EventType t \<Rightarrow> validate_selector t | _ \<Rightarrow> Inr ()) (\<lambda>_.
       if int d > i64_max then Inl DurationRange else Inr \<lparr>rule_id = i, duration_ms = int d, predicate = p\<rparr>))"

definition rule_matches :: "Rule \<Rightarrow> TimelineEvent \<Rightarrow> bool" where
  "rule_matches r e =
     (case predicate r of Continuous \<Rightarrow> False | Motion \<Rightarrow> te_kind e = ''motion'' | EventType t \<Rightarrow> te_kind e = t)"

record Policy =
  rules :: "Rule list"

definition requires_event_evidence :: "Policy \<Rightarrow> bool" where
  "requires_event_evidence p \<longleftrightarrow> list_ex (\<lambda>r. duration_ms r \<noteq> 0 \<and> predicate r \<noteq> Continuous) (rules p)"

definition Policy_new :: "Rule list \<Rightarrow> RetentionError + Policy" where
  "Policy_new rs =
     (if length rs > MAX_RULES then Inl TooManyRules
      else if list_ex (\<lambda>i. list_ex (\<lambda>previous. rule_id previous = rule_id (rs ! i)) (take i rs)) [0..<length rs] then Inl DuplicateRule
      else Inr \<lparr>rules = rs\<rparr>)"

record Recording =
  rec_camera_id :: string
  rec_stream_id :: string
  rec_interval :: Interval
  rec_protected :: bool
  committed_deadline_ms :: "i64 option"

datatype Reason = MatchingRules | CommittedDeadline | Protected | NoMatchingEvidence

record Decision =
  deadline_ms :: "i64 option"
  matching_rules :: "string list"
  protected :: bool
  reason :: Reason

definition expired :: "i64 \<Rightarrow> Decision \<Rightarrow> bool" where
  "expired now d \<longleftrightarrow> \<not> protected d \<and> is_none_or (deadline_ms d) (\<lambda>deadline. now \<ge> deadline)"

section \<open>Decisions\<close>

definition in_scope :: "Recording \<Rightarrow> TimelineEvent \<Rightarrow> bool" where
  "in_scope r e \<longleftrightarrow> te_camera_id e = rec_camera_id r \<and> \<not> is_some_and (te_stream e) (\<lambda>stream. stream \<noteq> rec_stream_id r)"

text \<open>The end of an event's interval; \<open>None\<close> for an event that is still open and starts behind the recording.\<close>

definition event_end :: "Recording \<Rightarrow> TimelineEvent \<Rightarrow> RetentionError + i64 option" where
  "event_end r e =
     (case te_end_time_ms e of
        Some t \<Rightarrow>
          if t < te_start_time_ms e then Inl EndBeforeStart
          else if t = te_start_time_ms e
          then (case checked_add_i64 t 1 of None \<Rightarrow> Inl PulseRange | Some u \<Rightarrow> Inr (Some u))
          else Inr (Some t)
      | None \<Rightarrow> if te_start_time_ms e \<ge> end_ms (rec_interval r) then Inr None else Inr (Some (end_ms (rec_interval r))))"

fun observe_events :: "Recording \<Rightarrow> TimelineEvent list \<Rightarrow> (Interval \<times> TimelineEvent) list
    \<Rightarrow> RetentionError + (Interval \<times> TimelineEvent) list" where
  "observe_events r [] observations = Inr observations"
| "observe_events r (e # es) observations =
     (if \<not> in_scope r e then observe_events r es observations
      else if te_id e = [] \<or> list_ex (\<lambda>(_, previous). te_id previous = te_id e) observations then Inl NotCanonical
      else and_then (event_end r e) (\<lambda>end_time.
        case end_time of
          None \<Rightarrow> observe_events r es observations
        | Some t \<Rightarrow> and_then (Interval_new (te_start_time_ms e) t) (\<lambda>i. observe_events r es (observations @ [(i, e)]))))"

definition recording_events :: "Recording \<Rightarrow> TimelineEvent list \<Rightarrow> RetentionError + (Interval \<times> TimelineEvent) list" where
  "recording_events r events =
     (if length events > MAX_EVENTS then Inl TooManyEvents
      else if rec_camera_id r = [] \<or> rec_stream_id r = [] then Inl NoIdentity
      else observe_events r events [])"

definition rule_applies :: "Recording \<Rightarrow> (Interval \<times> TimelineEvent) list \<Rightarrow> Rule \<Rightarrow> bool" where
  "rule_applies r observations rule \<longleftrightarrow> predicate rule = Continuous
     \<or> list_ex (\<lambda>(i, e). overlaps (rec_interval r) i \<and> rule_matches rule e) observations"

fun apply_rules :: "Recording \<Rightarrow> (Interval \<times> TimelineEvent) list \<Rightarrow> Rule list \<Rightarrow> i64 option \<Rightarrow> string list
    \<Rightarrow> RetentionError + i64 option \<times> string list" where
  "apply_rules r observations [] deadline matching = Inr (deadline, matching)"
| "apply_rules r observations (rule # rest) deadline matching =
     (if duration_ms rule = 0 then apply_rules r observations rest deadline matching
      else if rule_applies r observations rule then
        (case checked_add_i64 (end_ms (rec_interval r)) (duration_ms rule) of
           None \<Rightarrow> Inl DeadlineRange
         | Some t \<Rightarrow>
             apply_rules r observations rest (Some (case deadline of None \<Rightarrow> t | Some previous \<Rightarrow> max previous t)) (matching @ [rule_id rule]))
      else apply_rules r observations rest deadline matching)"

definition decision_reason :: "Recording \<Rightarrow> i64 option \<Rightarrow> Reason" where
  "decision_reason r deadline =
     (if rec_protected r then Protected
      else if is_some_and (committed_deadline_ms r) (\<lambda>previous. is_none_or deadline (\<lambda>candidate. previous \<ge> candidate))
      then CommittedDeadline
      else if deadline \<noteq> None then MatchingRules
      else NoMatchingEvidence)"

definition latest :: "i64 option \<Rightarrow> i64 option \<Rightarrow> i64 option" where
  "latest a b = (case (a, b) of (None, _) \<Rightarrow> b | (_, None) \<Rightarrow> a | (Some x, Some y) \<Rightarrow> Some (max x y))"

definition resolve :: "Policy \<Rightarrow> Recording \<Rightarrow> TimelineEvent list \<Rightarrow> RetentionError + Decision" where
  "resolve p r events =
     and_then (recording_events r events) (\<lambda>observations.
     and_then (apply_rules r observations (rules p) None []) (\<lambda>(deadline, matching).
       Inr \<lparr>deadline_ms = latest deadline (committed_deadline_ms r), matching_rules = matching, protected = rec_protected r,
            reason = decision_reason r deadline\<rparr>))"

section \<open>Settings\<close>

record 'd Lifetimes =
  continuous_days :: "'d option"
  motion_days :: "'d option"
  event_days :: "(string, 'd) btree"

record 'd Settings =
  settings_default :: "'d Lifetimes option"
  settings_cameras :: "(string, 'd Lifetimes) btree"

definition has_rules :: "'d Lifetimes \<Rightarrow> bool" where
  "has_rules l \<longleftrightarrow> continuous_days l \<noteq> None \<or> motion_days l \<noteq> None \<or> event_days l \<noteq> []"

definition or_else :: "'a option \<Rightarrow> 'a option \<Rightarrow> 'a option" where
  "or_else a b = (case a of None \<Rightarrow> b | Some v \<Rightarrow> Some v)"

definition bt_extend :: "('k::linorder, 'v) btree \<Rightarrow> ('k, 'v) btree \<Rightarrow> ('k, 'v) btree" where
  "bt_extend m n = fold (\<lambda>(k, v). bt_insert k v) n m"

fun collect_rules :: "(RetentionError + Rule) list \<Rightarrow> RetentionError + Rule list" where
  "collect_rules [] = Inr []"
| "collect_rules (x # xs) = and_then x (\<lambda>r. and_then (collect_rules xs) (\<lambda>rs. Inr (r # rs)))"

definition class_rules :: "('d \<Rightarrow> RetentionError + u64) \<Rightarrow> 'd Lifetimes \<Rightarrow> (RetentionError + Rule) list" where
  "class_rules milliseconds l =
     concat (map (\<lambda>(i, days, p). case days of None \<Rightarrow> [] | Some d \<Rightarrow> [and_then (milliseconds d) (\<lambda>ms. Rule_new i ms p)])
       [(''continuous'', continuous_days l, Continuous), (''motion'', motion_days l, Motion)])"

definition event_rule :: "('d \<Rightarrow> RetentionError + u64) \<Rightarrow> (string \<Rightarrow> string) \<Rightarrow> string \<times> 'd \<Rightarrow> RetentionError + Rule" where
  "event_rule milliseconds digest x =
     and_then (validate_selector (fst x)) (\<lambda>_.
     and_then (milliseconds (snd x)) (\<lambda>ms. Rule_new (''event_'' @ digest (fst x)) ms (EventType (fst x))))"

definition lifetimes_policy :: "('d \<Rightarrow> RetentionError + u64) \<Rightarrow> (string \<Rightarrow> string) \<Rightarrow> 'd Lifetimes \<Rightarrow> RetentionError + Policy" where
  "lifetimes_policy milliseconds digest l =
     (if (if continuous_days l = None then 0 else 1) + (if motion_days l = None then 0 else 1) + length (event_days l) > MAX_RULES
      then Inl TooManyRules
      else and_then (collect_rules (class_rules milliseconds l @ map (event_rule milliseconds digest) (event_days l))) Policy_new)"

definition effective :: "'d Lifetimes option \<Rightarrow> 'd Lifetimes option \<Rightarrow> 'd Lifetimes" where
  "effective defaults camera =
     (let base = (case defaults of None \<Rightarrow> \<lparr>continuous_days = None, motion_days = None, event_days = []\<rparr> | Some l \<Rightarrow> l)
      in case camera of
           None \<Rightarrow> base
         | Some c \<Rightarrow> base\<lparr>continuous_days := or_else (continuous_days c) (continuous_days base),
                          motion_days := or_else (motion_days c) (motion_days base),
                          event_days := bt_extend (event_days base) (event_days c)\<rparr>)"

definition policy_for :: "('d \<Rightarrow> RetentionError + u64) \<Rightarrow> (string \<Rightarrow> string) \<Rightarrow> 'd Settings \<Rightarrow> string \<Rightarrow> RetentionError + Policy option" where
  "policy_for milliseconds digest s camera =
     (if settings_default s = None \<and> bt_get (settings_cameras s) camera = None then Inr None
      else let l = effective (settings_default s) (bt_get (settings_cameras s) camera)
           in if \<not> has_rules l then Inl NoRules
              else and_then (lifetimes_policy milliseconds digest l) (\<lambda>p. Inr (Some p)))"

fun first_error :: "('e + 'a) list \<Rightarrow> 'e + unit" where
  "first_error [] = Inr ()"
| "first_error (x # xs) = and_then x (\<lambda>_. first_error xs)"

text \<open>\<open>blank\<close> is whether \<open>trim\<close> leaves nothing of a text.\<close>

definition settings_validate :: "(string \<Rightarrow> bool) \<Rightarrow> ('d \<Rightarrow> RetentionError + u64) \<Rightarrow> (string \<Rightarrow> string) \<Rightarrow> 'd Settings \<Rightarrow> RetentionError + unit" where
  "settings_validate blank milliseconds digest s =
     (if length (settings_cameras s) > 127 then Inl SettingsLimit
      else if settings_default s = None \<and> settings_cameras s = [] then Inl NoPolicy
      else and_then
        (case settings_default s of
           None \<Rightarrow> Inr ()
         | Some l \<Rightarrow> if \<not> has_rules l then Inl NoRules else and_then (lifetimes_policy milliseconds digest l) (\<lambda>_. Inr ()))
        (\<lambda>_. first_error (map (\<lambda>(camera, _).
           if blank camera \<or> length camera > 256 \<or> CHR 0x00 \<in> set camera then Inl CameraKey
           else policy_for milliseconds digest s camera) (settings_cameras s))))"

section \<open>Commitments\<close>

record StoredDecision =
  sd_recording_id :: string
  sd_policy_revision :: u64
  sd_event_revision :: u64
  sd_deadline_ms :: "i64 option"
  sd_matching_rules :: "string list"
  sd_reason :: Reason

record Previous =
  pv_decision :: StoredDecision
  pv_fingerprint :: "byte list"

record Snapshot =
  sn_camera_id :: string
  sn_stream_id :: string
  sn_interval :: Interval
  sn_protected :: bool

text \<open>What the catalog answers during one transaction, and whether it is available before and after.\<close>

record CatalogView =
  cv_available :: bool
  cv_available_after :: bool
  cv_snapshot :: "RetentionError + Snapshot"
  cv_events :: "RetentionError + TimelineEvent list"
  cv_event_revision :: "RetentionError + u64"

type_synonym decisions = "(string, Previous) btree"

definition validate_identity :: "string \<Rightarrow> RetentionError + unit" where
  "validate_identity v = (if v = [] \<or> length v > 256 \<or> CHR 0x00 \<in> set v then Inl BadIdentity else Inr ())"

definition to_i64 :: "u64 \<Rightarrow> RetentionError + i64" where
  "to_i64 n = (if int n > i64_max then Inl RevisionRange else Inr (int n))"

definition revision_allowed :: "u64 \<Rightarrow> byte list \<Rightarrow> Previous option \<Rightarrow> RetentionError + unit" where
  "revision_allowed revision fingerprint previous =
     (case previous of
        None \<Rightarrow> Inr ()
      | Some p \<Rightarrow>
          if revision < sd_policy_revision (pv_decision p) then Inl StaleRevision
          else if revision = sd_policy_revision (pv_decision p) \<and> pv_fingerprint p \<noteq> fingerprint then Inl RevisionReused
          else Inr ())"

definition commit_snapshot :: "(Policy \<Rightarrow> byte list) \<Rightarrow> CatalogView \<Rightarrow> string \<Rightarrow> u64 \<Rightarrow> Policy \<Rightarrow> bool \<Rightarrow> decisions
    \<Rightarrow> RetentionError + decisions \<times> StoredDecision" where
  "commit_snapshot sha view i revision p requires_events table =
     and_then (cv_snapshot view) (\<lambda>snapshot.
       let previous = bt_get table i; fingerprint = sha p in
       and_then (revision_allowed revision fingerprint previous) (\<lambda>_.
       and_then (if requires_events then cv_events view else Inr []) (\<lambda>events.
       and_then (cv_event_revision view) (\<lambda>event_revision.
       and_then (resolve p \<lparr>rec_camera_id = sn_camera_id snapshot, rec_stream_id = sn_stream_id snapshot,
                   rec_interval = sn_interval snapshot, rec_protected = sn_protected snapshot,
                   committed_deadline_ms = Option.bind previous (\<lambda>x. sd_deadline_ms (pv_decision x))\<rparr> events) (\<lambda>resolved.
         let decision = \<lparr>sd_recording_id = i, sd_policy_revision = revision, sd_event_revision = event_revision, sd_deadline_ms = deadline_ms resolved,
                         sd_matching_rules = matching_rules resolved, sd_reason = reason resolved\<rparr> in
         and_then (to_i64 revision) (\<lambda>_. and_then (to_i64 event_revision) (\<lambda>_.
           Inr (bt_insert i \<lparr>pv_decision = decision, pv_fingerprint = fingerprint\<rparr> table, decision))))))))"

text \<open>A failure rolls the transaction back.\<close>

definition commit_retention :: "(Policy \<Rightarrow> byte list) \<Rightarrow> CatalogView \<Rightarrow> string \<Rightarrow> u64 \<Rightarrow> Policy \<Rightarrow> decisions
    \<Rightarrow> decisions \<times> (RetentionError + StoredDecision)" where
  "commit_retention sha view i revision p table =
     (case and_then (validate_identity i) (\<lambda>_.
           and_then (if revision > 0 then Inr () else Inl RevisionZero) (\<lambda>_.
           and_then (to_i64 revision) (\<lambda>_.
           and_then (if cv_available view then Inr () else Inl Unavailable) (\<lambda>_.
           and_then (commit_snapshot sha view i revision p True table) (\<lambda>result.
             if cv_available_after view then Inr result else Inl Unavailable))))) of
        Inl e \<Rightarrow> (table, Inl e)
      | Inr (table', decision) \<Rightarrow> (table', Inr decision))"

definition ensure_cleanup_allowed :: "i64 \<Rightarrow> string \<Rightarrow> decisions \<Rightarrow> RetentionError + unit" where
  "ensure_cleanup_allowed now i table =
     (case bt_get table i of
        None \<Rightarrow> Inr ()
      | Some previous \<Rightarrow>
          if is_none_or (sd_deadline_ms (pv_decision previous)) (\<lambda>deadline. deadline \<le> now) then Inr () else Inl CleanupRefused)"

end
