(* ===== verification/Retention_Run.thy ===== *)
theory Retention_Run
  imports Retention
begin

text \<open>
  What a retention decision means, which lifetimes a camera's policy has, and that commitments are kept
  over any sequence of later commits.
\<close>

section \<open>Which rules apply\<close>

text \<open>
  The evidence for a rule, without intervals: an event in scope of the right kind that starts before the
  recording ends, and that is open, or ends (a pulse one millisecond after its start) behind its start.
\<close>

definition evidence :: "Recording \<Rightarrow> Rule \<Rightarrow> TimelineEvent \<Rightarrow> bool" where
  "evidence r rule e \<longleftrightarrow> in_scope r e \<and> rule_matches rule e \<and> te_start_time_ms e < end_ms (rec_interval r)
     \<and> is_none_or (te_end_time_ms e) (\<lambda>t. start_ms (rec_interval r) < max t (te_start_time_ms e + 1))"

definition required :: "Recording \<Rightarrow> TimelineEvent list \<Rightarrow> Rule \<Rightarrow> bool" where
  "required r events rule \<longleftrightarrow> duration_ms rule \<noteq> 0 \<and> (predicate rule = Continuous \<or> list_ex (evidence r rule) events)"

definition obligations :: "Policy \<Rightarrow> Recording \<Rightarrow> TimelineEvent list \<Rightarrow> i64 list" where
  "obligations p r events = map (\<lambda>rule. end_ms (rec_interval r) + duration_ms rule) (filter (required r events) (rules p))
     @ (case committed_deadline_ms r of None \<Rightarrow> [] | Some t \<Rightarrow> [t])"

definition list_max :: "i64 list \<Rightarrow> i64 option" where
  "list_max ts = (if ts = [] then None else Some (Max (set ts)))"

lemma latest_list_max: "latest (list_max xs) (list_max ys) = list_max (xs @ ys)"
  by (auto simp: latest_def list_max_def Max_Un)

lemma list_max_simps [simp]: "list_max [] = None" "list_max [t] = Some t"
  by (simp_all add: list_max_def)

lemma latest_None [simp]: "latest None b = b" "latest a None = a"
  by (simp_all add: latest_def split: option.split)

lemma latest_Some: "latest a (Some t) = Some (case a of None \<Rightarrow> t | Some u \<Rightarrow> max u t)"
  by (simp add: latest_def split: option.split)

lemma latest_assoc: "latest (latest a b) c = latest a (latest b c)"
  by (cases a; cases b; cases c) (simp_all add: latest_def max.assoc)

definition observed :: "Recording \<Rightarrow> TimelineEvent \<Rightarrow> (Interval \<times> TimelineEvent) set" where
  "observed r e = (case event_end r e of
      Inr (Some t) \<Rightarrow> if in_scope r e then {(\<lparr>start_ms = te_start_time_ms e, end_ms = t\<rparr>, e)} else {} | _ \<Rightarrow> {})"

lemma observe_events_set:
  "observe_events r es obs = Inr obs' \<Longrightarrow> set obs' = set obs \<union> (\<Union>e\<in>set es. observed r e)"
proof (induction r es obs arbitrary: obs' rule: observe_events.induct)
  case (2 r e es obs)
  show ?case
  proof (cases "in_scope r e")
    case False
    with 2 show ?thesis by (auto simp: observed_def split: sum.split option.split)
  next
    case True
    then have canonical: "\<not> (te_id e = [] \<or> list_ex (\<lambda>(_, previous). te_id previous = te_id e) obs)"
      using "2.prems" by (auto split: if_splits)
    obtain x where x: "event_end r e = Inr x" using True canonical "2.prems" by (auto simp: and_then_Inr split: if_splits)
    show ?thesis
    proof (cases x)
      case None
      with 2 True canonical x show ?thesis by (simp add: observed_def)
    next
      case (Some t)
      then obtain i where i: "Interval_new (te_start_time_ms e) t = Inr i" "observe_events r es (obs @ [(i, e)]) = Inr obs'"
        using True canonical x "2.prems" by (auto simp: and_then_Inr split: if_splits)
      have "i = \<lparr>start_ms = te_start_time_ms e, end_ms = t\<rparr>" using i(1) by (simp add: Interval_new_def split: if_splits)
      then have "observed r e = {(i, e)}" using True x Some by (simp add: observed_def)
      with "2.IH"(3) [OF _ canonical i(2)] True show ?thesis by auto
    qed
  qed
qed simp

lemma observe_events_ends:
  "observe_events r es obs = Inr obs' \<Longrightarrow> e \<in> set es \<Longrightarrow> in_scope r e \<Longrightarrow> \<exists>x. event_end r e = Inr x"
proof (induction r es obs arbitrary: obs' rule: observe_events.induct)
  case (2 r e' es obs)
  then show ?case by (auto simp: and_then_Inr split: if_splits option.splits)
qed simp

lemma observed_evidence:
  assumes "start_ms (rec_interval r) < end_ms (rec_interval r)" "in_scope r e \<Longrightarrow> \<exists>x. event_end r e = Inr x"
  shows "(\<exists>i. (i, e) \<in> observed r e \<and> overlaps (rec_interval r) i \<and> rule_matches rule e) \<longleftrightarrow> evidence r rule e"
proof (cases "in_scope r e")
  case True
  then obtain x where x: "event_end r e = Inr x" using assms(2) by blast
  show ?thesis
  proof (cases "te_end_time_ms e")
    case None
    with x True assms(1) show ?thesis by (auto simp: observed_def event_end_def evidence_def overlaps_def split: if_splits)
  next
    case (Some t)
    with x have "te_start_time_ms e \<le> t" "x = Some (max t (te_start_time_ms e + 1))"
      by (auto simp: event_end_def checked_add_i64_def split: if_splits)
    with x True Some show ?thesis by (auto simp: observed_def evidence_def overlaps_def)
  qed
qed (simp add: observed_def evidence_def split: sum.split option.split)

lemma observed_self: "(i, e') \<in> observed r e \<Longrightarrow> e' = e"
  by (auto simp: observed_def split: sum.splits option.splits if_splits)

lemma rule_applies_iff:
  assumes "start_ms (rec_interval r) < end_ms (rec_interval r)" "observe_events r es [] = Inr obs"
  shows "rule_applies r obs rule \<longleftrightarrow> predicate rule = Continuous \<or> list_ex (evidence r rule) es"
proof -
  have "(\<exists>(i, e)\<in>set obs. overlaps (rec_interval r) i \<and> rule_matches rule e)
      \<longleftrightarrow> (\<exists>e\<in>set es. \<exists>i. (i, e) \<in> observed r e \<and> overlaps (rec_interval r) i \<and> rule_matches rule e)"
    using observe_events_set [OF assms(2)] observed_self by fastforce
  also have "\<dots> \<longleftrightarrow> (\<exists>e\<in>set es. evidence r rule e)"
    using observed_evidence [OF assms(1)] observe_events_ends [OF assms(2)] by blast
  finally show ?thesis by (simp add: rule_applies_def list_ex_iff)
qed

lemma apply_rules_exact:
  assumes "apply_rules r obs rs d m = Inr (d', m')" "\<And>rule. rule_applies r obs rule \<longleftrightarrow> A rule"
  shows "d' = latest d (list_max (map (\<lambda>rule. end_ms (rec_interval r) + duration_ms rule) (filter (\<lambda>rule. duration_ms rule \<noteq> 0 \<and> A rule) rs)))
    \<and> m' = m @ map rule_id (filter (\<lambda>rule. duration_ms rule \<noteq> 0 \<and> A rule) rs)"
  using assms(1)
proof (induction rs arbitrary: d m)
  case (Cons rule rs)
  show ?case
  proof (cases "duration_ms rule \<noteq> 0 \<and> A rule")
    case True
    then obtain t where t: "t = end_ms (rec_interval r) + duration_ms rule"
      "apply_rules r obs rs (latest d (Some t)) (m @ [rule_id rule]) = Inr (d', m')"
      using Cons.prems assms(2) by (auto simp: checked_add_i64_def latest_Some split: if_splits)
    show ?thesis using Cons.IH [OF t(2)] True t(1) latest_list_max [of "[t]"] by (simp add: latest_assoc)
  next
    case False
    with Cons assms(2) show ?thesis by (auto split: if_splits)
  qed
qed simp

lemma list_max_deadline: "is_none_or (list_max ts) (\<lambda>t. t \<le> now) \<longleftrightarrow> list_all (\<lambda>t. t \<le> now) ts"
  by (cases ts) (simp_all add: list_max_def list_all_iff)

section \<open>Settings and commitments\<close>

definition lifetime :: "Predicate \<Rightarrow> 'd Lifetimes \<Rightarrow> 'd option" where
  "lifetime k l = (case k of Continuous \<Rightarrow> continuous_days l | Motion \<Rightarrow> motion_days l | EventType t \<Rightarrow> bt_get (event_days l) t)"

lemma collect_rules_map: "collect_rules xs = Inr rs \<Longrightarrow> xs = map Inr rs"
  by (induction xs arbitrary: rs) (auto simp: and_then_Inr)

lemma Rule_new_Inr:
  "Rule_new i d p = Inr r \<Longrightarrow> r = \<lparr>rule_id = i, duration_ms = int d, predicate = p\<rparr>"
  by (auto simp: Rule_new_def and_then_Inr split: if_splits)

lemma bt_get_extend: "bt_ok n \<Longrightarrow> bt_get (bt_extend m n) k = or_else (bt_get n k) (bt_get m k)"
proof (induction n arbitrary: m)
  case (Cons x n)
  obtain k' v where x: "x = (k', v)" by fastforce
  have "bt_get n k' = None" "bt_ok n" using Cons.prems by (auto simp: x bt_ok_Cons bt_get_def map_of_eq_None_iff)
  with Cons.IH show ?case by (simp add: bt_extend_def x bt_get_insert) (auto simp: bt_get_def or_else_def)
qed (simp add: bt_extend_def or_else_def)

lemma effective_lifetime:
  assumes "is_none_or camera (\<lambda>l. bt_ok (event_days l))"
  shows "lifetime k (effective defaults camera)
    = or_else (Option.bind camera (lifetime k)) (Option.bind defaults (lifetime k))"
  using assms
  by (cases camera; cases defaults; cases k)
    (auto simp: effective_def lifetime_def Let_def or_else_def bt_get_extend split: option.split)

lemma bt_ok_extend: "bt_ok m \<Longrightarrow> bt_ok (bt_extend m n)"
  unfolding bt_extend_def by (induction n arbitrary: m) (auto simp: bt_ok_insert)

definition entries :: "'d Lifetimes \<Rightarrow> (Predicate \<times> 'd) list" where
  "entries l = (case continuous_days l of None \<Rightarrow> [] | Some d \<Rightarrow> [(Continuous, d)])
     @ (case motion_days l of None \<Rightarrow> [] | Some d \<Rightarrow> [(Motion, d)]) @ map (\<lambda>(t, d). (EventType t, d)) (event_days l)"

definition entry_rule :: "('d \<Rightarrow> RetentionError + u64) \<Rightarrow> (string \<Rightarrow> string) \<Rightarrow> Predicate \<times> 'd \<Rightarrow> RetentionError + Rule" where
  "entry_rule milliseconds digest = (\<lambda>(k, d). case k of
      Continuous \<Rightarrow> and_then (milliseconds d) (\<lambda>ms. Rule_new ''continuous'' ms Continuous)
    | Motion \<Rightarrow> and_then (milliseconds d) (\<lambda>ms. Rule_new ''motion'' ms Motion)
    | EventType t \<Rightarrow> event_rule milliseconds digest (t, d))"

lemma entries_lifetime: "bt_ok (event_days l) \<Longrightarrow> (k, d) \<in> set (entries l) \<longleftrightarrow> lifetime k l = Some d"
  by (cases k) (auto simp: entries_def lifetime_def bt_get_def bt_ok_distinct split: option.split)

lemma rules_of_entries:
  "class_rules milliseconds l @ map (event_rule milliseconds digest) (event_days l) = map (entry_rule milliseconds digest) (entries l)"
  by (simp add: class_rules_def entries_def entry_rule_def split: option.split) (auto split: option.split)

lemma entry_rule_Inr:
  "entry_rule milliseconds digest (k, d) = Inr r \<Longrightarrow> predicate r = k \<and> (\<exists>ms. milliseconds d = Inr ms \<and> duration_ms r = int ms)"
  by (cases k) (auto simp: entry_rule_def event_rule_def and_then_Inr dest!: Rule_new_Inr)

lemma Policy_new_distinct:
  assumes "Policy_new rs = Inr p"
  shows "rules p = rs \<and> length rs \<le> MAX_RULES \<and> distinct (map rule_id rs)"
proof -
  have "rule_id (rs ! i) \<noteq> rule_id (rs ! j)" if "j < i" "i < length rs" for i j
  proof -
    have "rs ! j \<in> set (take i rs)" using that by (auto simp: in_set_conv_nth intro: exI [of _ j])
    with assms that show ?thesis by (fastforce simp: Policy_new_def list_ex_iff split: if_splits)
  qed
  then have "distinct (map rule_id rs)" unfolding distinct_conv_nth by (metis length_map nat_neq_iff nth_map)
  with assms show ?thesis by (auto simp: Policy_new_def split: if_splits)
qed

definition rule_ok :: "Rule \<Rightarrow> bool" where
  "rule_ok r \<longleftrightarrow> 0 \<le> duration_ms r \<and> duration_ms r \<le> i64_max \<and> validate_selector (rule_id r) = Inr ()
     \<and> (case predicate r of EventType t \<Rightarrow> validate_selector t = Inr () | _ \<Rightarrow> True)"

lemma Rule_new_ok: "Rule_new i d k = Inr r \<Longrightarrow> rule_ok r"
  by (cases k) (auto simp: Rule_new_def rule_ok_def and_then_Inr split: if_splits)

lemma entry_rule_ok: "entry_rule milliseconds digest x = Inr r \<Longrightarrow> rule_ok r"
  by (cases x; cases "fst x") (auto simp: entry_rule_def event_rule_def and_then_Inr intro: Rule_new_ok)

lemma lifetimes_policy_rules:
  assumes "lifetimes_policy milliseconds digest l = Inr p" "bt_ok (event_days l)"
  shows "(\<exists>rule. rule \<in> set (rules p) \<and> predicate rule = k \<and> duration_ms rule = int ms)
    \<longleftrightarrow> is_some_and (lifetime k l) (\<lambda>days. milliseconds days = Inr ms)"
proof -
  obtain rs where rs: "map (entry_rule milliseconds digest) (entries l) = map Inr rs" "Policy_new rs = Inr p"
    using assms(1) by (auto simp: lifetimes_policy_def rules_of_entries and_then_Inr dest: collect_rules_map split: if_splits)
  have p: "rules p = rs" using rs(2) by (auto simp: Policy_new_def split: if_splits)
  have eq: "entry_rule milliseconds digest ` set (entries l) = Inr ` set rs" using rs(1) by (metis list.set_map)
  have "(\<exists>rule. rule \<in> set rs \<and> predicate rule = k \<and> duration_ms rule = int ms)
      \<longleftrightarrow> (\<exists>d. (k, d) \<in> set (entries l) \<and> milliseconds d = Inr ms)" (is "?L \<longleftrightarrow> ?R")
  proof
    assume ?L
    then obtain rule where rule: "rule \<in> set rs" "predicate rule = k" "duration_ms rule = int ms" by blast
    then obtain k' d where "(k', d) \<in> set (entries l)" "entry_rule milliseconds digest (k', d) = Inr rule"
      using eq by (metis (no_types, lifting) imageE imageI surj_pair)
    with rule entry_rule_Inr [of milliseconds digest k' d rule] show ?R by auto
  next
    assume ?R
    then obtain d where d: "(k, d) \<in> set (entries l)" "milliseconds d = Inr ms" by blast
    then obtain rule where "rule \<in> set rs" "entry_rule milliseconds digest (k, d) = Inr rule" using eq by blast
    with d entry_rule_Inr [of milliseconds digest k d rule] show ?L by auto
  qed
  then show ?thesis by (simp add: p entries_lifetime [OF assms(2)] is_some_and_iff)
qed

definition event_sound :: "TimelineEvent \<Rightarrow> bool" where
  "event_sound e \<longleftrightarrow> te_id e \<noteq> [] \<and> i64_min \<le> te_start_time_ms e \<and> is_none_or (te_end_time_ms e) (\<lambda>t. te_start_time_ms e \<le> t \<and> t < i64_max)"

lemma observe_events_succeeds:
  assumes "distinct (map te_id (map snd obs @ filter (in_scope r) es))" "list_all event_sound (filter (in_scope r) es)"
  shows "\<exists>obs'. observe_events r es obs = Inr obs'"
  using assms
proof (induction es arbitrary: obs)
  case (Cons e es)
  show ?case
  proof (cases "in_scope r e")
    case True
    with Cons.prems have fresh: "te_id e \<noteq> []" "\<not> list_ex (\<lambda>(_, previous). te_id previous = te_id e) obs" and sound: "event_sound e"
      by (auto simp: event_sound_def list_ex_iff image_iff)
    have skip: "\<exists>obs'. observe_events r es obs = Inr obs'" using Cons True by auto
    have keep: "\<exists>obs'. observe_events r es (obs @ [(i, e)]) = Inr obs'" for i
      using Cons.prems True by (intro Cons.IH) (auto simp: ac_simps)
    have "event_end r e = Inr None \<or> (\<exists>t. event_end r e = Inr (Some t) \<and> te_start_time_ms e < t)"
      using sound by (auto simp: event_end_def event_sound_def checked_add_i64_def i64_min_def split: option.split)
    with skip keep True fresh show ?thesis by (auto simp: Interval_new_def)
  qed (use Cons in auto)
qed simp

lemma apply_rules_succeeds:
  assumes "list_all (\<lambda>rule. duration_ms rule \<noteq> 0 \<and> rule_applies r obs rule
      \<longrightarrow> i64_in_range (end_ms (rec_interval r) + duration_ms rule)) rs"
  shows "\<exists>d' m'. apply_rules r obs rs d m = Inr (d', m')"
  using assms by (induction rs arbitrary: d m) (auto simp: checked_add_i64_def i64_in_range_def)

definition retention_step :: "(Policy \<Rightarrow> byte list) \<Rightarrow> decisions \<Rightarrow> CatalogView \<times> string \<times> u64 \<times> Policy \<Rightarrow> decisions" where
  "retention_step sha table = (\<lambda>(view, i, revision, p). fst (commit_retention sha view i revision p table))"

text \<open>A decision that may replace another: the revision and the deadline only grow, and a revision has one fingerprint.\<close>

definition supersedes :: "Previous \<Rightarrow> Previous \<Rightarrow> bool" where
  "supersedes x y \<longleftrightarrow> sd_policy_revision (pv_decision x) \<le> sd_policy_revision (pv_decision y)
     \<and> (sd_policy_revision (pv_decision x) = sd_policy_revision (pv_decision y) \<longrightarrow> pv_fingerprint x = pv_fingerprint y)
     \<and> is_none_or (sd_deadline_ms (pv_decision x)) (\<lambda>t. is_some_and (sd_deadline_ms (pv_decision y)) (\<lambda>u. t \<le> u))"

lemma supersedes_refl: "supersedes x x"
  by (simp add: supersedes_def is_none_or_iff)

lemma supersedes_trans: "supersedes x y \<Longrightarrow> supersedes y z \<Longrightarrow> supersedes x z"
  unfolding supersedes_def
  by (cases "sd_deadline_ms (pv_decision x)"; cases "sd_deadline_ms (pv_decision y)"; cases "sd_deadline_ms (pv_decision z)") auto

lemma resolve_committed: "resolve p r events = Inr d \<Longrightarrow> committed_deadline_ms r = Some t \<Longrightarrow> \<exists>u. deadline_ms d = Some u \<and> t \<le> u"
  by (auto simp: resolve_def and_then_Inr latest_Some split: option.splits)

lemma commit_snapshot_supersedes:
  assumes "commit_snapshot sha view i revision p b table = Inr (table', decision)" "bt_get table j = Some x"
  shows "\<exists>y. bt_get table' j = Some y \<and> supersedes x y"
proof -
  obtain r events resolved where run: "revision_allowed revision (sha p) (bt_get table i) = Inr ()" "resolve p r events = Inr resolved"
    and r: "committed_deadline_ms r = Option.bind (bt_get table i) (\<lambda>x. sd_deadline_ms (pv_decision x))"
    and table': "table' = bt_insert i \<lparr>pv_decision = decision, pv_fingerprint = sha p\<rparr> table"
    and decision: "sd_policy_revision decision = revision" "sd_deadline_ms decision = deadline_ms resolved"
    using assms(1) unfolding commit_snapshot_def Let_def and_then_Inr by (elim exE conjE) (rule that, auto)
  show ?thesis
  proof (cases "j = i")
    case True
    have "supersedes x \<lparr>pv_decision = decision, pv_fingerprint = sha p\<rparr>"
      using run(1) assms(2) True decision r resolve_committed [OF run(2)]
      by (cases "sd_deadline_ms (pv_decision x)") (auto simp: supersedes_def revision_allowed_def split: if_splits)
    with True table' show ?thesis by (simp add: bt_get_insert)
  next
    case False
    with assms(2) table' supersedes_refl show ?thesis by (simp add: bt_get_insert)
  qed
qed

lemma retention_step_supersedes:
  assumes "bt_get table j = Some x"
  shows "\<exists>y. bt_get (retention_step sha table op) j = Some y \<and> supersedes x y"
proof -
  obtain view i revision p where op: "op = (view, i, revision, p)" by (metis prod_cases4)
  show ?thesis
  proof (cases "retention_step sha table op = table")
    case True
    with assms supersedes_refl show ?thesis by metis
  next
    case False
    then obtain decision where "commit_snapshot sha view i revision p True table = Inr (retention_step sha table op, decision)"
      by (auto simp: op retention_step_def commit_retention_def and_then_Inr split: sum.splits if_splits)
    with assms commit_snapshot_supersedes show ?thesis by blast
  qed
qed

lemma retention_run_supersedes:
  "bt_get table j = Some x \<Longrightarrow> \<exists>y. bt_get (foldl (retention_step sha) table ops) j = Some y \<and> supersedes x y"
proof (induction ops arbitrary: table x)
  case (Cons op ops)
  obtain y where y: "bt_get (retention_step sha table op) j = Some y" "supersedes x y"
    using retention_step_supersedes [OF Cons.prems] by blast
  obtain z where "bt_get (foldl (retention_step sha) (retention_step sha table op) ops) j = Some z" "supersedes y z"
    using Cons.IH [OF y(1)] by blast
  with supersedes_trans [OF y(2)] show ?case by simp
qed (use supersedes_refl in auto)

section \<open>Properties\<close>

text \<open>
  C34: a decision is exact. The deadline is the latest of the committed one and those of the enabled rules
  that the recording has evidence for, the matching rules are these, in order, and the recording is
  expired exactly if it is not protected and all these deadlines have passed.
\<close>

theorem resolve_exact:
  assumes "resolve p r events = Inr d" "start_ms (rec_interval r) < end_ms (rec_interval r)"
  shows "deadline_ms d = list_max (obligations p r events)
    \<and> matching_rules d = map rule_id (filter (required r events) (rules p))
    \<and> (expired now d \<longleftrightarrow> \<not> rec_protected r \<and> list_all (\<lambda>t. t \<le> now) (obligations p r events))"
proof -
  obtain obs deadline matching where obs: "observe_events r events [] = Inr obs"
    and rules: "apply_rules r obs (rules p) None [] = Inr (deadline, matching)"
    and d: "d = \<lparr>deadline_ms = latest deadline (committed_deadline_ms r), matching_rules = matching, protected = rec_protected r,
      reason = decision_reason r deadline\<rparr>"
    using assms(1) by (auto simp: resolve_def recording_events_def and_then_Inr split: if_splits)
  let ?due = "map (\<lambda>rule. end_ms (rec_interval r) + duration_ms rule) (filter (required r events) (rules p))"
  have "deadline = list_max ?due \<and> matching = map rule_id (filter (required r events) (rules p))"
    using apply_rules_exact [OF rules rule_applies_iff [OF assms(2) obs]] by (simp add: required_def [abs_def])
  moreover have "latest (list_max ?due) (committed_deadline_ms r) = list_max (obligations p r events)"
    using latest_list_max [of ?due] by (cases "committed_deadline_ms r") (simp_all add: obligations_def, metis list_max_simps(2))
  ultimately show ?thesis by (simp add: d expired_def list_max_deadline)
qed

definition demo_policy :: Policy where
  "demo_policy = \<lparr>rules = [\<lparr>rule_id = ''continuous'', duration_ms = 100, predicate = Continuous\<rparr>,
     \<lparr>rule_id = ''motion'', duration_ms = 0, predicate = Motion\<rparr>, \<lparr>rule_id = ''p'', duration_ms = 900, predicate = EventType ''person''\<rparr>]\<rparr>"

definition demo_recording :: Recording where
  "demo_recording = \<lparr>rec_camera_id = ''front'', rec_stream_id = ''main'', rec_interval = \<lparr>start_ms = 1000, end_ms = 2000\<rparr>,
     rec_protected = False, committed_deadline_ms = Some 2500\<rparr>"

definition demo_event :: "string \<Rightarrow> i64 \<Rightarrow> i64 option \<Rightarrow> TimelineEvent" where
  "demo_event i s e = \<lparr>te_id = i, te_camera_id = ''front'', te_stream = None, te_kind = ''person'', te_start_time_ms = s, te_end_time_ms = e\<rparr>"

theorem resolve_exact_witness:
  "deadline_ms (projr (resolve demo_policy demo_recording [demo_event ''a'' 1000 (Some 1000), demo_event ''b'' 2000 None]))
     = list_max (obligations demo_policy demo_recording [demo_event ''a'' 1000 (Some 1000), demo_event ''b'' 2000 None])"
proof -
  let ?es = "[demo_event ''a'' 1000 (Some 1000), demo_event ''b'' 2000 None]"
  have "resolve demo_policy demo_recording ?es = Inr (projr (resolve demo_policy demo_recording ?es))" by code_simp
  moreover have "start_ms (rec_interval demo_recording) < end_ms (rec_interval demo_recording)" by code_simp
  ultimately show ?thesis using resolve_exact by blast
qed

text \<open>
  sound evidence is never refused: with a bounded snapshot of distinct, well-ordered events in scope
  and deadlines inside the range of the clock, a decision is made.
\<close>

theorem resolve_succeeds:
  assumes "length events \<le> MAX_EVENTS" "rec_camera_id r \<noteq> []" "rec_stream_id r \<noteq> []"
    and "start_ms (rec_interval r) < end_ms (rec_interval r)"
    and "distinct (map te_id (filter (in_scope r) events))" "list_all event_sound (filter (in_scope r) events)"
    and "list_all (\<lambda>rule. required r events rule \<longrightarrow> i64_in_range (end_ms (rec_interval r) + duration_ms rule)) (rules p)"
  shows "\<exists>d. resolve p r events = Inr d"
proof -
  obtain obs where obs: "observe_events r events [] = Inr obs" using observe_events_succeeds [of "[]" r events] assms by auto
  then have "recording_events r events = Inr obs" using assms by (simp add: recording_events_def)
  moreover obtain d m where "apply_rules r obs (rules p) None [] = Inr (d, m)"
    using apply_rules_succeeds [of r obs "rules p" None "[]"] assms(7) rule_applies_iff [OF assms(4) obs] by (auto simp: required_def)
  ultimately show ?thesis by (simp add: resolve_def)
qed

theorem resolve_succeeds_witness: "\<exists>d. resolve demo_policy demo_recording [demo_event ''a'' 1000 (Some 1000)] = Inr d"
  by (rule resolve_succeeds) code_simp+

text \<open>
  C35: a camera's policy has exactly one lifetime per class of evidence: the camera's own setting where it
  has one, an explicit zero included, and the default otherwise.
\<close>

theorem policy_for_inherits:
  assumes "policy_for milliseconds digest s camera = Inr (Some p)"
    and "is_none_or (settings_default s) (\<lambda>l. bt_ok (event_days l))"
    and "is_none_or (bt_get (settings_cameras s) camera) (\<lambda>l. bt_ok (event_days l))"
  shows "(\<exists>rule. rule \<in> set (rules p) \<and> predicate rule = k \<and> duration_ms rule = int ms)
    \<longleftrightarrow> is_some_and (or_else (Option.bind (bt_get (settings_cameras s) camera) (lifetime k)) (Option.bind (settings_default s) (lifetime k)))
          (\<lambda>days. milliseconds days = Inr ms)"
proof -
  let ?l = "effective (settings_default s) (bt_get (settings_cameras s) camera)"
  have "lifetimes_policy milliseconds digest ?l = Inr p"
    using assms(1) by (auto simp: policy_for_def and_then_Inr Let_def split: if_splits)
  moreover have "bt_ok (event_days ?l)"
    using assms(2,3) by (cases "settings_default s"; cases "bt_get (settings_cameras s) camera") (simp_all add: effective_def Let_def bt_ok_extend)
  ultimately show ?thesis using lifetimes_policy_rules effective_lifetime [OF assms(3)] by metis
qed

definition demo_settings :: "nat Settings" where
  "demo_settings = \<lparr>settings_default = Some \<lparr>continuous_days = Some 1, motion_days = Some 2, event_days = [(''person'', 3)]\<rparr>,
     settings_cameras = [(''front'', \<lparr>continuous_days = Some 0, motion_days = None, event_days = [(''package'', 4)]\<rparr>)]\<rparr>"

theorem policy_for_inherits_witness:
  "\<exists>rule. rule \<in> set (rules (the (projr (policy_for (\<lambda>d. Inr (d * 86400000)) (\<lambda>t. t) demo_settings ''front'')))) \<and> predicate rule = Continuous
     \<and> duration_ms rule = int 0"
proof -
  let ?p = "policy_for (\<lambda>d. Inr (d * 86400000)) (\<lambda>t. t) demo_settings ''front''"
  have "?p = Inr (Some (the (projr ?p)))" by code_simp
  moreover have "is_none_or (settings_default demo_settings) (\<lambda>l. bt_ok (event_days l))" by code_simp
  moreover have "is_none_or (bt_get (settings_cameras demo_settings) ''front'') (\<lambda>l. bt_ok (event_days l))" by code_simp
  moreover have "is_some_and (or_else (Option.bind (bt_get (settings_cameras demo_settings) ''front'') (lifetime Continuous))
      (Option.bind (settings_default demo_settings) (lifetime Continuous))) (\<lambda>days. Inr (days * 86400000) = (Inr 0 :: RetentionError + nat))" by code_simp
  ultimately show ?thesis using policy_for_inherits [of "\<lambda>d. Inr (d * 86400000)" "\<lambda>t. t" demo_settings "''front''" _ Continuous 0] by blast
qed

text \<open>
  C40: every policy that the settings give is well formed: bounded, with distinct identifiers, selectors of
  identifier characters and lifetimes inside the range of the clock.
\<close>

theorem policy_for_wellformed:
  assumes "policy_for milliseconds digest s camera = Inr (Some p)"
  shows "length (rules p) \<le> MAX_RULES \<and> distinct (map rule_id (rules p)) \<and> list_all rule_ok (rules p)"
proof -
  let ?l = "effective (settings_default s) (bt_get (settings_cameras s) camera)"
  have "lifetimes_policy milliseconds digest ?l = Inr p"
    using assms by (auto simp: policy_for_def and_then_Inr Let_def split: if_splits)
  then obtain rs where rs: "map (entry_rule milliseconds digest) (entries ?l) = map Inr rs" "Policy_new rs = Inr p"
    by (auto simp: lifetimes_policy_def rules_of_entries and_then_Inr dest: collect_rules_map split: if_splits)
  have "rule_ok r" if "r \<in> set rs" for r
  proof -
    have "Inr r \<in> set (map (entry_rule milliseconds digest) (entries ?l))" using that rs(1) by simp
    then show ?thesis using entry_rule_ok [of milliseconds digest] by (metis (no_types, lifting) imageE list.set_map)
  qed
  with Policy_new_distinct [OF rs(2)] show ?thesis by (simp add: list_all_iff)
qed

theorem policy_for_wellformed_witness:
  "distinct (map rule_id (rules (the (projr (policy_for (\<lambda>d. Inr (d * 86400000)) (\<lambda>t. t) demo_settings ''front'')))))"
proof -
  let ?p = "policy_for (\<lambda>d. Inr (d * 86400000)) (\<lambda>t. t) demo_settings ''front''"
  have "?p = Inr (Some (the (projr ?p)))" by code_simp
  from policy_for_wellformed [OF this] show ?thesis by blast
qed

text \<open>
  C33: a commitment is kept. Whatever is committed later, successfully or not, the stored deadline of a
  recording never moves back, its policy revision never decreases and stands for one fingerprint, and
  automatic cleanup is refused until every deadline that was ever stored has passed.
\<close>

theorem retention_never_shortens:
  assumes "bt_get table i = Some x"
  shows "\<exists>y. bt_get (foldl (retention_step sha) table ops) i = Some y \<and> supersedes x y
    \<and> is_none_or (sd_deadline_ms (pv_decision x)) (\<lambda>t. now < t \<longrightarrow>
         ensure_cleanup_allowed now i (foldl (retention_step sha) table ops) = Inl CleanupRefused)"
proof -
  obtain y where "bt_get (foldl (retention_step sha) table ops) i = Some y" "supersedes x y"
    using retention_run_supersedes [OF assms] by blast
  then show ?thesis
    by (cases "sd_deadline_ms (pv_decision x)"; cases "sd_deadline_ms (pv_decision y)") (auto simp: ensure_cleanup_allowed_def supersedes_def)
qed

definition demo_view :: CatalogView where
  "demo_view = \<lparr>cv_available = True, cv_available_after = True,
     cv_snapshot = Inr \<lparr>sn_camera_id = ''front'', sn_stream_id = ''main'', sn_interval = \<lparr>start_ms = 1000, end_ms = 2000\<rparr>, sn_protected = False\<rparr>,
     cv_events = Inr [demo_event ''a'' 1500 None], cv_event_revision = Inr 1\<rparr>"

definition demo_table :: decisions where
  "demo_table = retention_step (\<lambda>_. []) [] (demo_view, ''r1'', 1, demo_policy)"

theorem retention_never_shortens_witness:
  "ensure_cleanup_allowed 2800 ''r1'' (foldl (retention_step (\<lambda>_. [])) demo_table [(demo_view, ''r1'', 2, \<lparr>rules = []\<rparr>)]) = Inl CleanupRefused"
proof -
  have "bt_get demo_table ''r1'' = Some (the (bt_get demo_table ''r1''))" by code_simp
  moreover have "sd_deadline_ms (pv_decision (the (bt_get demo_table ''r1''))) = Some 2900" by code_simp
  ultimately show ?thesis
    using retention_never_shortens [of demo_table "''r1''" _ "\<lambda>_. []" "[(demo_view, ''r1'', 2, \<lparr>rules = []\<rparr>)]" 2800] by fastforce
qed

end
