(* ===== verification/Browser_Sessions.thy ===== *)
theory Browser_Sessions
  imports KP_Prelude
begin

text \<open>
  Browser sessions, \<open>src/src/access/browser_sessions.rs\<close>. A session is found by the identifier in its
  cookie; the cookie itself is not kept, only its hash. SHA-256 and the text form of an identifier (the
  \<open>uuid\<close> crate) are parameters; random identifiers and tokens are arguments. A failed assertion is \<open>None\<close>.
  The map of sessions is never iterated in a way that depends on its order.
\<close>

section \<open>Data\<close>

definition SESSION_LIMIT :: usize where
  "SESSION_LIMIT = 4096"

definition BOOTSTRAP_LIMIT :: usize where
  "BOOTSTRAP_LIMIT = 256"

definition BOOTSTRAP_LIFETIME :: duration where
  "BOOTSTRAP_LIFETIME = from_secs 300"

type_synonym Uuid = "128 word"

datatype Address = AddressV4 "32 word" | AddressV6 "128 word"

text \<open>An IPv4 address that is mapped into IPv6 is the IPv4 address.\<close>

fun normalize_address :: "Address \<Rightarrow> Address" where
  "normalize_address (AddressV6 a) = (if drop_bit 32 a = 0xFFFF then AddressV4 (ucast a) else AddressV6 a)"
| "normalize_address (AddressV4 a) = AddressV4 a"

record Binding =
  identity_id :: Uuid
  bd_revision :: u64

record Limits =
  li_idle :: duration
  li_absolute :: duration
  per_identity :: usize
  per_address :: usize

record Session =
  se_id :: Uuid
  se_binding :: "Binding option"
  se_origin :: string
  se_address :: Address
  created_at_ms :: i64
  absolute_expires_at_ms :: i64
  handle_hash :: "byte list"
  se_csrf :: string
  created_at :: instant
  last_activity :: instant

record Issued =
  is_cookie :: string
  is_csrf :: string
  is_session_id :: Uuid

record Sessions =
  records :: "(Uuid, Session) btree"
  limits :: Limits

datatype SessionError = SessionCapacity | AddressLimit | IdentityLimit | BootstrapCapacity | LifetimeRange | ExpiryOverflow
| BadClock | SessionUnavailable | SessionExpired

definition last_activity_at_ms :: "Session \<Rightarrow> i64" where
  "last_activity_at_ms x =
     (let ms = int (as_millis (saturating_duration_since (last_activity x) (created_at x)))
      in max i64_min (min i64_max (created_at_ms x + (if ms > i64_max then i64_max else ms))))"

definition csrf_matches :: "(string \<Rightarrow> byte list) \<Rightarrow> string \<Rightarrow> Session \<Rightarrow> bool" where
  "csrf_matches sha provided x \<longleftrightarrow> sha provided = sha (se_csrf x)"

definition session_expired :: "instant \<Rightarrow> Limits \<Rightarrow> Session \<Rightarrow> bool" where
  "session_expired now l x \<longleftrightarrow>
     (let (idle, absolute) = (if se_binding x \<noteq> None then (li_idle l, li_absolute l) else (BOOTSTRAP_LIFETIME, BOOTSTRAP_LIFETIME))
      in saturating_duration_since now (created_at x) \<ge> absolute \<or> saturating_duration_since now (last_activity x) \<ge> idle)"

definition Sessions_new :: "Limits \<Rightarrow> Sessions option" where
  "Sessions_new l =
     (if li_idle l \<noteq> 0 \<and> li_idle l \<le> li_absolute l \<and> per_identity l > 0 \<and> per_address l > 0
      then Some \<lparr>records = [], limits = l\<rparr> else None)"

section \<open>Operations\<close>

text \<open>The identifier and the secrets that a new session draws.\<close>

record Drawn =
  dr_id :: Uuid
  dr_token :: string
  dr_csrf :: string

definition expire_sessions :: "instant \<Rightarrow> Sessions \<Rightarrow> Sessions" where
  "expire_sessions now s = s\<lparr>records := filter (\<lambda>(_, x). \<not> session_expired now (limits s) x) (records s)\<rparr>"

definition count_sessions :: "(Session \<Rightarrow> bool) \<Rightarrow> Sessions \<Rightarrow> usize" where
  "count_sessions p s = length (filter (\<lambda>(_, x). p x) (records s))"

definition of_identity :: "Uuid \<Rightarrow> Session \<Rightarrow> bool" where
  "of_identity i x \<longleftrightarrow> is_some_and (se_binding x) (\<lambda>b. identity_id b = i)"

definition require_capacity :: "Binding option \<Rightarrow> Address \<Rightarrow> Sessions \<Rightarrow> SessionError + unit" where
  "require_capacity binding address s =
     (if length (records s) \<ge> SESSION_LIMIT then Inl SessionCapacity
      else if count_sessions (\<lambda>x. se_address x = address) s \<ge> per_address (limits s) then Inl AddressLimit
      else case binding of
             Some b \<Rightarrow> if count_sessions (of_identity (identity_id b)) s \<ge> per_identity (limits s) then Inl IdentityLimit else Inr ()
           | None \<Rightarrow> if count_sessions (\<lambda>x. se_binding x = None) s \<ge> BOOTSTRAP_LIMIT then Inl BootstrapCapacity else Inr ())"

definition issue_lifetime :: "Binding option \<Rightarrow> Limits \<Rightarrow> duration" where
  "issue_lifetime binding l = (if binding \<noteq> None then li_absolute l else BOOTSTRAP_LIFETIME)"

definition expiry_ms :: "duration \<Rightarrow> i64 \<Rightarrow> SessionError + i64" where
  "expiry_ms lifetime now_ms =
     (if int (as_millis lifetime) > i64_max then Inl LifetimeRange
      else case checked_add_i64 now_ms (int (as_millis lifetime)) of
             None \<Rightarrow> Inl ExpiryOverflow
           | Some e \<Rightarrow> if now_ms \<ge> 0 then Inr e else Inl BadClock)"

definition new_session :: "(string \<Rightarrow> byte list) \<Rightarrow> (Uuid \<Rightarrow> string) \<Rightarrow> Drawn \<Rightarrow> Binding option \<Rightarrow> string \<Rightarrow> Address \<Rightarrow> instant \<Rightarrow> i64 \<Rightarrow> i64
    \<Rightarrow> Session \<times> Issued" where
  "new_session sha simple d binding origin address now now_ms expires =
     (let cookie = simple (dr_id d) @ ''.'' @ dr_token d
      in (\<lparr>se_id = dr_id d, se_binding = binding, se_origin = origin, se_address = address, created_at_ms = now_ms,
           absolute_expires_at_ms = expires, handle_hash = sha cookie, se_csrf = dr_csrf d, created_at = now, last_activity = now\<rparr>,
          \<lparr>is_cookie = cookie, is_csrf = dr_csrf d, is_session_id = dr_id d\<rparr>))"

definition issue :: "(string \<Rightarrow> byte list) \<Rightarrow> (Uuid \<Rightarrow> string) \<Rightarrow> Drawn \<Rightarrow> Binding option \<Rightarrow> string \<Rightarrow> Address \<Rightarrow> instant \<Rightarrow> i64 \<Rightarrow> Sessions
    \<Rightarrow> (Sessions \<times> (SessionError + Issued)) option" where
  "issue sha simple d binding origin address now now_ms s =
     (let s = expire_sessions now s; address = normalize_address address in
      case and_then (require_capacity binding address s) (\<lambda>_. expiry_ms (issue_lifetime binding (limits s)) now_ms) of
        Inl e \<Rightarrow> Some (s, Inl e)
      | Inr expires \<Rightarrow>
          let (x, issued) = new_session sha simple d binding origin address now now_ms expires in
          if bt_get (records s) (dr_id d) \<noteq> None then None
          else Some (s\<lparr>records := bt_insert (dr_id d) x (records s)\<rparr>, Inr issued))"

definition rotate :: "(string \<Rightarrow> byte list) \<Rightarrow> (Uuid \<Rightarrow> string) \<Rightarrow> Drawn \<Rightarrow> Uuid \<Rightarrow> Binding \<Rightarrow> instant \<Rightarrow> i64 \<Rightarrow> Sessions
    \<Rightarrow> (Sessions \<times> (SessionError + Issued)) option" where
  "rotate sha simple d prior binding now now_ms s =
     (case bt_get (records s) prior of
        None \<Rightarrow> Some (s, Inl SessionUnavailable)
      | Some previous \<Rightarrow>
          let s = s\<lparr>records := bt_remove prior (records s)\<rparr> in
          if session_expired now (limits s) previous then Some (s, Inl SessionExpired)
          else case issue sha simple d (Some binding) (se_origin previous) (se_address previous) now now_ms s of
                 None \<Rightarrow> None
               | Some (s, Inr issued) \<Rightarrow> Some (s, Inr issued)
               | Some (s, Inl e) \<Rightarrow> Some (s\<lparr>records := bt_insert prior previous (records s)\<rparr>, Inl e))"

fun split_once :: "char \<Rightarrow> string \<Rightarrow> (string \<times> string) option" where
  "split_once sep [] = None"
| "split_once sep (c # cs) = (if c = sep then Some ([], cs) else map_option (\<lambda>(a, b). (c # a, b)) (split_once sep cs))"

definition cookie_id :: "(string \<Rightarrow> Uuid option) \<Rightarrow> string \<Rightarrow> Uuid option" where
  "cookie_id parse_str cookie =
     (if length cookie \<noteq> 76 \<or> \<not> list_all (\<lambda>c. (of_char c :: nat) < 128) cookie then None
      else case split_once CHR ''.'' cookie of
             None \<Rightarrow> None
           | Some (i, secret) \<Rightarrow> if length i \<noteq> 32 \<or> length secret \<noteq> 43 then None else parse_str i)"

definition lookup :: "(string \<Rightarrow> byte list) \<Rightarrow> (string \<Rightarrow> Uuid option) \<Rightarrow> string \<Rightarrow> string \<Rightarrow> instant \<Rightarrow> Sessions \<Rightarrow> Sessions \<times> Session option" where
  "lookup sha parse_str cookie origin now s =
     (case cookie_id parse_str cookie of
        None \<Rightarrow> (s, None)
      | Some i \<Rightarrow>
          (case bt_get (records s) i of
             None \<Rightarrow> (s, None)
           | Some x \<Rightarrow>
               if session_expired now (limits s) x then (s\<lparr>records := bt_remove i (records s)\<rparr>, None)
               else if se_origin x \<noteq> origin \<or> handle_hash x \<noteq> sha cookie then (s, None)
               else (s, Some x)))"

definition authenticate :: "(string \<Rightarrow> byte list) \<Rightarrow> (string \<Rightarrow> Uuid option) \<Rightarrow> string \<Rightarrow> string \<Rightarrow> instant \<Rightarrow> Sessions
    \<Rightarrow> (Sessions \<times> Session option) option" where
  "authenticate sha parse_str cookie origin now s =
     (case lookup sha parse_str cookie origin now s of
        (s, None) \<Rightarrow> Some (s, None)
      | (s, Some authenticated) \<Rightarrow>
          (case bt_get (records s) (se_id authenticated) of
             None \<Rightarrow> None
           | Some x \<Rightarrow>
               let x = x\<lparr>last_activity := max (last_activity x) now\<rparr>
               in Some (s\<lparr>records := bt_update (se_id authenticated) x (records s)\<rparr>, Some x)))"

definition active :: "Uuid \<Rightarrow> Binding \<Rightarrow> instant \<Rightarrow> Sessions \<Rightarrow> bool" where
  "active i binding now s \<longleftrightarrow>
     is_some_and (bt_get (records s) i) (\<lambda>x. se_binding x = Some binding \<and> \<not> session_expired now (limits s) x)"

definition touch :: "Uuid \<Rightarrow> Binding \<Rightarrow> instant \<Rightarrow> Sessions \<Rightarrow> (Sessions \<times> bool) option" where
  "touch i binding now s =
     (if \<not> active i binding now s then Some (s, False)
      else case bt_get (records s) i of
             None \<Rightarrow> None
           | Some x \<Rightarrow> Some (s\<lparr>records := bt_update i (x\<lparr>last_activity := now\<rparr>) (records s)\<rparr>, True))"

definition revoke :: "Uuid \<Rightarrow> Sessions \<Rightarrow> Sessions" where
  "revoke i s = s\<lparr>records := bt_remove i (records s)\<rparr>"

definition revoke_identity :: "Uuid \<Rightarrow> Sessions \<Rightarrow> Sessions" where
  "revoke_identity i s = s\<lparr>records := filter (\<lambda>(_, x). \<not> of_identity i x) (records s)\<rparr>"

definition list_sessions :: "Sessions \<Rightarrow> Session list" where
  "list_sessions s = map snd (records s)"

end
