(* ===== verification/Browser_Sessions_Run.thy ===== *)
theory Browser_Sessions_Run
  imports Browser_Sessions
begin

text \<open>
  Browser sessions over any sequence of operations: the limits hold, a session that authenticates was issued
  and not revoked since, and an issued cookie works.
\<close>

section \<open>Counting\<close>

definition within :: "('v \<Rightarrow> bool) \<Rightarrow> (Uuid, 'v) btree \<Rightarrow> usize" where
  "within p m = length (filter (\<lambda>(_, x). p x) m)"

lemma count_within: "count_sessions p s = within p (records s)"
  by (simp add: count_sessions_def within_def)

lemma length_within: "length m = within (\<lambda>_. True) m"
  by (simp add: within_def split_def)

lemma within_filter: "within p (filter q m) \<le> within p m"
  unfolding within_def by (induction m) auto

lemma within_insert:
  assumes "bt_ok m" "bt_get m k = None"
  shows "within p (bt_insert k v m) = within p m + (if p v then 1 else 0)"
  using assms
proof (induction m)
  case (Cons e m)
  obtain k' v' where e: "e = (k', v')" by fastforce
  have "k \<noteq> k'" "bt_ok m" "bt_get m k = None" using Cons.prems by (auto simp: e bt_ok_Cons bt_get_def split: if_splits)
  with Cons.IH show ?case by (auto simp: e within_def)
qed (simp add: within_def)

lemma within_remove:
  assumes "bt_ok m" "bt_get m k = Some v"
  shows "within p m = within p (bt_remove k m) + (if p v then 1 else 0)"
  using assms
proof (induction m)
  case (Cons e m)
  obtain k' v' where e: "e = (k', v')" by fastforce
  show ?case
  proof (cases "k = k'")
    case True
    have "bt_remove k m = m"
      using Cons.prems True by (auto simp: e bt_remove_def bt_ok_Cons filter_id_conv image_iff)
    with Cons.prems True show ?thesis by (auto simp: e within_def bt_get_def bt_remove_def)
  next
    case False
    with Cons show ?thesis by (auto simp: e within_def bt_get_def bt_remove_def bt_ok_Cons)
  qed
qed simp

lemma within_update:
  assumes "bt_ok m" "bt_get m k = Some v" "p v' = p v"
  shows "within p (bt_update k v' m) = within p m"
  using assms
proof (induction m)
  case (Cons e m)
  then show ?case by (cases e) (auto simp: within_def bt_get_def bt_ok_Cons split: if_splits)
qed simp

section \<open>Limits\<close>

definition limits_ok :: "Limits \<Rightarrow> (Uuid, Session) btree \<Rightarrow> bool" where
  "limits_ok l m \<longleftrightarrow> within (\<lambda>_. True) m \<le> SESSION_LIMIT \<and> (\<forall>a. within (\<lambda>x. se_address x = a) m \<le> per_address l)
     \<and> (\<forall>i. within (of_identity i) m \<le> per_identity l) \<and> within (\<lambda>x. se_binding x = None) m \<le> BOOTSTRAP_LIMIT"

definition sessions_ok :: "Sessions \<Rightarrow> bool" where
  "sessions_ok s \<longleftrightarrow> bt_ok (records s) \<and> limits_ok (limits s) (records s) \<and> (\<forall>k x. bt_get (records s) k = Some x \<longrightarrow> se_id x = k)"

lemma limits_ok_mono:
  assumes "limits_ok l m" "\<And>p. within p m' \<le> within p m"
  shows "limits_ok l m'"
  using assms unfolding limits_ok_def by (meson le_trans)

lemma sessions_ok_filter: "sessions_ok s \<Longrightarrow> sessions_ok (s\<lparr>records := filter (\<lambda>(_, x). q x) (records s)\<rparr>)"
  using limits_ok_mono [OF _ within_filter] by (auto simp: sessions_ok_def bt_ok_filter bt_get_filter split: option.splits if_splits)

lemma bt_remove_filter: "bt_remove k m = filter (\<lambda>e. fst e \<noteq> k) m"
  by (simp add: bt_remove_def)

lemma sessions_ok_remove: "sessions_ok s \<Longrightarrow> sessions_ok (s\<lparr>records := bt_remove k (records s)\<rparr>)"
  using limits_ok_mono [OF _ within_filter, of _ "records s" "\<lambda>e. fst e \<noteq> k"]
  by (auto simp: sessions_ok_def bt_ok_remove bt_get_remove bt_remove_filter [symmetric] split: if_splits)

lemma sessions_ok_touch:
  assumes "sessions_ok s" "bt_get (records s) k = Some x"
  shows "sessions_ok (s\<lparr>records := bt_update k (x\<lparr>last_activity := t\<rparr>) (records s)\<rparr>)"
proof -
  have ok: "bt_ok (records s)" using assms(1) by (simp add: sessions_ok_def)
  have "limits_ok (limits s) (bt_update k (x\<lparr>last_activity := t\<rparr>) (records s))"
    using assms(1) unfolding sessions_ok_def limits_ok_def by (simp add: within_update [OF ok assms(2)] of_identity_def)
  with assms show ?thesis by (auto simp: sessions_ok_def bt_ok_update bt_get_update)
qed

lemma sessions_ok_expire: "sessions_ok s \<Longrightarrow> sessions_ok (expire_sessions now s)"
  unfolding expire_sessions_def by (rule sessions_ok_filter)

lemma sessions_ok_insert:
  assumes "sessions_ok s" "require_capacity binding address s = Inr ()" "bt_get (records s) (se_id x) = None"
    and "se_binding x = binding" "se_address x = address"
  shows "sessions_ok (s\<lparr>records := bt_insert (se_id x) x (records s)\<rparr>)"
proof -
  have ok: "bt_ok (records s)" using assms(1) by (simp add: sessions_ok_def)
  have "limits_ok (limits s) (bt_insert (se_id x) x (records s))"
    using assms unfolding sessions_ok_def limits_ok_def
    by (cases binding)
      (auto simp: within_insert [OF ok assms(3)] require_capacity_def count_within length_within of_identity_def split: if_splits)
  with assms(1) ok show ?thesis by (auto simp: sessions_ok_def bt_ok_insert bt_get_insert)
qed

lemma issue_cases:
  assumes "issue sha simple d binding origin address now now_ms s = Some (s', r)"
  obtains (refused) e where "r = Inl e" "s' = expire_sessions now s"
  | (issued) x i expires where "r = Inr i" "(x, i) = new_session sha simple d binding origin (normalize_address address) now now_ms expires"
      "require_capacity binding (normalize_address address) (expire_sessions now s) = Inr ()"
      "bt_get (records (expire_sessions now s)) (dr_id d) = None"
      "s' = (expire_sessions now s)\<lparr>records := bt_insert (dr_id d) x (records (expire_sessions now s))\<rparr>"
proof (cases "and_then (require_capacity binding (normalize_address address) (expire_sessions now s))
      (\<lambda>_. expiry_ms (issue_lifetime binding (limits (expire_sessions now s))) now_ms)")
  case (Inl e)
  with assms have "r = Inl e" "s' = expire_sessions now s" by (simp_all add: issue_def Let_def)
  then show thesis by (rule refused)
next
  case (Inr expires)
  obtain x i where x: "new_session sha simple d binding origin (normalize_address address) now now_ms expires = (x, i)" by fastforce
  have cap: "require_capacity binding (normalize_address address) (expire_sessions now s) = Inr ()" using Inr by (auto simp: and_then_Inr)
  from assms Inr x have "bt_get (records (expire_sessions now s)) (dr_id d) = None" "r = Inr i"
    "s' = (expire_sessions now s)\<lparr>records := bt_insert (dr_id d) x (records (expire_sessions now s))\<rparr>"
    by (simp_all add: issue_def Let_def split: if_splits)
  with issued [OF _ x [symmetric] cap] show thesis by blast
qed

lemma new_session_fields:
  assumes "(x, i) = new_session sha simple d binding origin address now now_ms expires"
  shows "se_id x = dr_id d" "se_binding x = binding" "se_origin x = origin" "se_address x = address" "created_at x = now"
    "last_activity x = now" "handle_hash x = sha (is_cookie i)" "is_session_id i = dr_id d"
    "is_cookie i = simple (dr_id d) @ ''.'' @ dr_token d"
  using assms by (simp_all add: new_session_def Let_def)

lemma sessions_ok_issue:
  assumes "sessions_ok s" "issue sha simple d binding origin address now now_ms s = Some (s', r)"
  shows "sessions_ok s'"
  using assms(2)
proof (cases rule: issue_cases)
  case (issued x i expires)
  note fields = new_session_fields [OF issued(2)]
  show ?thesis
    using sessions_ok_insert [OF sessions_ok_expire [OF assms(1)] issued(3) _ fields(2,4)] issued(4,5) by (simp add: fields(1))
qed (simp add: sessions_ok_expire [OF assms(1)])

lemma issue_refused_within:
  assumes "issue sha simple d binding origin address now now_ms s = Some (s', Inl e)"
  shows "within p (records s') \<le> within p (records s) \<and> limits s' = limits s \<and> s' = expire_sessions now s"
  using assms by (cases rule: issue_cases) (simp_all add: expire_sessions_def within_filter)

lemma sessions_ok_rotate:
  assumes ok: "sessions_ok s" and run: "rotate sha simple d prior binding now now_ms s = Some (s', r)"
  shows "sessions_ok s'"
proof (cases "bt_get (records s) prior")
  case None
  with assms show ?thesis by (simp add: rotate_def)
next
  case (Some previous)
  let ?s = "s\<lparr>records := bt_remove prior (records s)\<rparr>"
  let ?issue = "issue sha simple d (Some binding) (se_origin previous) (se_address previous) now now_ms ?s"
  have ok': "sessions_ok ?s" using ok by (rule sessions_ok_remove)
  have bt: "bt_ok (records s)" and ids: "se_id previous = prior" using ok Some by (auto simp: sessions_ok_def)
  show ?thesis
  proof (cases "session_expired now (limits s) previous")
    case True
    with run Some ok' show ?thesis by (simp add: rotate_def)
  next
    case live: False
    then obtain s2 r2 where s2: "?issue = Some (s2, r2)"
      using run Some by (auto simp: rotate_def split: option.splits)
    show ?thesis
    proof (cases r2)
      case (Inr i)
      with run Some live s2 sessions_ok_issue [OF ok' s2] show ?thesis by (simp add: rotate_def)
    next
      case (Inl e)
      with run Some live s2 have s': "s' = s2\<lparr>records := bt_insert prior previous (records s2)\<rparr>" by (simp add: rotate_def)
      have s2_eq: "s2 = expire_sessions now ?s" using issue_refused_within [of sha simple d] s2 Inl by blast
      have gone: "bt_get (records s2) prior = None"
        using bt_get_filter [OF bt_ok_remove [OF bt]] by (simp add: s2_eq expire_sessions_def bt_get_remove)
      have ok2: "sessions_ok s2" using sessions_ok_expire [OF ok'] by (simp add: s2_eq)
      have "within p (records s') \<le> within p (records s)" for p
        using within_insert [OF _ gone, of p previous] ok2 within_remove [OF bt Some, of p]
          within_filter [of p _ "bt_remove prior (records s)"]
        by (simp add: s' sessions_ok_def s2_eq expire_sessions_def)
      then have "limits_ok (limits s) (records s')" using ok limits_ok_mono by (auto simp: sessions_ok_def)
      with ok2 ids show ?thesis by (auto simp: s' sessions_ok_def s2_eq expire_sessions_def bt_ok_insert bt_get_insert)
    qed
  qed
qed

lemma lookup_cases: "fst (lookup sha parse_str cookie origin now s) = s \<or> (\<exists>k. fst (lookup sha parse_str cookie origin now s) = s\<lparr>records := bt_remove k (records s)\<rparr>)"
  by (auto simp: lookup_def split: option.split)

lemma lookup_Some:
  assumes "lookup sha parse_str cookie origin now s = (s', Some x)"
  shows "s' = s \<and> (\<exists>i. cookie_id parse_str cookie = Some i \<and> bt_get (records s) i = Some x) \<and> \<not> session_expired now (limits s) x
    \<and> se_origin x = origin \<and> handle_hash x = sha cookie"
  using assms by (auto simp: lookup_def split: option.splits if_splits)

lemma sessions_ok_lookup: "sessions_ok s \<Longrightarrow> sessions_ok (fst (lookup sha parse_str cookie origin now s))"
  using lookup_cases [of sha parse_str cookie origin now s] sessions_ok_remove by auto

lemma authenticate_total:
  assumes "sessions_ok s"
  shows "authenticate sha parse_str cookie origin now s =
    (case lookup sha parse_str cookie origin now s of
       (s, None) \<Rightarrow> Some (s, None)
     | (s, Some x) \<Rightarrow> Some (s\<lparr>records := bt_update (se_id x) (x\<lparr>last_activity := max (last_activity x) now\<rparr>) (records s)\<rparr>,
                        Some (x\<lparr>last_activity := max (last_activity x) now\<rparr>)))"
proof -
  obtain s' found where l: "lookup sha parse_str cookie origin now s = (s', found)" by fastforce
  show ?thesis
  proof (cases found)
    case (Some x)
    with l lookup_Some [of sha parse_str cookie origin now s s' x] assms
    have "bt_get (records s') (se_id x) = Some x" by (auto simp: sessions_ok_def)
    with l Some show ?thesis by (simp add: authenticate_def Let_def)
  qed (simp add: authenticate_def l)
qed

lemma sessions_ok_authenticate:
  assumes "sessions_ok s" "authenticate sha parse_str cookie origin now s = Some (s', r)"
  shows "sessions_ok s'"
proof -
  obtain s1 found where l: "lookup sha parse_str cookie origin now s = (s1, found)" by fastforce
  show ?thesis
  proof (cases found)
    case None
    with l assms sessions_ok_lookup [OF assms(1), of sha parse_str cookie origin now] show ?thesis by (simp add: authenticate_def)
  next
    case (Some x)
    with l lookup_Some [of sha parse_str cookie origin now s s1 x] assms(1)
    have "s1 = s" "bt_get (records s) (se_id x) = Some x" by (auto simp: sessions_ok_def)
    with l Some assms sessions_ok_touch show ?thesis by (auto simp: authenticate_total)
  qed
qed

lemma sessions_ok_touch_op: "sessions_ok s \<Longrightarrow> touch i binding now s = Some (s', r) \<Longrightarrow> sessions_ok s'"
  by (auto simp: touch_def sessions_ok_touch split: if_splits option.splits)

section \<open>Runs\<close>

datatype SessionOp =
  Issue Drawn "Binding option" string Address instant i64
| Rotate Drawn Uuid Binding instant i64
| Authenticate string string instant
| Lookup string string instant
| Touch Uuid Binding instant
| Revoke Uuid
| RevokeIdentity Uuid
| Expire instant

definition issued_part :: "SessionError + Issued \<Rightarrow> Issued option" where
  "issued_part r = (case r of Inl _ \<Rightarrow> None | Inr i \<Rightarrow> Some i)"

text \<open>One operation: the new sessions, and the cookie it handed out, if any.\<close>

fun session_step :: "(string \<Rightarrow> byte list) \<Rightarrow> (Uuid \<Rightarrow> string) \<Rightarrow> (string \<Rightarrow> Uuid option) \<Rightarrow> SessionOp \<Rightarrow> Sessions \<Rightarrow> (Sessions \<times> Issued option) option" where
  "session_step sha simple parse_str (Issue d b origin a now now_ms) s = map_option (map_prod id issued_part) (issue sha simple d b origin a now now_ms s)"
| "session_step sha simple parse_str (Rotate d prior b now now_ms) s = map_option (map_prod id issued_part) (rotate sha simple d prior b now now_ms s)"
| "session_step sha simple parse_str (Authenticate cookie origin now) s = map_option (map_prod id (\<lambda>_. None)) (authenticate sha parse_str cookie origin now s)"
| "session_step sha simple parse_str (Lookup cookie origin now) s = Some (fst (lookup sha parse_str cookie origin now s), None)"
| "session_step sha simple parse_str (Touch i b now) s = map_option (map_prod id (\<lambda>_. None)) (touch i b now s)"
| "session_step sha simple parse_str (Revoke i) s = Some (revoke i s, None)"
| "session_step sha simple parse_str (RevokeIdentity i) s = Some (revoke_identity i s, None)"
| "session_step sha simple parse_str (Expire now) s = Some (expire_sessions now s, None)"

type_synonym session_trace = "(SessionOp \<times> Issued option) list"

definition session_run_step :: "(string \<Rightarrow> byte list) \<Rightarrow> (Uuid \<Rightarrow> string) \<Rightarrow> (string \<Rightarrow> Uuid option)
    \<Rightarrow> (session_trace \<times> Sessions) option \<Rightarrow> SessionOp \<Rightarrow> (session_trace \<times> Sessions) option" where
  "session_run_step sha simple parse_str st x =
     (case st of
        None \<Rightarrow> None
      | Some (trace, s) \<Rightarrow> map_option (\<lambda>(s', i). (trace @ [(x, i)], s')) (session_step sha simple parse_str x s))"

lemma session_step_ok:
  assumes ok: "sessions_ok s" and run: "session_step sha simple parse_str x s = Some (s', i)"
  shows "sessions_ok s'"
proof (cases x)
  case (Issue d b origin a now now_ms)
  with run sessions_ok_issue [OF ok] show ?thesis by auto
next
  case (Rotate d prior b now now_ms)
  with run sessions_ok_rotate [OF ok] show ?thesis by auto
next
  case (Authenticate cookie origin now)
  with run sessions_ok_authenticate [OF ok] show ?thesis by auto
next
  case (Touch k b now)
  with run sessions_ok_touch_op [OF ok] show ?thesis by auto
qed (use run ok sessions_ok_lookup sessions_ok_remove sessions_ok_filter sessions_ok_expire in
    \<open>auto simp: revoke_def revoke_identity_def\<close>)

section \<open>Where a session comes from\<close>

definition grants :: "SessionOp \<Rightarrow> Session \<Rightarrow> bool" where
  "grants x y = (case x of
      Issue d b origin a now now_ms \<Rightarrow> se_binding y = b \<and> se_origin y = origin \<and> created_at y = now
    | Rotate d prior b now now_ms \<Rightarrow> se_binding y = Some b \<and> created_at y = now
    | _ \<Rightarrow> False)"

definition revokes :: "SessionOp \<times> Issued option \<Rightarrow> Session \<Rightarrow> bool" where
  "revokes e y = (case fst e of
      Revoke i \<Rightarrow> se_id y = i
    | RevokeIdentity i \<Rightarrow> of_identity i y
    | Rotate d prior b now now_ms \<Rightarrow> snd e \<noteq> None \<and> se_id y = prior
    | _ \<Rightarrow> False)"

definition creates :: "(string \<Rightarrow> byte list) \<Rightarrow> SessionOp \<times> Issued option \<Rightarrow> Session \<Rightarrow> bool" where
  "creates sha e y \<longleftrightarrow> grants (fst e) y \<and> is_some_and (snd e) (\<lambda>i. is_session_id i = se_id y \<and> handle_hash y = sha (is_cookie i))"

definition live_since :: "(string \<Rightarrow> byte list) \<Rightarrow> session_trace \<Rightarrow> Session \<Rightarrow> bool" where
  "live_since sha trace y \<longleftrightarrow> (\<exists>pre e post. trace = pre @ e # post \<and> creates sha e y \<and> list_all (\<lambda>f. \<not> revokes f y) post)"

lemma activity_irrelevant [simp]:
  "revokes e (y\<lparr>last_activity := t\<rparr>) = revokes e y" "creates sha e (y\<lparr>last_activity := t\<rparr>) = creates sha e y"
  "live_since sha trace (y\<lparr>last_activity := t\<rparr>) = live_since sha trace y"
  by (simp_all add: revokes_def creates_def grants_def live_since_def of_identity_def cong: SessionOp.case_cong)

lemma live_since_keep:
  assumes "live_since sha trace y" "\<not> revokes e y"
  shows "live_since sha (trace @ [e]) y"
proof -
  obtain pre e' post where "trace = pre @ e' # post" "creates sha e' y" "list_all (\<lambda>f. \<not> revokes f y) post"
    using assms(1) by (auto simp: live_since_def)
  with assms(2) show ?thesis unfolding live_since_def
    by (intro exI [of _ pre] exI [of _ e'] exI [of _ "post @ [e]"]) simp
qed

lemma live_since_new: "creates sha e y \<Longrightarrow> live_since sha (trace @ [e]) y"
  unfolding live_since_def by (intro exI [of _ trace] exI [of _ e] exI [of _ "[]"]) simp

text \<open>A session after an operation is one from before that the operation does not revoke, or its new one.\<close>

definition descends :: "(string \<Rightarrow> byte list) \<Rightarrow> SessionOp \<times> Issued option \<Rightarrow> (Uuid, Session) btree \<Rightarrow> Uuid \<Rightarrow> Session \<Rightarrow> bool" where
  "descends sha e m k y \<longleftrightarrow> (\<exists>z t. bt_get m k = Some z \<and> y = z\<lparr>last_activity := t\<rparr> \<and> \<not> revokes e z) \<or> creates sha e y"

lemma descends_keep: "bt_get m k = Some y \<Longrightarrow> \<not> revokes e y \<Longrightarrow> descends sha e m k y"
  unfolding descends_def by (intro disjI1 exI [of _ y] exI [of _ "last_activity y"]) simp

lemma expired_get: "sessions_ok s \<Longrightarrow> bt_get (records (expire_sessions now s)) k = Some y \<Longrightarrow> bt_get (records s) k = Some y"
  by (auto simp: expire_sessions_def sessions_ok_def bt_get_filter split: option.splits if_splits)

lemma issue_descends:
  assumes "sessions_ok s" "issue sha simple d b origin a now now_ms s = Some (s', r)" "bt_get (records s') k = Some y"
  shows "bt_get (records s) k = Some y \<or> (\<exists>i. r = Inr i \<and> k = dr_id d \<and> se_binding y = b \<and> se_origin y = origin \<and> created_at y = now
    \<and> se_id y = dr_id d \<and> is_session_id i = dr_id d \<and> handle_hash y = sha (is_cookie i))"
  using assms(2)
proof (cases rule: issue_cases)
  case (refused e)
  with assms expired_get show ?thesis by blast
next
  case (issued x i expires)
  note fields = new_session_fields [OF issued(2)]
  show ?thesis
  proof (cases "k = dr_id d")
    case True
    then have "y = x" using assms(3) issued(5) by (simp add: bt_get_insert)
    with True fields issued(1) show ?thesis by simp
  next
    case False
    then have "bt_get (records (expire_sessions now s)) k = Some y" using assms(3) issued(5) by (simp add: bt_get_insert)
    with expired_get [OF assms(1)] show ?thesis by blast
  qed
qed

lemma rotate_descends:
  assumes ok: "sessions_ok s" and run: "rotate sha simple d prior b now now_ms s = Some (s', r)" and y: "bt_get (records s') k = Some y"
  shows "descends sha (Rotate d prior b now now_ms, issued_part r) (records s) k y"
proof (cases "bt_get (records s) prior")
  case None
  with run y show ?thesis by (auto simp: rotate_def issued_part_def revokes_def intro!: descends_keep)
next
  case (Some previous)
  let ?s = "s\<lparr>records := bt_remove prior (records s)\<rparr>"
  have old: "descends sha (Rotate d prior b now now_ms, e) (records s) k y" if "bt_get (records ?s) k = Some y" for e
    using that ok by (intro descends_keep) (auto simp: bt_get_remove revokes_def sessions_ok_def split: if_splits)
  show ?thesis
  proof (cases "session_expired now (limits s) previous")
    case True
    with run Some y old show ?thesis by (simp add: rotate_def)
  next
    case live: False
    then obtain s2 r2 where s2: "issue sha simple d (Some b) (se_origin previous) (se_address previous) now now_ms ?s = Some (s2, r2)"
      using run Some by (auto simp: rotate_def split: option.splits)
    note from_issue = issue_descends [OF sessions_ok_remove [OF ok] s2]
    show ?thesis
    proof (cases r2)
      case (Inr i)
      with run Some live s2 have "s' = s2" "r = Inr i" by (simp_all add: rotate_def)
      then consider "bt_get (records ?s) k = Some y" | "creates sha (Rotate d prior b now now_ms, issued_part r) y"
        using from_issue [of k y] y Inr by (auto simp: creates_def grants_def issued_part_def)
      then show ?thesis
      proof cases
        case 1
        then show ?thesis by (rule old)
      qed (simp add: descends_def)
    next
      case (Inl e)
      with run Some live s2 have s': "s' = s2\<lparr>records := bt_insert prior previous (records s2)\<rparr>" "r = Inl e" by (simp_all add: rotate_def)
      show ?thesis
      proof (cases "k = prior")
        case True
        with y s' Some show ?thesis by (intro descends_keep) (simp_all add: bt_get_insert revokes_def issued_part_def)
      next
        case False
        with y s' have "bt_get (records s2) k = Some y" by (simp add: bt_get_insert)
        with from_issue [of k y] Inl old show ?thesis by auto
      qed
    qed
  qed
qed


lemma session_step_descends:
  assumes ok: "sessions_ok s" and run: "session_step sha simple parse_str x s = Some (s', i)" and y: "bt_get (records s') k = Some y"
  shows "descends sha (x, i) (records s) k y"
proof -
  have bt: "bt_ok (records s)" using ok by (simp add: sessions_ok_def)
  note keep = descends_keep [of "records s" k y "(x, i)" sha]
  show ?thesis
  proof (cases x)
    case (Issue d b origin a now now_ms)
    then obtain r where r: "issue sha simple d b origin a now now_ms s = Some (s', r)" "i = issued_part r" using run by auto
    from issue_descends [OF ok r(1) y] show ?thesis
      using keep by (auto simp: Issue r(2) descends_def creates_def grants_def revokes_def issued_part_def)
  next
    case (Rotate d prior b now now_ms)
    with run y rotate_descends [OF ok] show ?thesis by auto
  next
    case (Authenticate cookie origin now)
    obtain s1 found where l: "lookup sha parse_str cookie origin now s = (s1, found)" by fastforce
    show ?thesis
    proof (cases found)
      case None
      have "bt_get (records s) k = Some y"
        using run y l None Authenticate lookup_cases [of sha parse_str cookie origin now s]
        by (auto simp: authenticate_def bt_get_remove split: if_splits)
      then show ?thesis using keep by (simp add: Authenticate revokes_def)
    next
      case (Some z)
      with l lookup_Some [of sha parse_str cookie origin now s s1 z] ok
      have "s1 = s" "bt_get (records s) (se_id z) = Some z" by (auto simp: sessions_ok_def)
      with run y l Some Authenticate have "bt_get (records s) k = Some y \<or> (k = se_id z \<and> y = z\<lparr>last_activity := max (last_activity z) now\<rparr>)"
        by (auto simp: authenticate_total [OF ok] bt_get_update split: if_splits)
      with \<open>bt_get (records s) (se_id z) = Some z\<close> keep show ?thesis by (auto simp: Authenticate revokes_def descends_def)
    qed
  next
    case (Lookup cookie origin now)
    have "bt_get (records s) k = Some y"
      using run y Lookup lookup_cases [of sha parse_str cookie origin now s] by (auto simp: bt_get_remove split: if_splits)
    then show ?thesis using keep by (simp add: Lookup revokes_def)
  next
    case (Touch j b now)
    have "bt_get (records s) k = Some y \<or> (\<exists>z. bt_get (records s) k = Some z \<and> y = z\<lparr>last_activity := now\<rparr>)"
      using run y Touch by (auto simp: touch_def bt_get_update split: if_splits option.splits)
    with keep show ?thesis by (auto simp: Touch revokes_def descends_def)
  next
    case (Revoke j)
    then show ?thesis using run y keep ok by (auto simp: revoke_def bt_get_remove revokes_def sessions_ok_def split: if_splits)
  next
    case (RevokeIdentity j)
    then show ?thesis using run y keep
      by (auto simp: revoke_identity_def bt_get_filter [OF bt] revokes_def split: option.splits if_splits)
  next
    case (Expire now)
    then show ?thesis using run y keep expired_get [OF ok] by (auto simp: revokes_def)
  qed
qed

definition traced_ok :: "(string \<Rightarrow> byte list) \<Rightarrow> (session_trace \<times> Sessions) option \<Rightarrow> bool" where
  "traced_ok sha st = is_none_or st (\<lambda>(trace, s). sessions_ok s
     \<and> (\<forall>k y. bt_get (records s) k = Some y \<longrightarrow> live_since sha trace y))"

interpretation session: machine "session_run_step sha simple parse_str" "traced_ok sha" for sha simple parse_str
proof
  fix st x
  assume ok: "traced_ok sha st"
  show "traced_ok sha (session_run_step sha simple parse_str st x)"
  proof (cases "session_run_step sha simple parse_str st x")
    case (Some st')
    then obtain trace s s' i where st: "st = Some (trace, s)" "session_step sha simple parse_str x s = Some (s', i)" "st' = (trace @ [(x, i)], s')"
      by (auto simp: session_run_step_def split: option.splits)
    have s: "sessions_ok s" and live: "\<And>k y. bt_get (records s) k = Some y \<Longrightarrow> live_since sha trace y" using ok st(1) by (auto simp: traced_ok_def)
    have "live_since sha (trace @ [(x, i)]) y" if "bt_get (records s') k = Some y" for k y
      using session_step_descends [OF s st(2) that] live live_since_keep live_since_new by (fastforce simp: descends_def)
    with Some st(3) session_step_ok [OF s st(2)] show ?thesis by (simp add: traced_ok_def)
  qed (simp add: traced_ok_def)
qed

lemma session_run_ok:
  assumes "Sessions_new l = Some s0" "foldl (session_run_step sha simple parse_str) (Some ([], s0)) ops = Some (trace, s)"
  shows "sessions_ok s \<and> (\<forall>k y. bt_get (records s) k = Some y \<longrightarrow> live_since sha trace y)"
proof -
  have "traced_ok sha (Some ([], s0))"
    using assms(1) by (auto simp: traced_ok_def sessions_ok_def limits_ok_def within_def Sessions_new_def split: if_splits)
  from session.run_inv [OF this, of simple parse_str ops] assms(2) show ?thesis by (simp add: traced_ok_def)
qed

lemma split_once_append: "sep \<notin> set a \<Longrightarrow> split_once sep (a @ sep # b) = Some (a, b)"
  by (induction a) auto

section \<open>Properties\<close>

text \<open>
  C7: nobody is signed in without a reason. In any run, a cookie that authenticates has the hash of a cookie
  that some earlier sign-in or rotation handed out for this session, with the binding it asked for and for
  the origin the request names; since then the session was not revoked, alone or with its identity,
  nor replaced by a rotation; and it is within its absolute lifetime.
\<close>

theorem session_auth_justified:
  assumes "Sessions_new l = Some s0" "foldl (session_run_step sha simple parse_str) (Some ([], s0)) ops = Some (trace, s)"
    and "authenticate sha parse_str cookie origin now s = Some (s', Some x)"
  shows "\<exists>pre e post i. trace = pre @ e # post \<and> snd e = Some i \<and> is_session_id i = se_id x \<and> sha (is_cookie i) = sha cookie
    \<and> grants (fst e) x \<and> se_origin x = origin \<and> list_all (\<lambda>f. \<not> revokes f x) post
    \<and> now - created_at x < (if se_binding x = None then BOOTSTRAP_LIFETIME else li_absolute (limits s))"
proof -
  note run = session_run_ok [OF assms(1,2)]
  obtain y where y: "lookup sha parse_str cookie origin now s = (s, Some y)" and x: "x = y\<lparr>last_activity := max (last_activity y) now\<rparr>"
    using assms(3) run lookup_Some [of sha parse_str cookie origin now s]
    by (auto simp: authenticate_total split: prod.splits option.splits)
  note found = lookup_Some [OF y]
  then have live: "live_since sha trace x" using run by (auto simp: x)
  have lifetime: "now - created_at x < (if se_binding x = None then BOOTSTRAP_LIFETIME else li_absolute (limits s))"
    using found by (auto simp: x session_expired_def saturating_duration_since_def split: if_splits)
  from live obtain pre e post i where "trace = pre @ e # post" "snd e = Some i" "is_session_id i = se_id x" "handle_hash x = sha (is_cookie i)"
      "grants (fst e) x" "list_all (\<lambda>f. \<not> revokes f x) post"
    by (auto simp: live_since_def creates_def is_some_and_iff)
  moreover have "se_origin x = origin" "handle_hash x = sha cookie" using found by (auto simp: x)
  ultimately show ?thesis using lifetime by metis
qed

definition demo_limits_browser :: Limits where
  "demo_limits_browser = \<lparr>li_idle = 50, li_absolute = 100, per_identity = 2, per_address = 3\<rparr>"

text \<open>An identifier as 32 hexadecimal digits.\<close>

definition hex_text :: "Uuid \<Rightarrow> string" where
  "hex_text u = map (\<lambda>k. char_of (let d = unat u div 16 ^ (31 - k) mod 16 in if d < 10 then 48 + d else 87 + d)) [0..<32]"

definition hex_parse :: "string \<Rightarrow> Uuid option" where
  "hex_parse t = Some (of_nat (foldl (\<lambda>n c. n * 16 + (let d = of_char c in if d < 58 then d - 48 else d - 87)) 0 t))"

definition plain_bytes :: "string \<Rightarrow> byte list" where
  "plain_bytes = map (\<lambda>c. of_nat (of_char c))"

definition demo_drawn :: Drawn where
  "demo_drawn = \<lparr>dr_id = 171, dr_token = replicate 43 CHR ''t'', dr_csrf = ''c''\<rparr>"

definition demo_binding :: Binding where
  "demo_binding = \<lparr>identity_id = 9, bd_revision = 1\<rparr>"

definition demo_session_ops :: "SessionOp list" where
  "demo_session_ops = [Issue demo_drawn (Some demo_binding) ''https://k'' (AddressV4 5) 10 1000, Revoke 3, Touch 171 demo_binding 20]"

definition demo_sessions :: "(session_trace \<times> Sessions) option" where
  "demo_sessions = foldl (session_run_step plain_bytes hex_text hex_parse) (Some ([], \<lparr>records = [], limits = demo_limits_browser\<rparr>)) demo_session_ops"

lemma demo_sessions_new: "Sessions_new demo_limits_browser = Some \<lparr>records = [], limits = demo_limits_browser\<rparr>"
  by code_simp

theorem session_auth_justified_witness:
  "\<exists>trace s pre e post i. demo_sessions = Some (trace, s) \<and> trace = pre @ e # post \<and> snd e = Some i
     \<and> plain_bytes (is_cookie i) = plain_bytes (hex_text 171 @ ''.'' @ replicate 43 CHR ''t'')"
proof -
  let ?c = "hex_text 171 @ ''.'' @ replicate 43 CHR ''t''"
  have "is_some_and demo_sessions (\<lambda>(_, s). is_some_and (authenticate plain_bytes hex_parse ?c ''https://k'' 30 s) (\<lambda>r. snd r \<noteq> None))"
    by code_simp
  then obtain trace s s' x where run: "demo_sessions = Some (trace, s)" "authenticate plain_bytes hex_parse ?c ''https://k'' 30 s = Some (s', Some x)"
    by (auto simp: is_some_and_iff)
  from session_auth_justified [OF demo_sessions_new run(1) [unfolded demo_sessions_def] run(2)] run(1) show ?thesis by blast
qed

text \<open>
  C8: the session store is bounded in any run: at most \<open>SESSION_LIMIT\<close> sessions, at most the configured number
  for each address and for each identity, and at most \<open>BOOTSTRAP_LIMIT\<close> anonymous ones, also when a rotation
  fails and its old session is put back.
\<close>

theorem sessions_limited:
  assumes "Sessions_new l = Some s0" "foldl (session_run_step sha simple parse_str) (Some ([], s0)) ops = Some (trace, s)"
  shows "length (records s) \<le> SESSION_LIMIT \<and> count_sessions (\<lambda>x. se_address x = a) s \<le> per_address (limits s)
    \<and> count_sessions (of_identity i) s \<le> per_identity (limits s) \<and> count_sessions (\<lambda>x. se_binding x = None) s \<le> BOOTSTRAP_LIMIT"
  using session_run_ok [OF assms] by (simp add: sessions_ok_def limits_ok_def count_within length_within)

theorem sessions_limited_witness:
  "\<exists>trace s. demo_sessions = Some (trace, s) \<and> count_sessions (of_identity 9) s \<le> per_identity (limits s)"
proof -
  have "demo_sessions \<noteq> None" by code_simp
  then obtain trace s where run: "demo_sessions = Some (trace, s)" by auto
  with sessions_limited [OF demo_sessions_new run [unfolded demo_sessions_def]] show ?thesis by blast
qed

text \<open>
  C39: a cookie that was just handed out works: first presented for the same origin before the session is idle or too
  old, it authenticates as the binding it was issued for, and its token passes the check against forgery.
\<close>

theorem session_cookie_roundtrip:
  assumes run: "issue sha simple d binding origin address now now_ms s = Some (s', Inr i)" "sessions_ok s"
    and uuid: "length (simple (dr_id d)) = 32" "CHR ''.'' \<notin> set (simple (dr_id d))" "parse_str (simple (dr_id d)) = Some (dr_id d)"
    and token: "length (dr_token d) = 43" "list_all (\<lambda>c. (of_char c :: nat) < 128) (simple (dr_id d) @ dr_token d)"
    and fresh: "later - now < (if binding = None then BOOTSTRAP_LIFETIME else min (li_idle (limits s)) (li_absolute (limits s)))"
  shows "\<exists>s'' x. authenticate sha parse_str (is_cookie i) origin later s' = Some (s'', Some x) \<and> se_binding x = binding
    \<and> se_id x = is_session_id i \<and> csrf_matches sha (is_csrf i) x"
  using run(1)
proof (cases rule: issue_cases)
  case (issued x i' expires)
  then have new: "(x, i) = new_session sha simple d binding origin (normalize_address address) now now_ms expires" by simp
  note fields = new_session_fields [OF new]
  have csrf: "se_csrf x = is_csrf i" using new by (simp add: new_session_def Let_def)
  have get: "bt_get (records s') (dr_id d) = Some x" using issued(5) by (simp add: bt_get_insert)
  have lim: "limits s' = limits s" using issued(5) by (simp add: expire_sessions_def)
  have "cookie_id parse_str (is_cookie i) = Some (dr_id d)"
    using uuid token split_once_append [OF uuid(2), of "dr_token d"] by (simp add: cookie_id_def fields(9))
  moreover have "\<not> session_expired later (limits s') x"
    using fresh by (auto simp: session_expired_def saturating_duration_since_def fields lim split: if_splits)
  ultimately have "lookup sha parse_str (is_cookie i) origin later s' = (s', Some x)"
    using get by (simp add: lookup_def fields(3,7))
  then show ?thesis
    using authenticate_total [OF sessions_ok_issue [OF run(2,1)], of sha parse_str "is_cookie i" origin later] fields csrf
    by (simp add: csrf_matches_def)
qed simp

theorem session_cookie_roundtrip_witness:
  "\<exists>s' i s'' x. issue plain_bytes hex_text demo_drawn (Some demo_binding) ''https://k'' (AddressV4 5) 10 1000 \<lparr>records = [], limits = demo_limits_browser\<rparr>
       = Some (s', Inr i)
     \<and> authenticate plain_bytes hex_parse (is_cookie i) ''https://k'' 30 s' = Some (s'', Some x) \<and> se_binding x = Some demo_binding"
proof -
  let ?s = "\<lparr>records = [], limits = demo_limits_browser\<rparr>"
  have "is_some_and (issue plain_bytes hex_text demo_drawn (Some demo_binding) ''https://k'' (AddressV4 5) 10 1000 ?s) (\<lambda>r. \<not> isl (snd r))"
    by code_simp
  then obtain s' i where run: "issue plain_bytes hex_text demo_drawn (Some demo_binding) ''https://k'' (AddressV4 5) 10 1000 ?s = Some (s', Inr i)"
    by (auto simp: is_some_and_iff isl_def) (metis sum.exhaust)
  have ok: "sessions_ok ?s" by (simp add: sessions_ok_def limits_ok_def within_def)
  have uuid: "length (hex_text (dr_id demo_drawn)) = 32" "CHR ''.'' \<notin> set (hex_text (dr_id demo_drawn))"
    "hex_parse (hex_text (dr_id demo_drawn)) = Some (dr_id demo_drawn)" by code_simp+
  have token: "length (dr_token demo_drawn) = 43" "list_all (\<lambda>c. (of_char c :: nat) < 128) (hex_text (dr_id demo_drawn) @ dr_token demo_drawn)"
    by code_simp+
  have fresh: "30 - 10 < (if Some demo_binding = None then BOOTSTRAP_LIFETIME else min (li_idle (limits ?s)) (li_absolute (limits ?s)))" by code_simp
  from session_cookie_roundtrip [where parse_str = hex_parse, OF run ok uuid token fresh] run show ?thesis by blast
qed

end
