(* ===== verification/Bc_Wire.thy ===== *)
theory Bc_Wire
  imports KP_Prelude
begin

text \<open>
  The wire formats of the Baichuan protocol: the errors of \<open>src/crates/reo-proto/src/error.rs\<close> and the
  three UDP packets of \<open>udp.rs\<close> with the XOR cipher of the discovery documents. Fields keep their
  width: \<open>u32\<close> and \<open>i32\<close> are 32-bit words, an \<open>i32\<close> by its bits. A \<open>usize\<close> has 64 bits, so converting
  a \<open>u32\<close> length to it cannot fail. The CRC-32 of the \<open>crc32fast\<close> package is the parameter \<open>crc\<close>: the
  checksum of \<open>udp_crc\<close> as a function of the bytes.
\<close>

unbundle bit_operations_syntax

named_theorems wire_defs \<open>definitions of the encoders and decoders\<close>

type_synonym u32 = "32 word"
type_synonym i32 = "32 word"

section \<open>Errors\<close>

datatype BcError =
  Incomplete
| BadMagic "byte list"
| InvalidHeader string
| Encryption string
| XmlParse string
| Protocol string
| AuthFailed u32
| WrongRole
| BufferTooSmall (needed: usize) (available: usize)
| MessageTooLarge (message_size: usize) (message_max: usize)
| MediaFrameTooLarge (frame_size: usize) (frame_max: usize)
| InvalidUdpPacket string
| UdpChecksumMismatch (expected: u32) (actual: u32)

section \<open>Words as bytes\<close>

text \<open>\<open>u32::to_le_bytes\<close> and \<open>u32::from_le_bytes\<close>.\<close>

definition to_le_bytes :: "u32 \<Rightarrow> byte list" where
  "to_le_bytes w = [ucast w, ucast (drop_bit 8 w), ucast (drop_bit 16 w), ucast (drop_bit 24 w)]"

definition from_le_bytes :: "byte list \<Rightarrow> u32" where
  "from_le_bytes bs =
     ucast (bs ! 0) OR push_bit 8 (ucast (bs ! 1)) OR push_bit 16 (ucast (bs ! 2)) OR push_bit 24 (ucast (bs ! 3))"

definition push_u32 :: "u32 \<Rightarrow> byte list \<Rightarrow> byte list" where
  [wire_defs]: "push_u32 v output = output @ to_le_bytes v"

definition push_i32 :: "i32 \<Rightarrow> byte list \<Rightarrow> byte list" where
  [wire_defs]: "push_i32 v output = output @ to_le_bytes v"

definition read_u32 :: "byte list \<Rightarrow> usize \<Rightarrow> BcError + u32" where
  "read_u32 datagram offset =
     (if offset + 4 \<le> length datagram then Inr (from_le_bytes (take 4 (drop offset datagram)))
      else Inl (InvalidUdpPacket ''truncated header''))"

definition read_i32 :: "byte list \<Rightarrow> usize \<Rightarrow> BcError + i32" where
  "read_i32 datagram offset = read_u32 datagram offset"

definition read_len :: "byte list \<Rightarrow> usize \<Rightarrow> BcError + usize" where
  "read_len datagram offset = and_then (read_u32 datagram offset) (\<lambda>v. Inr (unat v))"

definition ensure_datagram_len :: "byte list \<Rightarrow> usize \<Rightarrow> usize \<Rightarrow> BcError + unit" where
  "ensure_datagram_len datagram header_len payload_len =
     (if length datagram \<noteq> saturating_add_u64 header_len payload_len
      then Inl (InvalidUdpPacket ''payload length mismatch'') else Inr ())"

section \<open>Packets\<close>

definition DISCOVERY_MAGIC :: u32 where
  "DISCOVERY_MAGIC = 0x2a87cf3a"

definition ACK_MAGIC :: u32 where
  "ACK_MAGIC = 0x2a87cf20"

definition DATA_MAGIC :: u32 where
  "DATA_MAGIC = 0x2a87cf10"

definition DATA_HEADER_LEN :: usize where
  "DATA_HEADER_LEN = 20"

definition ACK_HEADER_LEN :: usize where
  "ACK_HEADER_LEN = 28"

definition DISCOVERY_HEADER_LEN :: usize where
  "DISCOVERY_HEADER_LEN = 20"

definition XML_KEY :: "u32 list" where
  "XML_KEY = [0x1f2d3c4b, 0x5a6c7f8d, 0x38172e4b, 0x8271635a, 0x863f1a2b, 0xa5c6f7d8, 0x8371e1b4, 0x17f2d3a5]"

record UdpDiscovery =
  disc_transmission_id :: u32
  disc_xml :: "byte list"

record UdpAck =
  ack_connection_id :: i32
  ack_group_id :: u32
  ack_packet_id :: u32
  ack_latency :: u32
  ack_received :: "byte list"

record UdpData =
  data_connection_id :: i32
  data_packet_id :: u32
  data_payload :: "byte list"

datatype BcUdpPacket = Discovery UdpDiscovery | Ack UdpAck | Data UdpData

definition UdpAck_empty :: "i32 \<Rightarrow> UdpAck" where
  "UdpAck_empty connection_id =
     \<lparr>ack_connection_id = connection_id, ack_group_id = 0xffffffff, ack_packet_id = 0xffffffff, ack_latency = 0, ack_received = []\<rparr>"

text \<open>The bytes of the key words, each shifted by the transmission number, repeat along the payload.\<close>

definition xml_key_bytes :: "u32 \<Rightarrow> byte list" where
  "xml_key_bytes transmission_id = concat (map (\<lambda>word. to_le_bytes (word + transmission_id)) XML_KEY)"

definition crypt_xml :: "u32 \<Rightarrow> byte list \<Rightarrow> byte list" where
  "crypt_xml transmission_id payload =
     (let key = xml_key_bytes transmission_id
      in map (\<lambda>(i, b). b XOR key ! (i mod length key)) (zip [0..<length payload] payload))"

text \<open>\<open>u32::try_from\<close> of a length.\<close>

definition u32_len :: "string \<Rightarrow> byte list \<Rightarrow> BcError + u32" where
  "u32_len message bs = (if length bs < 2 ^ 32 then Inr (word_of_nat (length bs)) else Inl (InvalidUdpPacket message))"

definition encode_discovery :: "(byte list \<Rightarrow> u32) \<Rightarrow> UdpDiscovery \<Rightarrow> BcError + byte list" where
  [wire_defs]: "encode_discovery crc discovery =
     and_then (u32_len ''discovery payload is too large'' (disc_xml discovery)) (\<lambda>payload_len.
       let encrypted = crypt_xml (disc_transmission_id discovery) (disc_xml discovery);
           datagram = push_u32 DISCOVERY_MAGIC [];
           datagram = push_u32 payload_len datagram;
           datagram = push_u32 1 datagram;
           datagram = push_u32 (disc_transmission_id discovery) datagram;
           datagram = push_u32 (crc encrypted) datagram
       in Inr (datagram @ encrypted))"

definition encode_ack :: "UdpAck \<Rightarrow> BcError + byte list" where
  [wire_defs]: "encode_ack ack =
     and_then (u32_len ''ACK payload is too large'' (ack_received ack)) (\<lambda>payload_len.
       let datagram = push_u32 ACK_MAGIC [];
           datagram = push_i32 (ack_connection_id ack) datagram;
           datagram = push_u32 0 datagram;
           datagram = push_u32 (ack_group_id ack) datagram;
           datagram = push_u32 (ack_packet_id ack) datagram;
           datagram = push_u32 (ack_latency ack) datagram;
           datagram = push_u32 payload_len datagram
       in Inr (datagram @ ack_received ack))"

definition encode_data :: "UdpData \<Rightarrow> BcError + byte list" where
  [wire_defs]: "encode_data data =
     and_then (u32_len ''data payload is too large'' (data_payload data)) (\<lambda>payload_len.
       let datagram = push_u32 DATA_MAGIC [];
           datagram = push_i32 (data_connection_id data) datagram;
           datagram = push_u32 0 datagram;
           datagram = push_u32 (data_packet_id data) datagram;
           datagram = push_u32 payload_len datagram
       in Inr (datagram @ data_payload data))"

definition decode_discovery :: "(byte list \<Rightarrow> u32) \<Rightarrow> byte list \<Rightarrow> BcError + BcUdpPacket" where
  [wire_defs]: "decode_discovery crc datagram =
     and_then (read_len datagram 4) (\<lambda>payload_len.
     and_then (ensure_datagram_len datagram DISCOVERY_HEADER_LEN payload_len) (\<lambda>_.
     and_then (read_u32 datagram 8) (\<lambda>marker.
     if marker \<noteq> 1 then Inl (InvalidUdpPacket ''invalid discovery marker'')
     else
       and_then (read_u32 datagram 12) (\<lambda>transmission_id.
       and_then (read_u32 datagram 16) (\<lambda>expected.
         let encrypted = drop DISCOVERY_HEADER_LEN datagram; actual = crc encrypted
         in if actual \<noteq> expected then Inl (UdpChecksumMismatch expected actual)
            else Inr (Discovery \<lparr>disc_transmission_id = transmission_id, disc_xml = crypt_xml transmission_id encrypted\<rparr>))))))"

definition decode_ack :: "byte list \<Rightarrow> BcError + BcUdpPacket" where
  [wire_defs]: "decode_ack datagram =
     and_then (read_len datagram 24) (\<lambda>payload_len.
     and_then (ensure_datagram_len datagram ACK_HEADER_LEN payload_len) (\<lambda>_.
     and_then (read_u32 datagram 8) (\<lambda>marker.
     if marker \<noteq> 0 then Inl (InvalidUdpPacket ''invalid ACK marker'')
     else
       and_then (read_i32 datagram 4) (\<lambda>connection_id.
       and_then (read_u32 datagram 12) (\<lambda>group_id.
       and_then (read_u32 datagram 16) (\<lambda>packet_id.
       and_then (read_u32 datagram 20) (\<lambda>latency.
         Inr (Ack \<lparr>ack_connection_id = connection_id, ack_group_id = group_id, ack_packet_id = packet_id,
                   ack_latency = latency, ack_received = drop ACK_HEADER_LEN datagram\<rparr>))))))))"

definition decode_data :: "byte list \<Rightarrow> BcError + BcUdpPacket" where
  [wire_defs]: "decode_data datagram =
     and_then (read_len datagram 16) (\<lambda>payload_len.
     and_then (ensure_datagram_len datagram DATA_HEADER_LEN payload_len) (\<lambda>_.
     and_then (read_u32 datagram 8) (\<lambda>marker.
     if marker \<noteq> 0 then Inl (InvalidUdpPacket ''invalid data marker'')
     else
       and_then (read_i32 datagram 4) (\<lambda>connection_id.
       and_then (read_u32 datagram 12) (\<lambda>packet_id.
         Inr (Data \<lparr>data_connection_id = connection_id, data_packet_id = packet_id,
                    data_payload = drop DATA_HEADER_LEN datagram\<rparr>))))))"

definition decode :: "(byte list \<Rightarrow> u32) \<Rightarrow> byte list \<Rightarrow> BcError + BcUdpPacket" where
  [wire_defs]: "decode crc datagram =
     and_then (read_u32 datagram 0) (\<lambda>magic.
       if magic = DISCOVERY_MAGIC then decode_discovery crc datagram
       else if magic = ACK_MAGIC then decode_ack datagram
       else if magic = DATA_MAGIC then decode_data datagram
       else Inl (InvalidUdpPacket ''unknown magic''))"

fun encode :: "(byte list \<Rightarrow> u32) \<Rightarrow> BcUdpPacket \<Rightarrow> BcError + byte list" where
  "encode crc (Discovery discovery) = encode_discovery crc discovery"
| "encode crc (Ack ack) = encode_ack ack"
| "encode crc (Data data) = encode_data data"

section \<open>Lemmas\<close>

lemma length_to_le_bytes [simp]: "length (to_le_bytes w) = 4"
  by (simp add: to_le_bytes_def)

lemma from_to_le_bytes [simp]: "from_le_bytes (to_le_bytes w) = w"
proof (rule bit_word_eqI)
  fix n assume n: "n < LENGTH(32)"
  then consider "n < 8" | "8 \<le> n" "n < 16" | "16 \<le> n" "n < 24" | "24 \<le> n" by linarith
  then show "bit (from_le_bytes (to_le_bytes w)) n = bit w n"
    using n by cases (auto simp: from_le_bytes_def to_le_bytes_def bit_or_iff bit_push_bit_iff bit_ucast_iff bit_drop_bit_eq)
qed

lemma bit_byte_high [simp]: "8 \<le> n \<Longrightarrow> bit (b :: byte) n = False"
  using bit_imp_le_length [of b n] by auto

lemma from_le_bytes_sum:
  "from_le_bytes bs = ucast (bs ! 0) + (ucast (bs ! 1) * 0x100 + (ucast (bs ! 2) * 0x10000 + ucast (bs ! 3) * 0x1000000))"
proof -
  have "ucast (bs ! 0) + (push_bit 8 (ucast (bs ! 1)) + (push_bit 16 (ucast (bs ! 2)) + push_bit 24 (ucast (bs ! 3) :: u32))) = from_le_bytes bs"
    unfolding from_le_bytes_def
    by (subst disjunctive_add; (subst disjunctive_add)?; (subst disjunctive_add)?)
       (auto simp: bit_or_iff bit_push_bit_iff bit_ucast_iff or.assoc)
  then show ?thesis by (simp add: push_bit_eq_mult)
qed

text \<open>For evaluation: a word is the sum of its bytes, and the question mark operator a case distinction.\<close>

lemma from_le_bytes_code [code]:
  "from_le_bytes [a, b, c, d] = word_of_nat (unat a + unat b * 0x100 + unat c * 0x10000 + unat d * 0x1000000)"
  by (simp add: from_le_bytes_sum)

declare and_then_def [code_unfold]

lemma byte_list_4:
  assumes "length bs = 4"
  obtains a b c d where "bs = [a, b, c, d]"
  using assms by (auto simp: numeral_eq_Suc length_Suc_conv)

lemma to_from_le_bytes [simp]: "length bs = 4 \<Longrightarrow> to_le_bytes (from_le_bytes bs) = bs"
  by (erule byte_list_4)
     (auto simp: from_le_bytes_def to_le_bytes_def bit_or_iff bit_push_bit_iff bit_ucast_iff bit_drop_bit_eq
        intro!: bit_word_eqI)

lemma length_crypt_xml [simp]: "length (crypt_xml t p) = length p"
  by (simp add: crypt_xml_def Let_def)

lemma crypt_xml_nth:
  "i < length p \<Longrightarrow> crypt_xml t p ! i = p ! i XOR xml_key_bytes t ! (i mod length (xml_key_bytes t))"
  by (simp add: crypt_xml_def Let_def)

lemma crypt_xml_involution [simp]: "crypt_xml t (crypt_xml t p) = p"
  by (rule nth_equalityI) (simp_all add: crypt_xml_nth xor.assoc)

lemma u32_len_Inr: "u32_len m bs = Inr w \<longleftrightarrow> length bs = unat w"
proof -
  have "unat w < 2 ^ 32" using unsigned_less [of w] by simp
  moreover have "unat (word_of_nat (length bs) :: u32) = length bs" if "length bs < 2 ^ 32"
    using that by (simp add: unat_of_nat)
  ultimately show ?thesis by (auto simp: u32_len_def)
qed

text \<open>Reading a word is splitting the datagram there.\<close>

lemma read_u32_Inr: "read_u32 d n = Inr w \<longleftrightarrow> n + 4 \<le> length d \<and> drop n d = to_le_bytes w @ drop (n + 4) d"
proof -
  have "from_le_bytes (take 4 (drop n d)) = w \<longleftrightarrow> take 4 (drop n d) = to_le_bytes w" if "n + 4 \<le> length d"
    using that by (metis from_to_le_bytes to_from_le_bytes length_take length_drop min.absorb2 add_le_imp_le_diff add.commute)
  moreover have "drop n d = take 4 (drop n d) @ drop (n + 4) d"
    by (metis append_take_drop_id drop_drop add.commute)
  ultimately show ?thesis
    by (auto simp: read_u32_def)
qed

lemma read_len_Inr: "read_len d n = Inr l \<longleftrightarrow> (\<exists>w. read_u32 d n = Inr w \<and> l = unat w)"
  by (auto simp: read_len_def and_then_Inr)

lemma ensure_datagram_len_Inr:
  "length d < u64_max \<Longrightarrow> ensure_datagram_len d h l = Inr u \<longleftrightarrow> length d = h + l"
  by (auto simp: ensure_datagram_len_def saturating_add_u64_def)

text \<open>A header of five or seven words.\<close>

lemma read_u32_drop: "read_u32 d n = Inr w \<Longrightarrow> drop n d = to_le_bytes w @ drop (n + 4) d"
  by (simp add: read_u32_Inr)

lemmas read_u32_drops = read_u32_drop [of _ 0, simplified] read_u32_drop [of _ 4, simplified] read_u32_drop [of _ 8, simplified]
  read_u32_drop [of _ 12, simplified] read_u32_drop [of _ 16, simplified] read_u32_drop [of _ 20, simplified]
  read_u32_drop [of _ 24, simplified]

lemma words_5_of:
  "d = to_le_bytes a @ to_le_bytes b @ to_le_bytes c @ to_le_bytes e @ to_le_bytes f @ r \<Longrightarrow>
   read_u32 d 0 = Inr a \<and> read_u32 d 4 = Inr b \<and> read_u32 d 8 = Inr c \<and> read_u32 d 12 = Inr e \<and> read_u32 d 16 = Inr f"
  by (simp add: read_u32_Inr)

lemma words_7_of:
  "d = to_le_bytes a @ to_le_bytes b @ to_le_bytes c @ to_le_bytes e @ to_le_bytes f @ to_le_bytes g @ to_le_bytes h @ r \<Longrightarrow>
   read_u32 d 0 = Inr a \<and> read_u32 d 4 = Inr b \<and> read_u32 d 8 = Inr c \<and> read_u32 d 12 = Inr e \<and> read_u32 d 16 = Inr f
     \<and> read_u32 d 20 = Inr g \<and> read_u32 d 24 = Inr h"
  by (simp add: read_u32_Inr)

lemma words_5:
  "read_u32 d 0 = Inr a \<and> read_u32 d 4 = Inr b \<and> read_u32 d 8 = Inr c \<and> read_u32 d 12 = Inr e \<and> read_u32 d 16 = Inr f
   \<longleftrightarrow> d = to_le_bytes a @ to_le_bytes b @ to_le_bytes c @ to_le_bytes e @ to_le_bytes f @ drop 20 d" (is "?lhs \<longleftrightarrow> ?rhs")
proof
  assume ?lhs
  then have "d = to_le_bytes a @ drop 4 d" "drop 4 d = to_le_bytes b @ drop 8 d" "drop 8 d = to_le_bytes c @ drop 12 d"
    "drop 12 d = to_le_bytes e @ drop 16 d" "drop 16 d = to_le_bytes f @ drop 20 d"
    by (blast dest: read_u32_drops)+
  then show ?rhs by metis
next
  show "?rhs \<Longrightarrow> ?lhs" by (rule words_5_of)
qed

lemma words_7:
  "read_u32 d 0 = Inr a \<and> read_u32 d 4 = Inr b \<and> read_u32 d 8 = Inr c \<and> read_u32 d 12 = Inr e \<and> read_u32 d 16 = Inr f
     \<and> read_u32 d 20 = Inr g \<and> read_u32 d 24 = Inr h
   \<longleftrightarrow> d = to_le_bytes a @ to_le_bytes b @ to_le_bytes c @ to_le_bytes e @ to_le_bytes f @ to_le_bytes g @ to_le_bytes h @ drop 28 d"
  (is "?lhs \<longleftrightarrow> ?rhs")
proof
  assume ?lhs
  then have "d = to_le_bytes a @ drop 4 d" "drop 4 d = to_le_bytes b @ drop 8 d" "drop 8 d = to_le_bytes c @ drop 12 d"
    "drop 12 d = to_le_bytes e @ drop 16 d" "drop 16 d = to_le_bytes f @ drop 20 d" "drop 20 d = to_le_bytes g @ drop 24 d"
    "drop 24 d = to_le_bytes h @ drop 28 d"
    by (blast dest: read_u32_drops)+
  then show ?rhs by metis
next
  show "?rhs \<Longrightarrow> ?lhs" by (rule words_7_of)
qed

lemmas decode_simps = wire_defs and_then_Inr read_len_Inr ensure_datagram_len_Inr read_i32_def Let_def
  DISCOVERY_HEADER_LEN_def ACK_HEADER_LEN_def DATA_HEADER_LEN_def

lemma magics_distinct: "DATA_MAGIC \<noteq> ACK_MAGIC" "DATA_MAGIC \<noteq> DISCOVERY_MAGIC" "ACK_MAGIC \<noteq> DISCOVERY_MAGIC"
  "ACK_MAGIC \<noteq> DATA_MAGIC" "DISCOVERY_MAGIC \<noteq> DATA_MAGIC" "DISCOVERY_MAGIC \<noteq> ACK_MAGIC"
  by (simp_all add: DATA_MAGIC_def ACK_MAGIC_def DISCOVERY_MAGIC_def)

lemma decode_data_Inr:
  assumes "length d < u64_max"
  shows "decode crc d = Inr (Data x) \<longleftrightarrow>
    (\<exists>l. (read_u32 d 0 = Inr DATA_MAGIC \<and> read_u32 d 4 = Inr (data_connection_id x) \<and> read_u32 d 8 = Inr 0
          \<and> read_u32 d 12 = Inr (data_packet_id x) \<and> read_u32 d 16 = Inr l)
       \<and> length d = 20 + unat l \<and> data_payload x = drop 20 d)"
  using assms magics_distinct by (cases x) (auto simp: decode_simps split: if_splits)

lemma decode_ack_Inr:
  assumes "length d < u64_max"
  shows "decode crc d = Inr (Ack x) \<longleftrightarrow>
    (\<exists>l. (read_u32 d 0 = Inr ACK_MAGIC \<and> read_u32 d 4 = Inr (ack_connection_id x) \<and> read_u32 d 8 = Inr 0
          \<and> read_u32 d 12 = Inr (ack_group_id x) \<and> read_u32 d 16 = Inr (ack_packet_id x)
          \<and> read_u32 d 20 = Inr (ack_latency x) \<and> read_u32 d 24 = Inr l)
       \<and> length d = 28 + unat l \<and> ack_received x = drop 28 d)"
  using assms magics_distinct by (cases x) (auto simp: decode_simps split: if_splits)

lemma decode_discovery_Inr:
  assumes "length d < u64_max"
  shows "decode crc d = Inr (Discovery x) \<longleftrightarrow>
    (\<exists>l. (read_u32 d 0 = Inr DISCOVERY_MAGIC \<and> read_u32 d 4 = Inr l \<and> read_u32 d 8 = Inr 1
          \<and> read_u32 d 12 = Inr (disc_transmission_id x) \<and> read_u32 d 16 = Inr (crc (drop 20 d)))
       \<and> length d = 20 + unat l \<and> disc_xml x = crypt_xml (disc_transmission_id x) (drop 20 d))"
  using assms magics_distinct by (cases x) (auto simp: decode_simps split: if_splits)

lemma encode_data_Inr:
  "encode_data x = Inr d \<longleftrightarrow> (\<exists>l. length (data_payload x) = unat l \<and>
     d = to_le_bytes DATA_MAGIC @ to_le_bytes (data_connection_id x) @ to_le_bytes 0 @ to_le_bytes (data_packet_id x)
         @ to_le_bytes l @ data_payload x)"
  by (auto simp: wire_defs and_then_Inr u32_len_Inr Let_def)

lemma encode_ack_Inr:
  "encode_ack x = Inr d \<longleftrightarrow> (\<exists>l. length (ack_received x) = unat l \<and>
     d = to_le_bytes ACK_MAGIC @ to_le_bytes (ack_connection_id x) @ to_le_bytes 0 @ to_le_bytes (ack_group_id x)
         @ to_le_bytes (ack_packet_id x) @ to_le_bytes (ack_latency x) @ to_le_bytes l @ ack_received x)"
  by (auto simp: wire_defs and_then_Inr u32_len_Inr Let_def)

lemma encode_discovery_Inr:
  "encode_discovery crc x = Inr d \<longleftrightarrow> (\<exists>l. length (disc_xml x) = unat l \<and>
     d = to_le_bytes DISCOVERY_MAGIC @ to_le_bytes l @ to_le_bytes 1 @ to_le_bytes (disc_transmission_id x)
         @ to_le_bytes (crc (crypt_xml (disc_transmission_id x) (disc_xml x)))
         @ crypt_xml (disc_transmission_id x) (disc_xml x))"
  by (auto simp: wire_defs and_then_Inr u32_len_Inr Let_def)

lemma decode_encode_data: "length d < u64_max \<Longrightarrow> decode crc d = Inr (Data x) \<longleftrightarrow> encode_data x = Inr d"
  unfolding decode_data_Inr words_5 encode_data_Inr by (cases x) auto

lemma decode_encode_ack: "length d < u64_max \<Longrightarrow> decode crc d = Inr (Ack x) \<longleftrightarrow> encode_ack x = Inr d"
  unfolding decode_ack_Inr words_7 encode_ack_Inr by (cases x) auto

lemma decode_encode_discovery:
  "length d < u64_max \<Longrightarrow> decode crc d = Inr (Discovery x) \<longleftrightarrow> encode_discovery crc x = Inr d"
  unfolding decode_discovery_Inr words_5 encode_discovery_Inr by (cases x) auto

text \<open>
  What the users of a packet codec rely on: decoding a datagram of addressable length gives a packet
  exactly if encoding that packet gives the datagram.
\<close>

locale packet_codec =
  fixes enc :: "'p \<Rightarrow> 'e + byte list"
    and dec :: "byte list \<Rightarrow> 'e + 'p"
  assumes dec_iff: "length d < u64_max \<Longrightarrow> dec d = Inr p \<longleftrightarrow> enc p = Inr d"
begin

lemma dec_enc: "enc p = Inr d \<Longrightarrow> length d < u64_max \<Longrightarrow> dec d = Inr p"
  by (simp add: dec_iff)

lemma enc_inj: "enc p = Inr d \<Longrightarrow> enc q = Inr d \<Longrightarrow> length d < u64_max \<Longrightarrow> p = q"
  using dec_enc by (metis sum.inject(2))

end

interpretation udp_codec: packet_codec "encode crc" "decode crc" for crc
proof
  show "length d < u64_max \<Longrightarrow> decode crc d = Inr p \<longleftrightarrow> encode crc p = Inr d" for d p
    by (cases p) (simp_all add: decode_encode_data decode_encode_ack decode_encode_discovery)
qed

section \<open>Property\<close>

text \<open>
  C36: The packet codec is a bijection between the packets and the datagrams that decode: for every
  datagram of addressable length and every checksum function, decoding the datagram gives a packet
  exactly if encoding that packet gives the datagram. So no field is lost on the way, and no datagram
  but the encoder's own is accepted for a packet.
\<close>

theorem udp_packet_codec:
  assumes "length d < u64_max"
  shows "decode crc d = Inr p \<longleftrightarrow> encode crc p = Inr d"
  using assms by (rule udp_codec.dec_iff)

theorem udp_packet_codec_witness:
  "decode (\<lambda>_. 0) [0x10, 0xcf, 0x87, 0x2a, 20, 0, 0, 0, 0, 0, 0, 0, 5, 0, 0, 0, 2, 0, 0, 0, 104, 105]
     = Inr (Data \<lparr>data_connection_id = 20, data_packet_id = 5, data_payload = [104, 105]\<rparr>)
   \<and> encode (\<lambda>_. 0) (Data \<lparr>data_connection_id = 20, data_packet_id = 5, data_payload = [104, 105]\<rparr>)
     = Inr [0x10, 0xcf, 0x87, 0x2a, 20, 0, 0, 0, 0, 0, 0, 0, 5, 0, 0, 0, 2, 0, 0, 0, 104, 105]"
proof -
  have "encode (\<lambda>_. 0) (Data \<lparr>data_connection_id = 20, data_packet_id = 5, data_payload = [104, 105]\<rparr>)
     = Inr [0x10, 0xcf, 0x87, 0x2a, 20, 0, 0, 0, 0, 0, 0, 0, 5, 0, 0, 0, 2, 0, 0, 0, 104, 105]"
    by code_simp
  with udp_packet_codec [of "[0x10, 0xcf, 0x87, 0x2a, 20, 0, 0, 0, 0, 0, 0, 0, 5, 0, 0, 0, 2, 0, 0, 0, 104, 105]" "\<lambda>_. 0"
      "Data \<lparr>data_connection_id = 20, data_packet_id = 5, data_payload = [104, 105]\<rparr>"]
  show ?thesis by (simp add: u64_max_def)
qed

end
