(* ===== verification/Bc_Udp.thy ===== *)
theory Bc_Udp
  imports Bc_Wire
begin

text \<open>
  The reliable transport over UDP datagrams, \<open>BcUdpTransport\<close> of \<open>src/crates/reo-proto/src/udp.rs\<close>. Packet
  numbers are 32-bit words and wrap. A method that changes the transport and may fail returns its
  result beside the new state, because what it changed before the error stays changed. The clock is an
  argument. Adding a duration to an instant panics past the last instant: such a call, and a loop that
  does not end, is \<open>None\<close>.
\<close>

section \<open>Deadlines\<close>

partial_function (option) advance_deadline :: "instant \<Rightarrow> duration \<Rightarrow> instant \<Rightarrow> instant option" where
  "advance_deadline deadline interval now =
     (if deadline \<le> now
      then Option.bind (checked_add_instant deadline interval) (\<lambda>deadline. advance_deadline deadline interval now)
      else Some deadline)"

declare advance_deadline.simps [code]

section \<open>Transport\<close>

record BcUdpConfig =
  mtu :: usize
  ack_interval :: duration
  resend_interval :: duration

definition BcUdpConfig_default :: BcUdpConfig where
  "BcUdpConfig_default = \<lparr>mtu = 1350, ack_interval = 10000000, resend_interval = 500000000\<rparr>"

datatype BcUdpOutput = Datagram "byte list" | Payload "byte list" | Timeout instant

record BcUdpTransport =
  client_id :: i32
  camera_id :: i32
  udp_config :: BcUdpConfig
  next_send_packet :: u32
  next_receive_packet :: u32
  sent :: "(u32, UdpData) btree"
  received :: "(u32, byte list) btree"
  outputs :: "BcUdpOutput list"
  next_ack :: instant
  next_resend :: instant

definition MAX_RECEIVE_WINDOW :: u32 where
  "MAX_RECEIVE_WINDOW = 256"

definition MAX_IN_FLIGHT_PACKETS :: usize where
  "MAX_IN_FLIGHT_PACKETS = 4096"

definition BcUdpTransport_new :: "i32 \<Rightarrow> i32 \<Rightarrow> instant \<Rightarrow> BcUdpConfig \<Rightarrow> (BcError + BcUdpTransport) option" where
  "BcUdpTransport_new client camera now config =
     (if mtu config \<le> DATA_HEADER_LEN then Some (Inl (InvalidUdpPacket ''MTU is too small''))
      else if ack_interval config = 0 \<or> resend_interval config = 0
      then Some (Inl (InvalidUdpPacket ''ACK and resend intervals must be non-zero''))
      else
        Option.bind (checked_add_instant now (ack_interval config)) (\<lambda>ack.
        Option.bind (checked_add_instant now (resend_interval config)) (\<lambda>resend.
          Some (Inr \<lparr>client_id = client, camera_id = camera, udp_config = config, next_send_packet = 0,
                     next_receive_packet = 0, sent = [], received = [], outputs = [],
                     next_ack = ack, next_resend = resend\<rparr>))))"

text \<open>\<open>slice::chunks\<close>; a chunk size of zero panics in the source and is excluded by the constructor.\<close>

function chunks :: "nat \<Rightarrow> 'a list \<Rightarrow> 'a list list" where
  "chunks n xs = (if xs = [] \<or> n = 0 then [] else take n xs # chunks n (drop n xs))"
  by auto
termination by (relation "measure (\<lambda>(n, xs). length xs)") (auto simp: length_greater_0_conv)

declare chunks.simps [simp del]

definition div_ceil :: "nat \<Rightarrow> nat \<Rightarrow> nat" where
  "div_ceil a b = (a + b - 1) div b"

fun queue_chunks :: "(byte list \<Rightarrow> u32) \<Rightarrow> byte list list \<Rightarrow> BcUdpTransport \<Rightarrow> (BcError + unit) \<times> BcUdpTransport" where
  "queue_chunks crc [] t = (Inr (), t)"
| "queue_chunks crc (chunk # cs) t =
     (let data = \<lparr>data_connection_id = camera_id t, data_packet_id = next_send_packet t, data_payload = chunk\<rparr>;
          t = t\<lparr>next_send_packet := next_send_packet t + 1\<rparr>
      in case encode crc (Data data) of
           Inl e \<Rightarrow> (Inl e, t)
         | Inr datagram \<Rightarrow>
             queue_chunks crc cs
               (t\<lparr>outputs := outputs t @ [Datagram datagram], sent := bt_insert (data_packet_id data) data (sent t)\<rparr>))"

definition queue_payload :: "(byte list \<Rightarrow> u32) \<Rightarrow> byte list \<Rightarrow> BcUdpTransport \<Rightarrow> (BcError + unit) \<times> BcUdpTransport" where
  "queue_payload crc payload t =
     (let chunk_size = mtu (udp_config t) - DATA_HEADER_LEN;
          packet_count = div_ceil (length payload) chunk_size
      in if packet_count > saturating_sub_u64 MAX_IN_FLIGHT_PACKETS (length (sent t))
         then (Inl (Protocol ''UDP send window is full''), t)
         else queue_chunks crc (chunks chunk_size payload) t)"

lemma length_bt_remove_less: "bt_get m k = Some v \<Longrightarrow> length (bt_remove k m) < length m"
proof (induction m)
  case (Cons e m)
  then show ?case
    by (auto simp: bt_get_def bt_remove_def le_imp_less_Suc split: if_splits)
qed simp

function flush_loop :: "u32 \<Rightarrow> (u32, byte list) btree \<Rightarrow> byte list \<Rightarrow> u32 \<times> (u32, byte list) btree \<times> byte list" where
  "flush_loop next waiting payload =
     (case bt_get waiting next of
        None \<Rightarrow> (next, waiting, payload)
      | Some chunk \<Rightarrow> flush_loop (next + 1) (bt_remove next waiting) (payload @ chunk))"
  by auto
termination by (relation "measure (\<lambda>(n, r, p). length r)") (auto simp: length_bt_remove_less)

declare flush_loop.simps [simp del]

definition flush_received :: "BcUdpTransport \<Rightarrow> BcUdpTransport" where
  "flush_received t =
     (let (next, rest, payload) = flush_loop (next_receive_packet t) (received t) [];
          t = t\<lparr>next_receive_packet := next, received := rest\<rparr>
      in if payload \<noteq> [] then t\<lparr>outputs := outputs t @ [Payload payload]\<rparr> else t)"

definition build_ack :: "BcUdpTransport \<Rightarrow> UdpAck" where
  "build_ack t =
     (let distances = filter (\<lambda>d. d < MAX_RECEIVE_WINDOW) (map (\<lambda>e. fst e - next_receive_packet t) (received t));
          bits = (if distances = [] then [] else replicate (unat (Max (set distances)) + 1) 0);
          bits = foldl (\<lambda>bits d. bits[unat d := 1]) bits distances
      in \<lparr>ack_connection_id = camera_id t, ack_group_id = 0, ack_packet_id = next_receive_packet t - 1,
          ack_latency = 0, ack_received = bits\<rparr>)"

fun remove_acked :: "u32 \<Rightarrow> byte list \<Rightarrow> (u32, UdpData) btree \<Rightarrow> (u32, UdpData) btree" where
  "remove_acked packet_id [] m = m"
| "remove_acked packet_id (flag # flags) m =
     remove_acked (packet_id + 1) flags (if flag \<noteq> 0 then bt_remove packet_id m else m)"

definition handle_ack :: "UdpAck \<Rightarrow> BcUdpTransport \<Rightarrow> BcUdpTransport" where
  "handle_ack ack t =
     t\<lparr>sent := remove_acked (ack_packet_id ack + 1) (ack_received ack)
         (filter (\<lambda>e. let distance = fst e - ack_packet_id ack in distance \<noteq> 0 \<and> distance < push_bit 31 1) (sent t))\<rparr>"

definition handle_data :: "UdpData \<Rightarrow> BcUdpTransport \<Rightarrow> (BcError + unit) \<times> BcUdpTransport" where
  "handle_data data t =
     (let distance = data_packet_id data - next_receive_packet t
      in if distance < MAX_RECEIVE_WINDOW
         then (Inr (), flush_received
                (if bt_get (received t) (data_packet_id data) = None
                 then t\<lparr>received := bt_insert (data_packet_id data) (data_payload data) (received t)\<rparr> else t))
         else if distance < push_bit 31 1
         then (Inl (InvalidUdpPacket ''data packet is outside the receive window''), t)
         else (Inr (), t))"

definition handle_datagram :: "(byte list \<Rightarrow> u32) \<Rightarrow> byte list \<Rightarrow> BcUdpTransport \<Rightarrow> (BcError + unit) \<times> BcUdpTransport" where
  "handle_datagram crc datagram t =
     (case decode crc datagram of
        Inl e \<Rightarrow> (Inl e, t)
      | Inr (Discovery d) \<Rightarrow> (Inr (), t)
      | Inr (Ack ack) \<Rightarrow> (Inr (), if ack_connection_id ack = client_id t then handle_ack ack t else t)
      | Inr (Data data) \<Rightarrow> if data_connection_id data = client_id t then handle_data data t else (Inr (), t))"

fun push_resends :: "(byte list \<Rightarrow> u32) \<Rightarrow> UdpData list \<Rightarrow> BcUdpTransport \<Rightarrow> (BcError + unit) \<times> BcUdpTransport" where
  "push_resends crc [] t = (Inr (), t)"
| "push_resends crc (data # ds) t =
     (case encode crc (Data data) of
        Inl e \<Rightarrow> (Inl e, t)
      | Inr datagram \<Rightarrow> push_resends crc ds (t\<lparr>outputs := outputs t @ [Datagram datagram]\<rparr>))"

definition poll_output :: "(byte list \<Rightarrow> u32) \<Rightarrow> instant \<Rightarrow> BcUdpTransport \<Rightarrow> ((BcError + BcUdpOutput) \<times> BcUdpTransport) option" where
  "poll_output crc now t =
     (case outputs t of
        output # rest \<Rightarrow> Some (Inr output, t\<lparr>outputs := rest\<rparr>)
      | [] \<Rightarrow>
          if next_ack t \<le> now
          then Option.bind (advance_deadline (next_ack t) (ack_interval (udp_config t)) now) (\<lambda>deadline.
                 let t = t\<lparr>next_ack := deadline\<rparr>
                 in Some (and_then (encode crc (Ack (build_ack t))) (\<lambda>datagram. Inr (Datagram datagram)), t))
          else if next_resend t \<le> now
          then Option.bind (advance_deadline (next_resend t) (resend_interval (udp_config t)) now) (\<lambda>deadline.
                 let t = t\<lparr>next_resend := deadline\<rparr>
                 in case push_resends crc (map snd (sent t)) t of
                      (Inl e, t) \<Rightarrow> Some (Inl e, t)
                    | (Inr _, t) \<Rightarrow>
                        (case outputs t of
                           output # rest \<Rightarrow> Some (Inr output, t\<lparr>outputs := rest\<rparr>)
                         | [] \<Rightarrow> Some (Inr (Timeout (min (next_ack t) (next_resend t))), t)))
          else Some (Inr (Timeout (min (next_ack t) (next_resend t))), t))"

definition pending_send_packets :: "BcUdpTransport \<Rightarrow> usize" where
  "pending_send_packets t = length (sent t)"

section \<open>The pump\<close>

text \<open>
  The loop of \<open>run_udp_pump\<close> in \<open>src/src/reolink.rs\<close> that polls the transport at one moment until it asks
  to wait: the datagrams it sends and the payloads it passes on, in order. That neither the socket nor
  the payload queue fails, and that no stop is requested, is taken for granted here.
\<close>

partial_function (option) pump_polls :: "(byte list \<Rightarrow> u32) \<Rightarrow> instant \<Rightarrow> BcUdpTransport \<Rightarrow> BcUdpOutput list
    \<Rightarrow> ((BcError + instant) \<times> BcUdpOutput list \<times> BcUdpTransport) option" where
  "pump_polls crc now t acc =
     Option.bind (poll_output crc now t) (\<lambda>(result, t).
       case result of
         Inl e \<Rightarrow> Some (Inl e, acc, t)
       | Inr (Timeout deadline) \<Rightarrow> Some (Inr deadline, acc, t)
       | Inr output \<Rightarrow> pump_polls crc now t (acc @ [output]))"

declare pump_polls.simps [code]

end
