(* ===== verification/Bc_Udp_Laws.thy ===== *)
theory Bc_Udp_Laws
  imports Bc_Udp
begin

text \<open>
  How the transport of \<open>Bc_Udp\<close> behaves between two ends: arithmetic on wrapping packet numbers, what the
  loops compute, the two ends with a network between them, and the invariant that ties what one end
  holds to what the other has taken.
\<close>

section \<open>Numbers of packets\<close>

abbreviation num :: "nat \<Rightarrow> u32" where
  "num k \<equiv> word_of_nat k"

lemma distance_ahead: "r \<le> k \<Longrightarrow> k < r + 2 ^ 32 \<Longrightarrow> unat (num k - num r) = k - r"
  by (simp add: unat_of_nat flip: of_nat_diff)

lemma distance_behind:
  assumes "k < r" "r \<le> k + 2 ^ 32"
  shows "unat (num k - num r) = 2 ^ 32 - (r - k)"
proof -
  have "num (2 ^ 32) = 0" by simp
  then have "num k - num r = num (k + 2 ^ 32) - num r"
    by (simp only: of_nat_add add_0_right)
  then have "num k - num r = num (k + 2 ^ 32 - r)"
    using assms by (simp only: of_nat_diff)
  moreover have "k + 2 ^ 32 - r < 2 ^ 32" "k + 2 ^ 32 - r = 2 ^ 32 - (r - k)" using assms by simp_all
  ultimately show ?thesis by (simp add: unat_of_nat)
qed

lemma num_inj: "k \<in> {lo..<lo + 2 ^ 32} \<Longrightarrow> j \<in> {lo..<lo + 2 ^ 32} \<Longrightarrow> num k = num j \<longleftrightarrow> k = j"
  using distance_ahead [of k j] distance_ahead [of j k] by (cases k j rule: linorder_cases) auto

lemma half_range: "w < push_bit 31 (1 :: u32) \<longleftrightarrow> unat w < 2 ^ 31"
  by (simp add: word_less_nat_alt)

lemma in_window: "w < MAX_RECEIVE_WINDOW \<longleftrightarrow> unat w < 256"
  by (simp add: word_less_nat_alt MAX_RECEIVE_WINDOW_def)

lemma zero_distance: "(w :: u32) \<noteq> 0 \<longleftrightarrow> unat w \<noteq> 0"
  by (simp add: unat_eq_0)

section \<open>Maps keyed by packet number\<close>

text \<open>The map holds \<open>f k\<close> for the packets of the set, each under its number in 32 bits.\<close>

definition numbered :: "(nat \<Rightarrow> 'v) \<Rightarrow> nat set \<Rightarrow> (u32, 'v) btree \<Rightarrow> bool" where
  "numbered f S m \<longleftrightarrow> bt_ok m \<and> (\<forall>w. bt_get m w = None \<longleftrightarrow> w \<notin> num ` S) \<and> (\<forall>k\<in>S. bt_get m (num k) = Some (f k))"

lemma numberedD:
  assumes "numbered f S m" "bt_get m w = Some x"
  obtains k where "k \<in> S" "w = num k" "x = f k"
proof -
  have "w \<in> num ` S" using assms by (metis numbered_def option.distinct(1))
  with assms that show thesis by (auto simp: numbered_def)
qed

lemma numbered_empty [simp]: "numbered f {} []"
  by (simp add: numbered_def)

lemma numbered_cong: "numbered f S m \<Longrightarrow> (\<And>k. k \<in> S \<Longrightarrow> f k = g k) \<Longrightarrow> numbered g S m"
  by (simp add: numbered_def)

lemma num_image: "S \<subseteq> {lo..<lo + 2 ^ 32} \<Longrightarrow> k \<in> {lo..<lo + 2 ^ 32} \<Longrightarrow> num k \<in> num ` S \<longleftrightarrow> k \<in> S"
  using num_inj [of k lo] by blast

lemma numbered_get:
  assumes "numbered f S m" "S \<subseteq> {lo..<lo + 2 ^ 32}" "k \<in> {lo..<lo + 2 ^ 32}"
  shows "bt_get m (num k) = (if k \<in> S then Some (f k) else None)"
  using assms num_image [OF assms(2,3)] by (simp add: numbered_def)

lemma numbered_insert:
  assumes "numbered f S m" "S \<subseteq> {lo..<lo + 2 ^ 32}" "k \<in> {lo..<lo + 2 ^ 32}"
  shows "numbered f (insert k S) (bt_insert (num k) (f k) m)"
proof -
  have "j = k" if "j \<in> S" "num j = num k" for j
    using num_inj [OF _ assms(3), of j] assms(2) that by blast
  with assms(1) show ?thesis by (auto simp: numbered_def bt_ok_insert bt_get_insert)
qed

lemma numbered_remove:
  assumes "numbered f S m" "S \<subseteq> {lo..<lo + 2 ^ 32}" "k \<in> {lo..<lo + 2 ^ 32}"
  shows "numbered f (S - {k}) (bt_remove (num k) m)"
proof -
  have "j = k" if "j \<in> S" "num j = num k" for j
    using num_inj [OF _ assms(3), of j] assms(2) that by blast
  with assms(1) show ?thesis by (auto simp: numbered_def bt_ok_remove bt_get_remove)
qed

lemma numbered_filter:
  assumes "numbered f S m" "S \<subseteq> {lo..<lo + 2 ^ 32}" "\<And>k. k \<in> S \<Longrightarrow> P (num k, f k) \<longleftrightarrow> Q k"
  shows "numbered f {k \<in> S. Q k} (filter P m)"
proof -
  have get: "bt_get (filter P m) (num k) = (if Q k then Some (f k) else None)" if "k \<in> S" for k
    using assms(1,3) that by (simp add: numbered_def bt_get_filter)
  have "w \<in> num ` S" if "bt_get (filter P m) w = Some x" for w x
    using assms(1) that by (auto simp: numbered_def bt_get_filter split: option.splits if_splits elim: numberedD [OF assms(1)])
  moreover have "num k \<notin> num ` {k \<in> S. Q k}" if "k \<in> S" "\<not> Q k" for k
    using num_image [of "{k \<in> S. Q k}" lo k] assms(2) that by blast
  ultimately have "bt_get (filter P m) w = None \<longleftrightarrow> w \<notin> num ` {k \<in> S. Q k}" for w
    using get by (cases "w \<in> num ` S") (fastforce split: if_splits)+
  with get assms(1) show ?thesis by (simp add: numbered_def bt_ok_filter)
qed

lemma numbered_keys: "numbered f S m \<Longrightarrow> fst ` set m = num ` S"
  by (auto simp: numbered_def bt_get_def map_of_eq_None_iff)

lemma numbered_length:
  assumes "numbered f S m" "S \<subseteq> {lo..<lo + 2 ^ 32}"
  shows "length m = card S"
proof -
  have "inj_on num S"
    by (rule inj_onI) (use num_inj assms(2) in blast)
  then have "card (fst ` set m) = card S" by (simp add: numbered_keys [OF assms(1)] card_image)
  moreover have "distinct (map fst m)" using assms(1) by (simp add: numbered_def bt_ok_distinct)
  ultimately show ?thesis using distinct_card [of "map fst m"] by simp
qed

lemma numbered_values: "numbered f S m \<Longrightarrow> snd ` set m = f ` S"
proof
  assume n: "numbered f S m"
  then have get: "(w, x) \<in> set m \<longleftrightarrow> bt_get m w = Some x" for w x
    using bt.entries_get [of m w x] by (simp add: numbered_def)
  show "snd ` set m \<subseteq> f ` S"
  proof
    fix x assume "x \<in> snd ` set m"
    then obtain w where "bt_get m w = Some x" by (auto simp: get)
    then show "x \<in> f ` S" by (rule numberedD [OF n]) blast
  qed
  have "(num k, f k) \<in> set m" if "k \<in> S" for k using n that by (simp add: numbered_def get)
  then show "f ` S \<subseteq> snd ` set m" by force
qed

section \<open>Loops\<close>

lemma advance_deadline_returns:
  assumes "0 < interval" "now + interval \<le> instant_max"
  shows "\<exists>d n. advance_deadline deadline interval now = Some d \<and> now < d \<and> d \<le> max deadline (now + interval)
    \<and> d = deadline + n * interval"
proof (induction "Suc now - deadline" arbitrary: deadline rule: less_induct)
  case less
  show ?case
  proof (cases "deadline \<le> now")
    case True
    then have "checked_add_instant deadline interval = Some (deadline + interval)"
      using assms by (simp add: checked_add_instant_def)
    then have step: "advance_deadline deadline interval now = advance_deadline (deadline + interval) interval now"
      using True by (subst advance_deadline.simps) simp
    have "Suc now - (deadline + interval) < Suc now - deadline" using True assms(1) by simp
    then obtain d n where d: "advance_deadline (deadline + interval) interval now = Some d" "now < d"
      "d \<le> max (deadline + interval) (now + interval)" "d = deadline + interval + n * interval"
      using less by blast
    then have "d = deadline + Suc n * interval" by simp
    moreover have "d \<le> max deadline (now + interval)" using d(3) True by simp
    ultimately show ?thesis unfolding step using d(1,2) by blast
  next
    case False
    then show ?thesis by (subst advance_deadline.simps) (auto intro: exI [of _ 0])
  qed
qed

lemma length_chunks:
  assumes "0 < n"
  shows "length (chunks n xs) = div_ceil (length xs) n"
proof (induction n xs rule: chunks.induct)
  case (1 n xs)
  show ?case
  proof (cases "xs = [] \<or> n = 0")
    case True
    then show ?thesis by (subst chunks.simps) (cases n, auto simp: div_ceil_def)
  next
    case False
    then have "Suc ((length xs - n + n - 1) div n) = (length xs + n - 1) div n"
      using div_add_self2 [of n "length xs - 1"] by (cases "n \<le> length xs") (simp_all add: Suc_le_eq)
    with 1 False show ?thesis by (subst chunks.simps) (simp add: div_ceil_def)
  qed
qed

lemma concat_chunks: "0 < n \<Longrightarrow> concat (chunks n xs) = xs"
proof (induction n xs rule: chunks.induct)
  case (1 n xs)
  then show ?case by (subst chunks.simps) auto
qed

lemma chunks_length: "c \<in> set (chunks n xs) \<Longrightarrow> c \<noteq> [] \<and> length c \<le> n"
proof (induction n xs rule: chunks.induct)
  case (1 n xs)
  then show ?case by (subst (asm) (2) chunks.simps) (auto split: if_splits)
qed

lemma flush_loop_effect:
  assumes "numbered f R m" "R \<subseteq> {r..<r + 2 ^ 31}" "flush_loop (num r) m p = (w, m', p')"
  obtains r' where "r \<le> r'" "w = num r'" "{r..<r'} \<subseteq> R" "r' \<notin> R" "numbered f (R - {r..<r'}) m'"
    "p' = p @ concat (map f [r..<r'])"
  using assms
proof (induction "num r" m p arbitrary: r R thesis rule: flush_loop.induct)
  case (1 m p r R)
  have window: "R \<subseteq> {r..<r + 2 ^ 32}" "r \<in> {r..<r + 2 ^ 32}" using 1(4) by auto
  note get = numbered_get [OF 1(3) window]
  show ?case
  proof (cases "r \<in> R")
    case False
    then have "w = num r" "m' = m" "p' = p" using 1(5) get by (simp_all add: flush_loop.simps)
    with False 1(2) [of r] 1(3) show ?thesis by simp
  next
    case True
    let ?R = "R - {r}"
    have rest: "numbered f ?R (bt_remove (num r) m)" by (rule numbered_remove [OF 1(3) window])
    have sub: "?R \<subseteq> {Suc r..<Suc r + 2 ^ 31}" using 1(4) by (auto simp: Suc_le_eq le_neq_implies_less)
    have step: "flush_loop (num (Suc r)) (bt_remove (num r) m) (p @ f r) = (w, m', p')"
      using 1(5) get True by (subst (asm) flush_loop.simps) (simp add: add.commute)
    obtain r' where r': "Suc r \<le> r'" "w = num r'" "{Suc r..<r'} \<subseteq> ?R" "r' \<notin> ?R"
      "numbered f (?R - {Suc r..<r'}) m'" "p' = (p @ f r) @ concat (map f [Suc r..<r'])"
      using 1(1) [of "f r" "Suc r" ?R] get True rest sub step by (auto simp: add.commute)
    have "{r..<r'} = insert r {Suc r..<r'}" using r'(1) by auto
    then have "R - {r..<r'} = ?R - {Suc r..<r'}" "{r..<r'} \<subseteq> R" "r' \<notin> R"
      using r'(1,3,4) True by auto
    moreover have "p' = p @ concat (map f [r..<r'])" using r'(1,6) by (simp add: upt_conv_Cons)
    ultimately show ?thesis using r'(1,2,5) 1(2) [of r'] by simp
  qed
qed

lemma remove_acked_effect:
  assumes "numbered f S m" "S \<subseteq> {q..<q + 2 ^ 31}" "length bits \<le> 256"
  shows "numbered f {k \<in> S. \<not> (q \<le> k \<and> k < q + length bits \<and> bits ! (k - q) \<noteq> 0)} (remove_acked (num q) bits m)"
proof -
  have "numbered f {k \<in> S. \<not> (i \<le> k \<and> k < i + length bits \<and> bits ! (k - i) \<noteq> 0)} (remove_acked (num i) bits m)"
    if "numbered f S m" "S \<subseteq> {q..<q + 2 ^ 31}" "q \<le> i" "i + length bits \<le> q + 256" for i
    using that
  proof (induction bits arbitrary: i S m)
    case (Cons b bits)
    let ?S = "if b \<noteq> 0 then S - {i} else S"
    let ?m = "if b \<noteq> 0 then bt_remove (num i) m else m"
    have "S \<subseteq> {q..<q + 2 ^ 32}" "i \<in> {q..<q + 2 ^ 32}" using Cons.prems(2-4) by auto
    then have "numbered f ?S ?m" using numbered_remove [OF Cons.prems(1)] Cons.prems(1) by simp
    then have "numbered f {k \<in> ?S. \<not> (Suc i \<le> k \<and> k < Suc i + length bits \<and> bits ! (k - Suc i) \<noteq> 0)}
        (remove_acked (num (Suc i)) bits ?m)"
      using Cons.prems by (intro Cons.IH) (auto split: if_splits)
    moreover have "k \<in> ?S \<and> \<not> (Suc i \<le> k \<and> k < Suc i + length bits \<and> bits ! (k - Suc i) \<noteq> 0) \<longleftrightarrow>
        k \<in> S \<and> \<not> (i \<le> k \<and> k < i + length (b # bits) \<and> (b # bits) ! (k - i) \<noteq> 0)" for k
      by (cases k i rule: linorder_cases) (auto simp: nth_Cons')
    ultimately show ?case by (simp add: add.commute)
  qed simp
  with assms show ?thesis by simp
qed

lemma flag_bits:
  "length (foldl (\<lambda>bits d. bits[unat d := 1]) bits ds) = length bits"
  "i < length bits \<Longrightarrow> foldl (\<lambda>bits d. bits[unat (d :: u32) := (1 :: byte)]) bits ds ! i = (if i \<in> unat ` set ds then 1 else bits ! i)"
  by (induction ds arbitrary: bits) (auto simp: nth_list_update)

lemma build_ack_bits:
  assumes "numbered f R (received t)" "R \<subseteq> {r<..<r + 256}" "next_receive_packet t = num r"
  shows "length (ack_received (build_ack t)) \<le> 256"
    and "i < length (ack_received (build_ack t)) \<Longrightarrow> ack_received (build_ack t) ! i \<noteq> 0 \<longleftrightarrow> r + i \<in> R"
    and "k \<in> R \<Longrightarrow> k - r < length (ack_received (build_ack t))"
proof -
  let ?ds = "filter (\<lambda>d. d < MAX_RECEIVE_WINDOW) (map (\<lambda>e. fst e - next_receive_packet t) (received t))"
  have dist: "unat (num k - num r) = k - r" if "k \<in> R" for k
    using assms(2) that by (intro distance_ahead) auto
  have R256: "k - r < 256" if "k \<in> R" for k
    using assms(2) that by fastforce
  have "set ?ds = {w - num r | w. w \<in> fst ` set (received t) \<and> w - num r < MAX_RECEIVE_WINDOW}"
    using assms(3) by auto
  also have "\<dots> = (\<lambda>k. num k - num r) ` R"
    using dist R256 by (auto simp: numbered_keys [OF assms(1)] in_window)
  finally have ds: "set ?ds = (\<lambda>k. num k - num r) ` R" .
  have un: "unat ` set ?ds = (\<lambda>k. k - r) ` R"
    unfolding ds by (simp add: image_image dist)
  let ?bits = "if ?ds = [] then [] else replicate (unat (Max (set ?ds)) + 1) (0 :: byte)"
  have ack: "ack_received (build_ack t) = foldl (\<lambda>bits d. bits[unat d := 1]) ?bits ?ds"
    by (simp add: build_ack_def Let_def)
  have mx: "unat d \<le> unat (Max (set ?ds))" if "d \<in> set ?ds" for d
    using that by (simp add: word_le_nat_alt [symmetric])
  have "unat (Max (set ?ds)) < 256" if "?ds \<noteq> []"
    using Max_in [of "set ?ds"] that in_window by force
  then show "length (ack_received (build_ack t)) \<le> 256" by (auto simp: ack flag_bits)
  show "k - r < length (ack_received (build_ack t))" if "k \<in> R"
  proof -
    have "num k - num r \<in> set ?ds" using that ds by blast
    then have "k - r \<le> unat (Max (set ?ds))" "?ds \<noteq> []" using mx dist [OF that] by fastforce+
    then show ?thesis by (simp add: ack flag_bits)
  qed
  show "ack_received (build_ack t) ! i \<noteq> 0 \<longleftrightarrow> r + i \<in> R" if "i < length (ack_received (build_ack t))"
  proof -
    have "?bits ! i = 0" using that unfolding ack flag_bits by (auto simp del: replicate_Suc split: if_splits)
    moreover have "i < length ?bits" using that by (simp only: ack flag_bits(1))
    ultimately have "ack_received (build_ack t) ! i = (if i \<in> (\<lambda>k. k - r) ` R then 1 else 0)"
      using flag_bits(2) [of i ?bits ?ds] by (simp only: ack un)
    then have "ack_received (build_ack t) ! i \<noteq> 0 \<longleftrightarrow> i \<in> (\<lambda>k. k - r) ` R" by (simp split: if_splits)
    also have "\<dots> \<longleftrightarrow> r + i \<in> R" using assms(2) by force
    finally show ?thesis .
  qed
qed

lemma push_resends_effect:
  assumes "\<forall>d \<in> set ds. \<exists>b. encode_data d = Inr b"
  shows "push_resends crc ds t = (Inr (), t\<lparr>outputs := outputs t @ map (\<lambda>d. Datagram (projr (encode_data d))) ds\<rparr>)"
  using assms by (induction ds arbitrary: t) auto

lemma handle_ack_rest:
  "next_send_packet (handle_ack x t) = next_send_packet t" "next_receive_packet (handle_ack x t) = next_receive_packet t"
  "received (handle_ack x t) = received t" "outputs (handle_ack x t) = outputs t" "camera_id (handle_ack x t) = camera_id t"
  "client_id (handle_ack x t) = client_id t" "udp_config (handle_ack x t) = udp_config t"
  by (simp_all add: handle_ack_def)

section \<open>Two ends and a network\<close>

text \<open>
  Two transports exchange datagrams over a network that may lose, repeat and reorder them and deliver
  foreign ones. Beside its transport an end records what an observer sees: the packets it was given to
  send, how many of them were handed to the socket, how many packets of the peer it took in order, and
  the bytes its reader got. A datagram on the network carries the number its 32-bit packet number
  abbreviates.
\<close>

record udp_end =
  transport :: BcUdpTransport
  written :: "byte list list"
  polled :: nat
  taken :: nat
  read_bytes :: "byte list"

record udp_net =
  near :: udp_end
  far :: udp_end
  near_out :: "(nat \<times> byte list) list"
  far_out :: "(nat \<times> byte list) list"

definition start_end :: "BcUdpTransport \<Rightarrow> udp_end" where
  "start_end t = \<lparr>transport = t, written = [], polled = 0, taken = 0, read_bytes = []\<rparr>"

definition start_net :: "BcUdpTransport \<Rightarrow> BcUdpTransport \<Rightarrow> udp_net" where
  "start_net a b = \<lparr>near = start_end a, far = start_end b, near_out = [], far_out = []\<rparr>"

definition queue_end :: "(byte list \<Rightarrow> u32) \<Rightarrow> byte list \<Rightarrow> udp_end \<Rightarrow> udp_end" where
  "queue_end crc payload e =
     (case queue_payload crc payload (transport e) of
        (Inl _, t) \<Rightarrow> e\<lparr>transport := t\<rparr>
      | (Inr _, t) \<Rightarrow> e\<lparr>transport := t, written := written e @ chunks (mtu (udp_config (transport e)) - DATA_HEADER_LEN) payload\<rparr>)"

definition stamp :: "(byte list \<Rightarrow> u32) \<Rightarrow> udp_end \<Rightarrow> byte list \<Rightarrow> nat" where
  "stamp crc e d =
     (case decode crc d of
        Inr (Data x) \<Rightarrow> length (written e) - unat (num (length (written e)) - data_packet_id x)
      | _ \<Rightarrow> taken e)"

definition is_data :: "(byte list \<Rightarrow> u32) \<Rightarrow> byte list \<Rightarrow> bool" where
  "is_data crc d = (case decode crc d of Inr (Data x) \<Rightarrow> True | _ \<Rightarrow> False)"

definition poll_end :: "(byte list \<Rightarrow> u32) \<Rightarrow> instant \<Rightarrow> udp_end \<Rightarrow> (udp_end \<times> (nat \<times> byte list) list) option" where
  "poll_end crc now e =
     map_option (\<lambda>(result, t).
       case result of
         Inr (Datagram d) \<Rightarrow>
           (e\<lparr>transport := t, polled := (if is_data crc d then max (polled e) (Suc (stamp crc e d)) else polled e)\<rparr>,
            [(stamp crc e d, d)])
       | Inr (Payload p) \<Rightarrow> (e\<lparr>transport := t, read_bytes := read_bytes e @ p\<rparr>, [])
       | _ \<Rightarrow> (e\<lparr>transport := t\<rparr>, []))
     (poll_output crc now (transport e))"

definition receive_end :: "(byte list \<Rightarrow> u32) \<Rightarrow> byte list \<Rightarrow> udp_end \<Rightarrow> udp_end" where
  "receive_end crc d e =
     (let t = snd (handle_datagram crc d (transport e))
      in e\<lparr>transport := t, taken := taken e + unat (next_receive_packet t - next_receive_packet (transport e))\<rparr>)"

text \<open>
  The one thing assumed of the network: a datagram is not delivered after the numbers have gone half
  way round since it was sent. A data packet is compared with what the end has taken, an
  acknowledgement with what the end has sent.
\<close>

definition fresh :: "(byte list \<Rightarrow> u32) \<Rightarrow> udp_end \<Rightarrow> nat \<Rightarrow> byte list \<Rightarrow> bool" where
  "fresh crc e m d =
     (case decode crc d of
        Inr (Data x) \<Rightarrow> taken e \<le> m + 2 ^ 31
      | Inr (Ack x) \<Rightarrow> length (written e) < m + 2 ^ 31
      | _ \<Rightarrow> True)"

definition foreign :: "(byte list \<Rightarrow> u32) \<Rightarrow> udp_end \<Rightarrow> byte list \<Rightarrow> bool" where
  "foreign crc e d =
     (case decode crc d of
        Inr (Data x) \<Rightarrow> data_connection_id x \<noteq> client_id (transport e)
      | Inr (Ack x) \<Rightarrow> ack_connection_id x \<noteq> client_id (transport e)
      | _ \<Rightarrow> True)"

inductive end_step :: "(byte list \<Rightarrow> u32) \<Rightarrow> udp_net \<Rightarrow> udp_net \<Rightarrow> bool" for crc where
  queues: "end_step crc s (s\<lparr>near := queue_end crc payload (near s)\<rparr>)"
| polls: "poll_end crc now (near s) = Some (e, ds) \<Longrightarrow> end_step crc s (s\<lparr>near := e, near_out := near_out s @ ds\<rparr>)"
| delivers: "(m, d) \<in> set (far_out s) \<Longrightarrow> fresh crc (near s) m d \<Longrightarrow>
    end_step crc s (s\<lparr>near := receive_end crc d (near s)\<rparr>)"
| noise: "foreign crc (near s) d \<Longrightarrow> end_step crc s (s\<lparr>near := receive_end crc d (near s)\<rparr>)"

definition mirror :: "udp_net \<Rightarrow> udp_net" where
  "mirror s = \<lparr>near = far s, far = near s, near_out = far_out s, far_out = near_out s\<rparr>"

inductive net_step :: "(byte list \<Rightarrow> u32) \<Rightarrow> udp_net \<Rightarrow> udp_net \<Rightarrow> bool" for crc where
  at_near: "end_step crc s s' \<Longrightarrow> net_step crc s s'"
| at_far: "end_step crc (mirror s) s' \<Longrightarrow> net_step crc s (mirror s')"

section \<open>Invariant\<close>

definition pkt :: "udp_end \<Rightarrow> nat \<Rightarrow> UdpData" where
  "pkt e k = \<lparr>data_connection_id = camera_id (transport e), data_packet_id = num k, data_payload = written e ! k\<rparr>"

definition pkt_bytes :: "udp_end \<Rightarrow> nat \<Rightarrow> byte list" where
  "pkt_bytes e k = projr (encode_data (pkt e k))"

definition datagrams :: "BcUdpOutput list \<Rightarrow> BcUdpOutput list" where
  "datagrams outs = filter (\<lambda>x. case x of Datagram d \<Rightarrow> True | _ \<Rightarrow> False) outs"

definition payloads :: "BcUdpOutput list \<Rightarrow> byte list" where
  "payloads outs = concat (map (\<lambda>x. case x of Payload p \<Rightarrow> p | _ \<Rightarrow> []) outs)"

lemma datagrams_simps [simp]:
  "datagrams [] = []" "datagrams (Datagram d # outs) = Datagram d # datagrams outs"
  "datagrams (Payload p # outs) = datagrams outs" "datagrams (Timeout i # outs) = datagrams outs"
  "datagrams (outs @ outs') = datagrams outs @ datagrams outs'"
  "datagrams (map (\<lambda>d. Datagram (f d)) ds) = map (\<lambda>d. Datagram (f d)) ds"
  by (simp_all add: datagrams_def filter_id_conv)

lemma payloads_simps [simp]:
  "payloads [] = []" "payloads (Datagram d # outs) = payloads outs"
  "payloads (Payload p # outs) = p @ payloads outs" "payloads (Timeout i # outs) = payloads outs"
  "payloads (outs @ outs') = payloads outs @ payloads outs'"
  "payloads (map (\<lambda>d. Datagram (f d)) ds) = []"
  by (simp_all add: payloads_def)

text \<open>The sending half of an end: \<open>S\<close> are the packets that wait for an acknowledgement.\<close>

definition sender_ok :: "udp_end \<Rightarrow> nat set \<Rightarrow> bool" where
  "sender_ok e S \<longleftrightarrow>
     (let t = transport e; n = length (written e)
      in next_send_packet t = num n \<and> numbered (pkt e) S (sent t) \<and> S \<subseteq> {..<n} \<and> card S \<le> 4096
         \<and> (\<forall>k\<in>S. n \<le> k + 4352) \<and> (\<forall>k\<in>S. {k + 256..<n} \<subseteq> S)
         \<and> (\<forall>c\<in>set (written e). length c < 2 ^ 32)
         \<and> DATA_HEADER_LEN < mtu (udp_config t) \<and> mtu (udp_config t) \<le> 2 ^ 32)"

definition queue_ok :: "udp_end \<Rightarrow> bool" where
  "queue_ok e \<longleftrightarrow> polled e \<le> length (written e) \<and>
     (\<exists>ks. datagrams (outputs (transport e)) = map (\<lambda>k. Datagram (pkt_bytes e k)) (ks @ [polled e..<length (written e)])
        \<and> (\<forall>k\<in>set ks. k < polled e \<and> polled e \<le> k + 4352))"

text \<open>The receiving half, of the packets \<open>ws\<close> of the peer: \<open>R\<close> are those that arrived early.\<close>

definition receiver_ok :: "udp_end \<Rightarrow> byte list list \<Rightarrow> nat set \<Rightarrow> bool" where
  "receiver_ok e ws R \<longleftrightarrow>
     next_receive_packet (transport e) = num (taken e) \<and> numbered ((!) ws) R (received (transport e))
     \<and> R \<subseteq> {taken e<..<taken e + 256} \<and> R \<subseteq> {..<length ws} \<and> taken e \<le> length ws
     \<and> read_bytes e @ payloads (outputs (transport e)) = concat (take (taken e) ws)"

definition data_ok :: "(byte list \<Rightarrow> u32) \<Rightarrow> udp_end \<Rightarrow> nat \<times> byte list \<Rightarrow> bool" where
  "data_ok crc e md \<longleftrightarrow> (\<forall>x. decode crc (snd md) = Inr (Data x) \<longrightarrow> fst md < polled e \<and> x = pkt e (fst md))"

definition ack_ok :: "(byte list \<Rightarrow> u32) \<Rightarrow> udp_end \<Rightarrow> nat set \<Rightarrow> nat \<times> byte list \<Rightarrow> bool" where
  "ack_ok crc e R md \<longleftrightarrow> (\<forall>x. decode crc (snd md) = Inr (Ack x) \<longrightarrow>
     fst md \<le> taken e \<and> ack_packet_id x = num (fst md) - 1 \<and> length (ack_received x) \<le> 256
     \<and> (\<forall>i < length (ack_received x). ack_received x ! i \<noteq> 0 \<longrightarrow> fst md + i < taken e \<or> fst md + i \<in> R))"

definition link :: "(byte list \<Rightarrow> u32) \<Rightarrow> udp_end \<Rightarrow> udp_end \<Rightarrow> (nat \<times> byte list) list \<Rightarrow> (nat \<times> byte list) list \<Rightarrow> bool" where
  "link crc a b ab ba \<longleftrightarrow>
     (\<exists>S R. sender_ok a S \<and> queue_ok a \<and> receiver_ok b (written a) R \<and> R \<subseteq> {..<polled a} \<and> taken b \<le> polled a
        \<and> {taken b..<length (written a)} \<subseteq> S \<union> R
        \<and> (\<forall>md\<in>set ab. data_ok crc a md) \<and> (\<forall>md\<in>set ba. ack_ok crc b R md))"

definition net_ok :: "(byte list \<Rightarrow> u32) \<Rightarrow> udp_net \<Rightarrow> bool" where
  "net_ok crc s \<longleftrightarrow> link crc (near s) (far s) (near_out s) (far_out s) \<and> link crc (far s) (near s) (far_out s) (near_out s)"

subsection \<open>What each half of an end depends on\<close>

definition same_sender :: "udp_end \<Rightarrow> udp_end \<Rightarrow> bool" where
  "same_sender e e' \<longleftrightarrow> next_send_packet (transport e') = next_send_packet (transport e) \<and> sent (transport e') = sent (transport e)
     \<and> datagrams (outputs (transport e')) = datagrams (outputs (transport e)) \<and> camera_id (transport e') = camera_id (transport e)
     \<and> udp_config (transport e') = udp_config (transport e) \<and> written e' = written e \<and> polled e' = polled e"

definition same_receiver :: "udp_end \<Rightarrow> udp_end \<Rightarrow> bool" where
  "same_receiver e e' \<longleftrightarrow> next_receive_packet (transport e') = next_receive_packet (transport e)
     \<and> received (transport e') = received (transport e) \<and> taken e' = taken e
     \<and> read_bytes e' @ payloads (outputs (transport e')) = read_bytes e @ payloads (outputs (transport e))"

lemma same_sender_cong:
  assumes "same_sender e e'"
  shows "pkt e' = pkt e" "sender_ok e' = sender_ok e" "queue_ok e' = queue_ok e" "data_ok crc e' = data_ok crc e"
    "written e' = written e" "polled e' = polled e"
proof -
  show p: "pkt e' = pkt e" using assms by (simp add: same_sender_def pkt_def fun_eq_iff)
  have b: "pkt_bytes e' = pkt_bytes e" by (simp add: pkt_bytes_def p fun_eq_iff)
  show "sender_ok e' = sender_ok e" "queue_ok e' = queue_ok e" "data_ok crc e' = data_ok crc e"
    "written e' = written e" "polled e' = polled e"
    using assms by (simp_all add: same_sender_def sender_ok_def queue_ok_def data_ok_def fun_eq_iff p b Let_def)
qed

lemma same_receiver_cong:
  assumes "same_receiver e e'"
  shows "receiver_ok e' = receiver_ok e" "ack_ok crc e' = ack_ok crc e" "taken e' = taken e"
  using assms by (simp_all add: same_receiver_def receiver_ok_def ack_ok_def fun_eq_iff)

lemma link_cong:
  assumes "same_sender a a'" "same_receiver b b'" "link crc a b ab ba"
  shows "link crc a' b' ab ba"
  using assms(3) by (simp add: link_def same_sender_cong [OF assms(1)] same_receiver_cong [OF assms(2)])

lemma same_refl [simp]: "same_sender e e" "same_receiver e e"
  by (simp_all add: same_sender_def same_receiver_def)

section \<open>Each operation keeps the invariant\<close>

lemma sender_okD:
  assumes "sender_ok e S"
  shows "next_send_packet (transport e) = num (length (written e))" "numbered (pkt e) S (sent (transport e))"
    "S \<subseteq> {..<length (written e)}" "card S \<le> 4096" "k \<in> S \<Longrightarrow> length (written e) \<le> k + 4352"
    "k \<in> S \<Longrightarrow> {k + 256..<length (written e)} \<subseteq> S" "c \<in> set (written e) \<Longrightarrow> length c < 2 ^ 32"
    "DATA_HEADER_LEN < mtu (udp_config (transport e))" "mtu (udp_config (transport e)) \<le> 2 ^ 32"
  using assms by (simp_all add: sender_ok_def Let_def)

lemma receiver_okD:
  assumes "receiver_ok e ws R"
  shows "next_receive_packet (transport e) = num (taken e)" "numbered ((!) ws) R (received (transport e))"
    "R \<subseteq> {taken e<..<taken e + 256}" "R \<subseteq> {..<length ws}" "taken e \<le> length ws"
    "read_bytes e @ payloads (outputs (transport e)) = concat (take (taken e) ws)"
  using assms by (simp_all add: receiver_ok_def)

lemma recent_window: "k < n \<Longrightarrow> n \<le> k + 4352 \<Longrightarrow> k \<in> {n - 4352..<n - 4352 + 2 ^ 32}" for k n :: nat
  by (simp add: le_diff_conv)

lemma sender_window:
  assumes "sender_ok e S"
  shows "S \<subseteq> {length (written e) - 4352..<length (written e) - 4352 + 2 ^ 32}"
    and "length (sent (transport e)) = card S"
proof -
  show w: "S \<subseteq> {length (written e) - 4352..<length (written e) - 4352 + 2 ^ 32}"
    using recent_window sender_okD(3,5) [OF assms] by blast
  show "length (sent (transport e)) = card S" by (rule numbered_length [OF sender_okD(2) [OF assms] w])
qed

text \<open>Every packet of an end encodes, and its datagram decodes to it.\<close>

lemma pkt_encodes:
  assumes "sender_ok e S" "k < length (written e)"
  shows "encode_data (pkt e k) = Inr (pkt_bytes e k)" "decode crc (pkt_bytes e k) = Inr (Data (pkt e k))"
proof -
  have len: "length (written e ! k) < 2 ^ 32" using assms by (simp add: sender_ok_def Let_def)
  then obtain d where d: "encode_data (pkt e k) = Inr d" "length d < u64_max"
    by (auto simp: encode_data_def u32_len_def pkt_def Let_def push_u32_def push_i32_def u64_max_def)
  then show "encode_data (pkt e k) = Inr (pkt_bytes e k)" by (simp add: pkt_bytes_def)
  then show "decode crc (pkt_bytes e k) = Inr (Data (pkt e k))"
    using d by (simp add: decode_encode_data)
qed

definition queue_one :: "byte list \<Rightarrow> udp_end \<Rightarrow> udp_end" where
  "queue_one c e =
     (let t = transport e;
          x = \<lparr>data_connection_id = camera_id t, data_packet_id = next_send_packet t, data_payload = c\<rparr>
      in e\<lparr>transport := t\<lparr>next_send_packet := next_send_packet t + 1,
                           outputs := outputs t @ [Datagram (projr (encode_data x))],
                           sent := bt_insert (next_send_packet t) x (sent t)\<rparr>,
           written := written e @ [c]\<rparr>)"

lemma pkt_queue_one:
  "k < length (written e) \<Longrightarrow> pkt (queue_one c e) k = pkt e k"
  "k < length (written e) \<Longrightarrow> pkt_bytes (queue_one c e) k = pkt_bytes e k"
  by (simp_all add: pkt_bytes_def pkt_def queue_one_def Let_def nth_append)

lemma pkt_queue_one_last:
  assumes "next_send_packet (transport e) = num (length (written e))"
  shows "pkt (queue_one c e) (length (written e)) =
    \<lparr>data_connection_id = camera_id (transport e), data_packet_id = next_send_packet (transport e), data_payload = c\<rparr>"
  using assms by (simp add: pkt_def queue_one_def Let_def)

lemma sender_queue_one:
  assumes ok: "sender_ok e S" and room: "card S < 4096" and c: "length c < 2 ^ 32"
  shows "sender_ok (queue_one c e) (insert (length (written e)) S)"
proof -
  let ?n = "length (written e)" and ?e = "queue_one c e"
  note S = sender_okD [OF ok]
  note window = sender_window [OF ok]
  have "numbered (pkt ?e) S (sent (transport e))"
    by (rule numbered_cong [OF S(2)]) (rule pkt_queue_one(1) [symmetric], use S(3) in blast)
  then have "numbered (pkt ?e) (insert ?n S) (bt_insert (num ?n) (pkt ?e ?n) (sent (transport e)))"
    by (rule numbered_insert [OF _ window(1)]) simp
  then have nums: "numbered (pkt ?e) (insert ?n S) (sent (transport ?e))"
    using pkt_queue_one_last [OF S(1), of c] S(1) by (simp add: queue_one_def Let_def)
  have fin: "finite S" using S(3) finite_subset by blast
  have recent: "Suc ?n \<le> k + 4352" if "k \<in> S" for k
    using card_mono [OF fin S(6) [OF that]] room by simp
  have closed: "{k + 256..<Suc ?n} \<subseteq> insert ?n S" if "k \<in> S" for k
    using S(6) [OF that] by (auto simp: less_Suc_eq)
  have sub: "insert ?n S \<subseteq> {..<Suc ?n}" using S(3) by auto
  have cd: "card (insert ?n S) \<le> 4096" using room fin by (simp add: card_insert_if)
  have "written ?e = written e @ [c]" "next_send_packet (transport ?e) = next_send_packet (transport e) + 1"
    "udp_config (transport ?e) = udp_config (transport e)"
    by (simp_all add: queue_one_def Let_def)
  then show ?thesis
    unfolding sender_ok_def Let_def using nums sub cd recent closed S(1,7,8,9) c by (simp add: add.commute)
qed

lemma link_queue_one:
  assumes "link crc a b ab ba" "length (sent (transport a)) < 4096" "length c < 2 ^ 32"
  shows "link crc (queue_one c a) b ab ba"
proof -
  let ?n = "length (written a)" and ?a = "queue_one c a"
  obtain S R where l: "sender_ok a S" "queue_ok a" "receiver_ok b (written a) R" "R \<subseteq> {..<polled a}" "taken b \<le> polled a"
    "{taken b..<?n} \<subseteq> S \<union> R" "\<forall>md\<in>set ab. data_ok crc a md" "\<forall>md\<in>set ba. ack_ok crc b R md"
    using assms(1) unfolding link_def by blast
  have simps: "written ?a = written a @ [c]" "polled ?a = polled a" by (simp_all add: queue_one_def Let_def)
  have send: "sender_ok ?a (insert ?n S)"
    using sender_queue_one [OF l(1) _ assms(3)] sender_window(2) [OF l(1)] assms(2) by simp
  have num: "next_send_packet (transport a) = num ?n" using l(1) by (simp add: sender_ok_def Let_def)
  have poll: "polled a \<le> ?n" using l(2) by (simp add: queue_ok_def)
  have "queue_ok ?a"
  proof -
    obtain ks where ks: "datagrams (outputs (transport a)) = map (\<lambda>k. Datagram (pkt_bytes a k)) (ks @ [polled a..<?n])"
      "\<forall>k\<in>set ks. k < polled a \<and> polled a \<le> k + 4352"
      using l(2) unfolding queue_ok_def by blast
    have "map (\<lambda>k. Datagram (pkt_bytes a k)) (ks @ [polled a..<?n]) = map (\<lambda>k. Datagram (pkt_bytes ?a k)) (ks @ [polled a..<?n])"
      using ks(2) poll by (intro map_cong) (auto simp: pkt_queue_one)
    moreover have "datagrams (outputs (transport ?a)) = datagrams (outputs (transport a)) @ [Datagram (pkt_bytes ?a ?n)]"
      using pkt_queue_one_last [OF num, of c] by (simp add: pkt_bytes_def) (simp add: queue_one_def Let_def)
    ultimately have "datagrams (outputs (transport ?a)) = map (\<lambda>k. Datagram (pkt_bytes ?a k)) (ks @ [polled a..<Suc ?n])"
      using ks(1) poll by simp
    with ks(2) poll show ?thesis unfolding queue_ok_def simps by (intro conjI exI [of _ ks]) auto
  qed
  moreover have "receiver_ok b (written a @ [c]) R"
  proof -
    have "numbered ((!) (written a @ [c])) R (received (transport b))"
      by (rule numbered_cong [OF receiver_okD(2) [OF l(3)]]) (use receiver_okD(4) [OF l(3)] in \<open>auto simp: nth_append\<close>)
    with receiver_okD [OF l(3)] show ?thesis by (auto simp: receiver_ok_def)
  qed
  moreover have "\<forall>md\<in>set ab. data_ok crc ?a md"
    using l(7) poll by (auto simp: data_ok_def simps pkt_queue_one)
  moreover have "{taken b..<Suc ?n} \<subseteq> insert ?n S \<union> R" using l(6) by (auto simp: less_Suc_eq)
  ultimately show ?thesis
    unfolding link_def using send l(4,5,8) simps by (intro exI [of _ "insert ?n S"] exI [of _ R]) simp
qed

lemma queue_chunks_Cons:
  assumes "length c < 2 ^ 32"
  shows "queue_chunks crc (c # cs) (transport e) = queue_chunks crc cs (transport (queue_one c e))"
  using assms by (simp add: queue_one_def Let_def encode_data_def u32_len_def)

lemma link_queue_chunks:
  assumes "link crc a b ab ba" "length (sent (transport a)) + length cs \<le> 4096" "\<forall>c\<in>set cs. length c < 2 ^ 32"
  shows "fst (queue_chunks crc cs (transport a)) = Inr ()
    \<and> link crc (a\<lparr>transport := snd (queue_chunks crc cs (transport a)), written := written a @ cs\<rparr>) b ab ba
    \<and> same_receiver a (a\<lparr>transport := snd (queue_chunks crc cs (transport a)), written := written a @ cs\<rparr>)"
  using assms
proof (induction cs arbitrary: a)
  case Nil
  then show ?case by (simp add: same_receiver_def)
next
  case (Cons c cs)
  let ?a = "queue_one c a"
  let ?q = "queue_chunks crc cs (transport ?a)"
  have ok: "bt_ok (sent (transport a))" using Cons.prems(1) by (auto simp: link_def sender_ok_def numbered_def Let_def)
  have len: "length (sent (transport ?a)) \<le> Suc (length (sent (transport a)))"
    using length_bt_insert [OF ok] by (simp add: queue_one_def Let_def)
  have "link crc ?a b ab ba" using Cons.prems by (intro link_queue_one) auto
  then have IH: "fst ?q = Inr ()" "link crc (?a\<lparr>transport := snd ?q, written := written ?a @ cs\<rparr>) b ab ba"
    "same_receiver ?a (?a\<lparr>transport := snd ?q, written := written ?a @ cs\<rparr>)"
    using Cons.IH [of ?a] Cons.prems(2,3) len by auto
  have eq: "a\<lparr>transport := snd ?q, written := written a @ c # cs\<rparr> = ?a\<lparr>transport := snd ?q, written := written ?a @ cs\<rparr>"
    by (simp add: queue_one_def Let_def)
  have "same_receiver a ?a" by (simp add: same_receiver_def queue_one_def Let_def)
  with IH(3) have "same_receiver a (?a\<lparr>transport := snd ?q, written := written ?a @ cs\<rparr>)"
    by (simp add: same_receiver_def)
  moreover have "queue_chunks crc (c # cs) (transport a) = ?q" using Cons.prems(3) by (simp only: queue_chunks_Cons list.set_intros)
  ultimately show ?case using IH(1,2) by (simp only: eq)
qed

end
