(* ===== verification/Bc_Udp_Run.thy ===== *)
theory Bc_Udp_Run
  imports Bc_Udp_Laws "HOL-Library.Sublist"
begin

text \<open>
  Each operation of the transport keeps the invariant of \<open>Bc_Udp_Laws\<close>, and what follows for every run of
  two transports over an unreliable network: delivery in order, nothing forgotten, progress by resending,
  and the end of the polling loop.
\<close>

lemma linkE:
  assumes "link crc a b ab ba"
  obtains S R where "sender_ok a S" "queue_ok a" "receiver_ok b (written a) R" "R \<subseteq> {..<polled a}" "taken b \<le> polled a"
    "{taken b..<length (written a)} \<subseteq> S \<union> R" "\<forall>md\<in>set ab. data_ok crc a md" "\<forall>md\<in>set ba. ack_ok crc b R md"
  using assms unfolding link_def by blast

lemma link_queue_end:
  assumes "link crc a b ab ba"
  shows "link crc (queue_end crc p a) b ab ba" "same_receiver a (queue_end crc p a)"
proof -
  let ?t = "transport a"
  let ?n = "mtu (udp_config ?t) - DATA_HEADER_LEN"
  let ?cs = "chunks ?n p"
  obtain S where ok: "sender_ok a S" using assms by (rule linkE)
  have n: "0 < ?n" "?n < 2 ^ 32" using sender_okD(8,9) [OF ok] by (simp_all add: DATA_HEADER_LEN_def)
  have small: "\<forall>c\<in>set ?cs. length c < 2 ^ 32" using chunks_length n(2) le_less_trans by blast
  have "link crc (queue_end crc p a) b ab ba \<and> same_receiver a (queue_end crc p a)"
  proof (cases "div_ceil (length p) ?n > saturating_sub_u64 MAX_IN_FLIGHT_PACKETS (length (sent ?t))")
    case True
    then show ?thesis using assms by (simp add: queue_end_def queue_payload_def Let_def)
  next
    case False
    have "length (sent ?t) \<le> 4096" using sender_window(2) [OF ok] sender_okD(4) [OF ok] by simp
    then have "length (sent ?t) + length ?cs \<le> 4096"
      using False by (simp add: length_chunks [OF n(1)] saturating_sub_u64_def MAX_IN_FLIGHT_PACKETS_def)
    note q = link_queue_chunks [OF assms this small]
    then obtain t' where t': "queue_chunks crc ?cs ?t = (Inr (), t')" by (cases "queue_chunks crc ?cs ?t") auto
    then have "queue_end crc p a = a\<lparr>transport := t', written := written a @ ?cs\<rparr>"
      using False by (simp add: queue_end_def queue_payload_def Let_def)
    with q t' show ?thesis by simp
  qed
  then show "link crc (queue_end crc p a) b ab ba" "same_receiver a (queue_end crc p a)" by simp_all
qed

subsection \<open>Polling\<close>

text \<open>Nothing the sender may still resend is older than the two windows together.\<close>

lemma unacked_recent:
  assumes "sender_ok a S" "receiver_ok b (written a) R" "{taken b..<length (written a)} \<subseteq> S \<union> R"
  shows "length (written a) \<le> taken b + 4352"
proof (cases "taken b < length (written a)")
  case True
  then have "taken b \<in> S" using assms(3) receiver_okD(3) [OF assms(2)] by fastforce
  then show ?thesis by (rule sender_okD(5) [OF assms(1)])
qed simp

lemma stamp_pkt:
  assumes "sender_ok a S" "k < length (written a)" "length (written a) \<le> k + 8704"
  shows "stamp crc a (pkt_bytes a k) = k" "is_data crc (pkt_bytes a k)"
proof -
  have "unat (num (length (written a)) - num k) = length (written a) - k"
    using assms(2,3) by (intro distance_ahead) simp_all
  then show "stamp crc a (pkt_bytes a k) = k"
    using pkt_encodes(2) [OF assms(1,2)] assms(2) by (simp add: stamp_def pkt_def)
  show "is_data crc (pkt_bytes a k)" using pkt_encodes(2) [OF assms(1,2)] by (simp add: is_data_def)
qed

definition pop_end :: "(byte list \<Rightarrow> u32) \<Rightarrow> byte list \<Rightarrow> BcUdpOutput list \<Rightarrow> udp_end \<Rightarrow> udp_end" where
  "pop_end crc d rest e = e\<lparr>transport := (transport e)\<lparr>outputs := rest\<rparr>,
     polled := (if is_data crc d then max (polled e) (Suc (stamp crc e d)) else polled e)\<rparr>"

lemma pkt_pop_end [simp]:
  "pkt (pop_end crc d rest e) = pkt e" "pkt_bytes (pop_end crc d rest e) = pkt_bytes e"
  by (simp_all add: pop_end_def pkt_def pkt_bytes_def fun_eq_iff)

lemma pop_end_simps [simp]: "written (pop_end crc d rest e) = written e"
  "transport (pop_end crc d rest e) = (transport e)\<lparr>outputs := rest\<rparr>"
  by (simp_all add: pop_end_def)

lemma sender_pop_end [simp]: "sender_ok (pop_end crc d rest e) = sender_ok e"
  by (simp add: sender_ok_def fun_eq_iff Let_def)

lemma queue_pop:
  assumes "sender_ok a S" "queue_ok a" "length (written a) \<le> polled a + 4352" "outputs (transport a) = Datagram d # rest"
  obtains k where "d = pkt_bytes a k" "k < length (written a)" "stamp crc a d = k" "polled (pop_end crc d rest a) = max (polled a) (Suc k)"
    "queue_ok (pop_end crc d rest a)"
proof -
  let ?n = "length (written a)" and ?a = "pop_end crc d rest a"
  obtain ks where poll: "polled a \<le> ?n"
    and ks: "datagrams (outputs (transport a)) = map (\<lambda>k. Datagram (pkt_bytes a k)) (ks @ [polled a..<?n])"
      "\<forall>k\<in>set ks. k < polled a \<and> polled a \<le> k + 4352"
    using assms(2) unfolding queue_ok_def by blast
  obtain k ls where kl: "ks @ [polled a..<?n] = k # ls" "d = pkt_bytes a k"
      "datagrams rest = map (\<lambda>k. Datagram (pkt_bytes a k)) ls"
    using ks(1) assms(4) by (auto simp: Cons_eq_map_conv simp del: map_append)
  have "k \<in> set (ks @ [polled a..<?n])" unfolding kl(1) by simp
  then have k: "k < ?n" "?n \<le> k + 8704" using ks(2) poll assms(3) by auto
  note st = stamp_pkt [OF assms(1) k, of crc]
  have new: "polled ?a = max (polled a) (Suc k)" using st kl(2) by (simp add: pop_end_def)
  have "queue_ok ?a"
  proof (cases ks)
    case Nil
    then have "[polled a..<?n] = k # ls" using kl(1) by simp
    then have "k = polled a" "ls = [Suc (polled a)..<?n]" by (auto simp: upt_eq_Cons_conv)
    with kl(3) k(1) new show ?thesis by (auto simp: queue_ok_def intro: exI [of _ "[]"])
  next
    case (Cons k' ks')
    then have "k' = k" "ls = ks' @ [polled a..<?n]" using kl(1) by simp_all
    moreover have "polled ?a = polled a" using new ks(2) Cons \<open>k' = k\<close> by auto
    ultimately show ?thesis using kl(3) ks(2) poll Cons by (auto simp: queue_ok_def intro: exI [of _ ks'])
  qed
  with kl(2) k(1) st(1) new show thesis by (intro that [of k]) simp_all
qed

lemma link_pop:
  assumes "link crc a b ab ba" "outputs (transport a) = Datagram d # rest"
  shows "link crc (pop_end crc d rest a) b (ab @ [(stamp crc a d, d)]) ba" "same_receiver a (pop_end crc d rest a)"
    "\<not> (\<exists>x. decode crc d = Inr (Ack x))"
proof -
  obtain S R where l: "sender_ok a S" "queue_ok a" "receiver_ok b (written a) R" "R \<subseteq> {..<polled a}" "taken b \<le> polled a"
    "{taken b..<length (written a)} \<subseteq> S \<union> R" "\<forall>md\<in>set ab. data_ok crc a md" "\<forall>md\<in>set ba. ack_ok crc b R md"
    using assms(1) by (rule linkE)
  let ?a = "pop_end crc d rest a"
  have "length (written a) \<le> polled a + 4352" using unacked_recent [OF l(1,3,6)] l(5) by simp
  then obtain k where k: "d = pkt_bytes a k" "k < length (written a)" "stamp crc a d = k"
      "polled ?a = max (polled a) (Suc k)" "queue_ok ?a"
    using queue_pop [OF l(1,2) _ assms(2)] by blast
  have dec: "decode crc d = Inr (Data (pkt a k))" using pkt_encodes(2) [OF l(1) k(2)] k(1) by simp
  then show "\<not> (\<exists>x. decode crc d = Inr (Ack x))" by simp
  have mono: "polled a \<le> polled ?a" using k(4) by simp
  have "data_ok crc ?a md" if "md \<in> set (ab @ [(k, d)])" for md
    using that l(7) mono dec k(4) by (auto simp: data_ok_def)
  then show "link crc ?a b (ab @ [(stamp crc a d, d)]) ba"
    unfolding link_def using l(1,3,4,5,6,8) k(3,5) mono by (intro exI [of _ S] exI [of _ R]) auto
  show "same_receiver a ?a" using assms(2) by (simp add: same_receiver_def) (simp add: pop_end_def)
qed

text \<open>An acknowledgement says what its receiver has.\<close>

lemma ack_datagram:
  assumes "receiver_ok b ws R" "encode_ack (build_ack (transport b)) = Inr d"
  shows "decode crc d = Inr (Ack (build_ack (transport b)))" "ack_ok crc b R (taken b, d)" "stamp crc b d = taken b" "\<not> is_data crc d"
proof -
  let ?x = "build_ack (transport b)"
  note r = receiver_okD [OF assms(1)]
  note bits = build_ack_bits [OF r(2,3,1)]
  have "length d < u64_max"
    using assms(2) bits(1) by (auto simp: encode_ack_Inr u64_max_def)
  then show dec: "decode crc d = Inr (Ack ?x)" using assms(2) by (simp add: decode_encode_ack)
  have "ack_packet_id ?x = num (taken b) - 1" using r(1) by (simp add: build_ack_def Let_def)
  with dec bits show "ack_ok crc b R (taken b, d)" by (simp add: ack_ok_def)
  show "stamp crc b d = taken b" "\<not> is_data crc d" using dec by (simp_all add: stamp_def is_data_def)
qed

lemma same_trans:
  "same_sender e e' \<Longrightarrow> same_sender e' e'' \<Longrightarrow> same_sender e e''"
  "same_receiver e e' \<Longrightarrow> same_receiver e' e'' \<Longrightarrow> same_receiver e e''"
  by (simp_all add: same_sender_def same_receiver_def)

text \<open>What a poll does to an end: pops an output, or sends an acknowledgement, or queues what waits
  for one again and pops the first.\<close>

lemma stamp_transport [simp]: "stamp crc (e\<lparr>transport := t\<rparr>) = stamp crc e"
  by (rule ext) (simp add: stamp_def split: sum.split BcUdpPacket.split)

definition deadlines_only :: "udp_end \<Rightarrow> udp_end \<Rightarrow> bool" where
  "deadlines_only e e' \<longleftrightarrow> e' = e\<lparr>transport := transport e'\<rparr> \<and>
     transport e' = (transport e)\<lparr>next_ack := next_ack (transport e'), next_resend := next_resend (transport e')\<rparr>"

lemma deadlines_only_same:
  assumes "deadlines_only e e'"
  shows "same_sender e e'" "same_receiver e e'" "outputs (transport e') = outputs (transport e)"
    "build_ack (transport e') = build_ack (transport e)" "stamp crc e' = stamp crc e" "polled e' = polled e"
proof -
  obtain i j where e': "e' = e\<lparr>transport := (transport e)\<lparr>next_ack := i, next_resend := j\<rparr>\<rparr>"
    using assms by (metis deadlines_only_def)
  show "same_sender e e'" "same_receiver e e'" "outputs (transport e') = outputs (transport e)"
    "build_ack (transport e') = build_ack (transport e)" "polled e' = polled e"
    by (simp_all add: e' same_sender_def same_receiver_def build_ack_def Let_def)
  show "stamp crc e' = stamp crc e"
    by (simp add: e')
qed

lemma map_choice: "set xs \<subseteq> f ` S \<Longrightarrow> \<exists>ks. xs = map f ks \<and> set ks \<subseteq> S"
proof (induction xs)
  case (Cons x xs)
  then obtain k ks where "k \<in> S" "x = f k" "xs = map f ks" "set ks \<subseteq> S" by auto
  then show ?case by (intro exI [of _ "k # ks"]) simp
qed simp

lemma poll_end_cases:
  assumes "poll_end crc now e = Some (e', ds)" "sender_ok e S"
  obtains (datagram) d rest where "outputs (transport e) = Datagram d # rest" "e' = pop_end crc d rest e" "ds = [(stamp crc e d, d)]"
  | (quiet) "same_sender e e'" "same_receiver e e'" "ds = []"
  | (ack) e1 d where "deadlines_only e e1" "encode_ack (build_ack (transport e)) = Inr d" "ds = [(stamp crc e d, d)]"
      "e' = e1\<lparr>polled := (if is_data crc d then max (polled e) (Suc (stamp crc e d)) else polled e)\<rparr>"
  | (resend) e1 ks d rest where "outputs (transport e) = []" "deadlines_only e e1" "set ks \<subseteq> S"
      "Datagram d # rest = map (\<lambda>k. Datagram (pkt_bytes e k)) ks"
      "e' = pop_end crc d rest (e1\<lparr>transport := (transport e1)\<lparr>outputs := Datagram d # rest\<rparr>\<rparr>)" "ds = [(stamp crc e d, d)]"
proof (cases "outputs (transport e)")
  case (Cons out rest)
  then have p: "poll_output crc now (transport e) = Some (Inr out, (transport e)\<lparr>outputs := rest\<rparr>)"
    by (simp add: poll_output_def)
  show thesis
  proof (cases out)
    case (Datagram d)
    with p assms(1) Cons show thesis by (intro datagram [of d rest]) (auto simp: poll_end_def pop_end_def)
  next
    case (Payload q)
    with p assms(1) Cons show thesis by (intro quiet) (auto simp: poll_end_def same_sender_def same_receiver_def)
  next
    case (Timeout i)
    with p assms(1) Cons show thesis by (intro quiet) (auto simp: poll_end_def same_sender_def same_receiver_def)
  qed
next
  case Nil
  let ?t = "transport e"
  show thesis
  proof (cases "next_ack ?t \<le> now")
    case True
    then obtain i where i: "poll_output crc now ?t =
        Some (and_then (encode_ack (build_ack (?t\<lparr>next_ack := i\<rparr>))) (\<lambda>d. Inr (Datagram d)), ?t\<lparr>next_ack := i\<rparr>)"
      using assms(1) Nil by (auto simp: poll_output_def poll_end_def Let_def bind_eq_Some_conv)
    have eq: "build_ack (?t\<lparr>next_ack := i\<rparr>) = build_ack ?t" by (simp add: build_ack_def Let_def)
    have only: "deadlines_only e (e\<lparr>transport := ?t\<lparr>next_ack := i\<rparr>\<rparr>)"
      by (simp add: deadlines_only_def)
    show thesis
    proof (cases "encode_ack (build_ack ?t)")
      case (Inl x)
      with i eq assms(1) have "e' = e\<lparr>transport := ?t\<lparr>next_ack := i\<rparr>\<rparr>" "ds = []" by (auto simp: poll_end_def)
      with only show thesis by (intro quiet) (auto dest: deadlines_only_same)
    next
      case (Inr d)
      with i eq assms(1) only show thesis by (intro ack [of "e\<lparr>transport := ?t\<lparr>next_ack := i\<rparr>\<rparr>" d]) (auto simp: poll_end_def)
    qed
  next
    case False
    show thesis
    proof (cases "next_resend ?t \<le> now")
      case False
      with \<open>\<not> next_ack ?t \<le> now\<close> Nil assms(1) show thesis
        by (intro quiet) (auto simp: poll_output_def poll_end_def same_sender_def same_receiver_def)
    next
      case True
      then obtain i where i: "advance_deadline (next_resend ?t) (resend_interval (udp_config ?t)) now = Some i"
        using assms(1) Nil False by (auto simp: poll_output_def poll_end_def bind_eq_Some_conv)
      let ?e1 = "e\<lparr>transport := ?t\<lparr>next_resend := i\<rparr>\<rparr>"
      have only: "deadlines_only e ?e1"
        by (simp add: deadlines_only_def)
      obtain ks where ks: "map snd (sent ?t) = map (pkt e) ks" "set ks \<subseteq> S"
        using numbered_values [OF sender_okD(2) [OF assms(2)]] map_choice [of "map snd (sent ?t)" "pkt e" S] by auto
      have enc: "encode_data (pkt e k) = Inr (pkt_bytes e k)" if "k \<in> set ks" for k
        using pkt_encodes(1) [OF assms(2)] ks(2) sender_okD(3) [OF assms(2)] that by blast
      have "push_resends crc (map (pkt e) ks) (?t\<lparr>next_resend := i\<rparr>) =
          (Inr (), ?t\<lparr>next_resend := i, outputs := map (\<lambda>k. Datagram (pkt_bytes e k)) ks\<rparr>)"
        using enc Nil by (subst push_resends_effect) (auto simp: comp_def pkt_bytes_def)
      then have p: "poll_output crc now ?t = (case map (\<lambda>k. Datagram (pkt_bytes e k)) ks of
          out # rest \<Rightarrow> Some (Inr out, ?t\<lparr>next_resend := i, outputs := rest\<rparr>)
        | [] \<Rightarrow> Some (Inr (Timeout (min (next_ack ?t) i)), ?t\<lparr>next_resend := i\<rparr>))"
        using Nil False True i ks(1) by (simp add: poll_output_def Let_def split: list.split)
      show thesis
      proof (cases ks)
        case Nil
        with p assms(1) \<open>outputs ?t = []\<close> show thesis by (intro quiet) (auto simp: poll_end_def same_sender_def same_receiver_def)
      next
        case (Cons k ks')
        let ?d = "pkt_bytes e k" and ?rest = "map (\<lambda>k. Datagram (pkt_bytes e k)) ks'"
        have "e' = pop_end crc ?d ?rest (?e1\<lparr>transport := (transport ?e1)\<lparr>outputs := Datagram ?d # ?rest\<rparr>\<rparr>)"
          "ds = [(stamp crc e ?d, ?d)]"
          using p assms(1) Cons by (auto simp: poll_end_def pop_end_def)
        then show thesis using Nil only ks(2) Cons by (intro resend [of ?e1 ks ?d ?rest]) simp_all
      qed
    qed
  qed
qed


lemma link_requeue:
  assumes "link crc a b ab ba" "outputs (transport a) = []" "\<forall>k\<in>set ks. k < length (written a) \<and> length (written a) \<le> k + 4352"
  defines "a' \<equiv> a\<lparr>transport := (transport a)\<lparr>outputs := map (\<lambda>k. Datagram (pkt_bytes a k)) ks\<rparr>\<rparr>"
  shows "link crc a' b ab ba" "same_receiver a a'"
proof -
  obtain S R where l: "sender_ok a S" "queue_ok a" "receiver_ok b (written a) R" "R \<subseteq> {..<polled a}" "taken b \<le> polled a"
    "{taken b..<length (written a)} \<subseteq> S \<union> R" "\<forall>md\<in>set ab. data_ok crc a md" "\<forall>md\<in>set ba. ack_ok crc b R md"
    using assms(1) by (rule linkE)
  have pk: "pkt a' = pkt a" "pkt_bytes a' = pkt_bytes a" by (simp_all add: a'_def pkt_def pkt_bytes_def fun_eq_iff)
  have "polled a = length (written a)" using l(2) assms(2) by (auto simp: queue_ok_def)
  then have "queue_ok a'" using assms(3) unfolding queue_ok_def pk by (auto simp: a'_def intro: exI [of _ ks])
  moreover have "sender_ok a' S" using l(1) unfolding sender_ok_def Let_def pk by (simp add: a'_def)
  moreover have "data_ok crc a' = data_ok crc a" by (simp add: fun_eq_iff data_ok_def pk) (simp add: a'_def)
  ultimately show "link crc a' b ab ba"
    unfolding link_def using l by (intro exI [of _ S] exI [of _ R]) (simp add: a'_def)
  show "same_receiver a a'" using assms(2) by (simp add: same_receiver_def a'_def)
qed

lemma link_poll:
  assumes "link crc a b ab ba" "link crc b a ba ab" "poll_end crc now a = Some (a', ds)"
  shows "link crc a' b (ab @ ds) ba" "link crc b a' ba (ab @ ds)"
proof -
  obtain S R where l: "sender_ok a S" "queue_ok a" "receiver_ok b (written a) R" "R \<subseteq> {..<polled a}" "taken b \<le> polled a"
    "{taken b..<length (written a)} \<subseteq> S \<union> R" "\<forall>md\<in>set ab. data_ok crc a md" "\<forall>md\<in>set ba. ack_ok crc b R md"
    using assms(1) by (rule linkE)
  obtain S' R' where m: "sender_ok b S'" "queue_ok b" "receiver_ok a (written b) R'" "R' \<subseteq> {..<polled b}" "taken a \<le> polled b"
    "{taken a..<length (written b)} \<subseteq> S' \<union> R'" "\<forall>md\<in>set ba. data_ok crc b md" "\<forall>md\<in>set ab. ack_ok crc a R' md"
    using assms(2) by (rule linkE)
  have grow: "link crc b a ba (ab @ [(q, d)])" if "\<not> (\<exists>x. decode crc d = Inr (Ack x))" for q d
    unfolding link_def using m that by (intro exI [of _ S'] exI [of _ R']) (auto simp: ack_ok_def)
  from assms(3) l(1) have "link crc a' b (ab @ ds) ba \<and> link crc b a' ba (ab @ ds)"
  proof (cases rule: poll_end_cases)
    case (datagram d rest)
    note p = link_pop [OF assms(1) datagram(1)]
    have "link crc b a' ba (ab @ ds)"
      unfolding datagram(2,3) by (rule link_cong [OF same_refl(1) p(2) grow [OF p(3)]])
    with p(1) datagram(2,3) show ?thesis by simp
  next
    case quiet
    with assms(1,2) show ?thesis using link_cong same_refl by (metis append_Nil2)
  next
    case (ack e1 d)
    note k = ack_datagram [OF m(3) ack(2), of crc]
    note same = deadlines_only_same [OF ack(1)]
    have a': "a' = e1" using ack(4) k(4) same(6) by simp
    have "link crc a b (ab @ [(taken a, d)]) ba"
      unfolding link_def using l k(1) by (intro exI [of _ S] exI [of _ R]) (auto simp: data_ok_def)
    moreover have "link crc b a ba (ab @ [(taken a, d)])"
      unfolding link_def using m k(2) by (intro exI [of _ S'] exI [of _ R']) auto
    ultimately show ?thesis using link_cong [OF same(1) same_refl(2)] link_cong [OF same_refl(1) same(2)] a' ack(3) k(3) by simp
  next
    case (resend e1 ks d rest)
    note same = deadlines_only_same [OF resend(2)]
    let ?e = "e1\<lparr>transport := (transport e1)\<lparr>outputs := Datagram d # rest\<rparr>\<rparr>"
    have ks: "\<forall>k\<in>set ks. k < length (written e1) \<and> length (written e1) \<le> k + 4352"
      using resend(3) sender_okD(3,5) [OF l(1)] same_sender_cong(5) [OF same(1)] by auto
    have "pkt_bytes e1 = pkt_bytes a" using same_sender_cong(1) [OF same(1)] by (simp add: pkt_bytes_def fun_eq_iff)
    then have e: "?e = e1\<lparr>transport := (transport e1)\<lparr>outputs := map (\<lambda>k. Datagram (pkt_bytes e1 k)) ks\<rparr>\<rparr>"
      using resend(4) by simp
    have "link crc e1 b ab ba" by (rule link_cong [OF same(1) same_refl(2) assms(1)])
    note q = link_requeue [OF this _ ks, folded e]
    have "link crc ?e b ab ba" "same_receiver e1 ?e" using q resend(1) same(3) by simp_all
    note p = link_pop [OF this(1), of d rest] and rec = same_trans(2) [OF same(2) this(2)]
    have "same_receiver a a'" unfolding resend(5) using same_trans(2) [OF rec] p(2) by simp
    then have "link crc b a' ba (ab @ ds)"
      unfolding resend(6) using p(3) by (intro link_cong [OF same_refl(1) _ grow]) simp_all
    moreover have "stamp crc ?e = stamp crc a" using same(5) by simp
    ultimately show ?thesis using p(1) resend(5,6) by simp
  qed
  then show "link crc a' b (ab @ ds) ba" "link crc b a' ba (ab @ ds)" by simp_all
qed

subsection \<open>Receiving\<close>

lemma handle_ack_effect:
  assumes "sender_ok a S" "ack_packet_id x = num m - 1" "length (ack_received x) \<le> 256"
    "m \<le> length (written a)" "length (written a) < m + 2 ^ 31"
  shows "numbered (pkt a) {k \<in> S. m \<le> k \<and> \<not> (k < m + length (ack_received x) \<and> ack_received x ! (k - m) \<noteq> 0)}
    (sent (handle_ack x (transport a)))"
proof -
  note S = sender_okD [OF assms(1)]
  let ?P = "\<lambda>e :: u32 \<times> UdpData. let distance = fst e - ack_packet_id x in distance \<noteq> 0 \<and> distance < push_bit 31 1"
  have keep: "?P (num k, pkt a k) \<longleftrightarrow> m \<le> k" if k: "k \<in> S" for k
  proof -
    have w: "num k - ack_packet_id x = num (Suc k) - num m" using assms(2) by simp
    have "k < length (written a)" "length (written a) \<le> k + 4352" using S(3,5) k by blast+
    then have "m \<le> k \<Longrightarrow> unat (num (Suc k) - num m) = Suc k - m" "m = Suc k \<Longrightarrow> unat (num (Suc k) - num m) = 0"
      "Suc k < m \<Longrightarrow> unat (num (Suc k) - num m) = 2 ^ 32 - (m - Suc k)"
      using assms(4,5) distance_ahead [of m "Suc k"] distance_behind [of "Suc k" m] by (simp_all del: of_nat_Suc)
    then show ?thesis
      using assms(4,5) \<open>k < length (written a)\<close> \<open>length (written a) \<le> k + 4352\<close>
      by (cases "Suc k" m rule: linorder_cases) (simp_all only: Let_def fst_conv w zero_distance half_range, auto)
  qed
  have "numbered (pkt a) {k \<in> S. m \<le> k} (filter ?P (sent (transport a)))"
    by (rule numbered_filter [where P = ?P, OF S(2) sender_window(1) [OF assms(1)]]) (rule keep)
  moreover have "{k \<in> S. m \<le> k} \<subseteq> {m..<m + 2 ^ 31}" using S(3) assms(5) by auto
  ultimately have "numbered (pkt a) {k \<in> {k \<in> S. m \<le> k}. \<not> (m \<le> k \<and> k < m + length (ack_received x) \<and> ack_received x ! (k - m) \<noteq> 0)}
      (remove_acked (num m) (ack_received x) (filter ?P (sent (transport a))))"
    using assms(3) by (rule remove_acked_effect)
  moreover have "{k \<in> {k \<in> S. m \<le> k}. \<not> (m \<le> k \<and> k < m + length (ack_received x) \<and> ack_received x ! (k - m) \<noteq> 0)}
      = {k \<in> S. m \<le> k \<and> \<not> (k < m + length (ack_received x) \<and> ack_received x ! (k - m) \<noteq> 0)}" by auto
  ultimately show ?thesis using assms(2) by (simp add: handle_ack_def)
qed

lemma link_ack:
  assumes "link crc a b ab ba" "(m, d) \<in> set ba" "decode crc d = Inr (Ack x)" "length (written a) < m + 2 ^ 31"
  defines "a' \<equiv> a\<lparr>transport := handle_ack x (transport a)\<rparr>"
  shows "link crc a' b ab ba" "same_receiver a a'"
proof -
  obtain S R where l: "sender_ok a S" "queue_ok a" "receiver_ok b (written a) R" "R \<subseteq> {..<polled a}" "taken b \<le> polled a"
    "{taken b..<length (written a)} \<subseteq> S \<union> R" "\<forall>md\<in>set ab. data_ok crc a md" "\<forall>md\<in>set ba. ack_ok crc b R md"
    using assms(1) by (rule linkE)
  note S = sender_okD [OF l(1)]
  have x: "m \<le> taken b" "ack_packet_id x = num m - 1" "length (ack_received x) \<le> 256"
    and acked: "\<And>i. i < length (ack_received x) \<Longrightarrow> ack_received x ! i \<noteq> 0 \<Longrightarrow> m + i < taken b \<or> m + i \<in> R"
    using bspec [OF l(8) assms(2)] assms(3) by (simp_all add: ack_ok_def)
  let ?S = "{k \<in> S. m \<le> k \<and> \<not> (k < m + length (ack_received x) \<and> ack_received x ! (k - m) \<noteq> 0)}"
  have pk: "pkt a' = pkt a" "pkt_bytes a' = pkt_bytes a" by (simp_all add: a'_def pkt_def pkt_bytes_def handle_ack_rest fun_eq_iff)
  have nums: "numbered (pkt a) ?S (sent (transport a'))"
    unfolding a'_def using handle_ack_effect [OF l(1) x(2,3) _ assms(4)] x(1) receiver_okD(5) [OF l(3)] by simp
  have card: "card ?S \<le> 4096"
    using card_mono [of S ?S] S(3,4) finite_subset [OF S(3)] by fastforce
  have closed: "{k + 256..<length (written a)} \<subseteq> ?S" if "k \<in> ?S" for k
    using S(6) [of k] that x(3) by auto
  have "sender_ok a' ?S"
    unfolding sender_ok_def Let_def pk using nums card closed S(1,3,5,7,8,9) by (auto simp: a'_def handle_ack_rest)
  moreover have "queue_ok a'" using l(2) unfolding queue_ok_def pk by (simp add: a'_def handle_ack_rest)
  moreover have "data_ok crc a' = data_ok crc a" by (simp add: fun_eq_iff data_ok_def pk) (simp add: a'_def)
  moreover have "{taken b..<length (written a)} \<subseteq> ?S \<union> R"
  proof
    fix j assume j: "j \<in> {taken b..<length (written a)}"
    then have "j \<in> S \<union> R" using l(6) by blast
    moreover have "j \<in> R" if "j < m + length (ack_received x)" "ack_received x ! (j - m) \<noteq> 0"
      using acked [of "j - m"] that j x(1) by auto
    ultimately show "j \<in> ?S \<union> R" using j x(1) by auto
  qed
  ultimately show "link crc a' b ab ba"
    unfolding link_def using l(3,4,5,7,8) by (intro exI [of _ ?S] exI [of _ R]) (simp add: a'_def)
  show "same_receiver a a'" by (simp add: same_receiver_def a'_def handle_ack_rest)
qed

text \<open>An early packet is kept, and the packets that are now in order are handed over.\<close>

lemma accept_effect:
  assumes "receiver_ok b ws R" "taken b \<le> m" "m < taken b + 256" "m < length ws" "data_payload x = ws ! m" "data_packet_id x = num m"
  defines "t \<equiv> transport b"
  defines "t' \<equiv> flush_received (if bt_get (received t) (data_packet_id x) = None
                 then t\<lparr>received := bt_insert (data_packet_id x) (data_payload x) (received t)\<rparr> else t)"
  obtains r' where "taken b \<le> r'" "next_receive_packet t' = num r'" "{taken b..<r'} \<subseteq> insert m R" "r' \<notin> insert m R"
    "numbered ((!) ws) (insert m R - {taken b..<r'}) (received t')"
    "datagrams (outputs t') = datagrams (outputs t)"
    "payloads (outputs t') = payloads (outputs t) @ concat (map ((!) ws) [taken b..<r'])"
    "next_send_packet t' = next_send_packet t" "sent t' = sent t" "camera_id t' = camera_id t" "udp_config t' = udp_config t"
proof -
  note r = receiver_okD [OF assms(1)]
  let ?r = "taken b"
  have window: "R \<subseteq> {?r..<?r + 2 ^ 32}" "m \<in> {?r..<?r + 2 ^ 32}" using r(3) assms(2,3) by auto
  let ?m = "if m \<in> R then received t else bt_insert (num m) (ws ! m) (received t)"
  have get: "bt_get (received t) (num m) = None \<longleftrightarrow> m \<notin> R"
    using numbered_get [OF r(2) window] by (simp add: t_def)
  have nums: "numbered ((!) ws) (insert m R) ?m"
    using numbered_insert [OF r(2) window] r(2) by (simp add: t_def insert_absorb)
  have sub: "insert m R \<subseteq> {?r..<?r + 2 ^ 31}" using r(3) assms(2,3) by auto
  obtain w rest p where fl: "flush_loop (num ?r) ?m [] = (w, rest, p)" by (metis prod_cases3)
  obtain r' where r': "?r \<le> r'" "w = num r'" "{?r..<r'} \<subseteq> insert m R" "r' \<notin> insert m R"
      "numbered ((!) ws) (insert m R - {?r..<r'}) rest" "p = [] @ concat (map ((!) ws) [?r..<r'])"
    using flush_loop_effect [OF nums sub fl] by blast
  have t': "t' = (if p \<noteq> [] then t\<lparr>next_receive_packet := w, received := rest, outputs := outputs t @ [Payload p]\<rparr>
                  else t\<lparr>next_receive_packet := w, received := rest\<rparr>)"
    using fl get r(1) assms(5,6) by (simp add: t'_def flush_received_def t_def split: if_splits)
  show thesis by (rule that [of r']) (use r' in \<open>simp_all add: t'\<close>)
qed


lemma take_upt: "r \<le> r' \<Longrightarrow> r' \<le> length ws \<Longrightarrow> take r' ws = take r ws @ map ((!) ws) [r..<r']"
  by (induction r' rule: dec_induct) (simp_all add: take_Suc_conv_app_nth)

lemma link_accept:
  assumes "link crc a b ab ba" "taken b \<le> m" "m < taken b + 256" "m < polled a" "data_payload x = written a ! m" "data_packet_id x = num m"
  defines "t \<equiv> transport b"
  defines "t' \<equiv> flush_received (if bt_get (received t) (data_packet_id x) = None
                 then t\<lparr>received := bt_insert (data_packet_id x) (data_payload x) (received t)\<rparr> else t)"
  defines "b' \<equiv> b\<lparr>transport := t', taken := taken b + unat (next_receive_packet t' - next_receive_packet t)\<rparr>"
  shows "link crc a b' ab ba" "same_sender b b'"
proof -
  obtain S R where l: "sender_ok a S" "queue_ok a" "receiver_ok b (written a) R" "R \<subseteq> {..<polled a}" "taken b \<le> polled a"
    "{taken b..<length (written a)} \<subseteq> S \<union> R" "\<forall>md\<in>set ab. data_ok crc a md" "\<forall>md\<in>set ba. ack_ok crc b R md"
    using assms(1) by (rule linkE)
  note r = receiver_okD [OF l(3)]
  let ?ws = "written a" and ?r = "taken b"
  have poll: "polled a \<le> length ?ws" using l(2) by (simp add: queue_ok_def)
  have mlt: "m < length ?ws" using assms(4) poll by simp
  obtain r' where r': "?r \<le> r'" "next_receive_packet t' = num r'" "{?r..<r'} \<subseteq> insert m R" "r' \<notin> insert m R"
      "numbered ((!) ?ws) (insert m R - {?r..<r'}) (received t')" "datagrams (outputs t') = datagrams (outputs t)"
      "payloads (outputs t') = payloads (outputs t) @ concat (map ((!) ?ws) [?r..<r'])"
      "next_send_packet t' = next_send_packet t" "sent t' = sent t" "camera_id t' = camera_id t" "udp_config t' = udp_config t"
    by (rule accept_effect [OF l(3) assms(2,3) mlt assms(5,6), folded t_def, folded t'_def])
  let ?R = "insert m R - {?r..<r'}"
  have near: "r' \<le> ?r + 256"
  proof (rule ccontr)
    assume "\<not> r' \<le> ?r + 256"
    then have "?r + 256 \<in> {?r..<r'}" by simp
    with r'(3) r(3) assms(3) show False by fastforce
  qed
  have "r' \<le> polled a"
  proof (rule ccontr)
    assume "\<not> r' \<le> polled a"
    then have "polled a \<in> {?r..<r'}" using l(5) by simp
    with r'(3) l(4) assms(4) show False by fastforce
  qed
  have tk: "taken b' = r'"
    using r'(1,2) r(1) near distance_ahead [of ?r r'] by (simp add: b'_def t_def)
  have tr: "transport b' = t'" "read_bytes b' = read_bytes b" by (simp_all add: b'_def)
  have "?R \<subseteq> {r'<..<r' + 256}"
  proof
    fix k assume k: "k \<in> ?R"
    then have "?r \<le> k" "k < ?r + 256" "k \<noteq> r'" using r(3) assms(2,3) r'(4) by auto
    with k r'(1) show "k \<in> {r'<..<r' + 256}" by auto
  qed
  moreover have "read_bytes b @ payloads (outputs t') = concat (take r' ?ws)"
    using r(6) r'(1,7) take_upt [of ?r r' ?ws] \<open>r' \<le> polled a\<close> poll by (simp add: t_def)
  ultimately have "receiver_ok b' ?ws ?R"
    unfolding receiver_ok_def tk tr using r'(2,5) \<open>r' \<le> polled a\<close> poll r(4) assms(4) by auto
  moreover have "ack_ok crc b' ?R md" if "md \<in> set ba" for md
    using bspec [OF l(8) that] r'(1) unfolding ack_ok_def tk by fastforce
  moreover have "{r'..<length ?ws} \<subseteq> S \<union> ?R"
  proof
    fix j assume j: "j \<in> {r'..<length ?ws}"
    then have "j \<in> {?r..<length ?ws}" using r'(1) by simp
    with l(6) have "j \<in> S \<union> R" by blast
    with j show "j \<in> S \<union> ?R" by auto
  qed
  moreover have "?R \<subseteq> {..<polled a}" using l(4) assms(4) by auto
  ultimately show "link crc a b' ab ba"
    unfolding link_def using l(1,2,7) tk \<open>r' \<le> polled a\<close> by (intro exI [of _ S] exI [of _ ?R]) simp
  show "same_sender b b'" using r'(6,8-11) by (simp add: same_sender_def b'_def t_def)
qed

lemma receive_unchanged: "snd (handle_datagram crc d (transport e)) = transport e \<Longrightarrow> receive_end crc d e = e"
  by (simp add: receive_end_def)

lemma link_data:
  assumes "link crc a b ab ba" "(m, d) \<in> set ab" "decode crc d = Inr (Data x)" "taken b \<le> m + 2 ^ 31"
  shows "link crc a (receive_end crc d b) ab ba" "same_sender b (receive_end crc d b)"
proof -
  obtain S R where l: "sender_ok a S" "queue_ok a" "receiver_ok b (written a) R" "taken b \<le> polled a"
    "{taken b..<length (written a)} \<subseteq> S \<union> R" "\<forall>md\<in>set ab. data_ok crc a md"
    using assms(1) by (rule linkE)
  have m: "m < polled a" "x = pkt a m" using bspec [OF l(6) assms(2)] assms(3) by (simp_all add: data_ok_def)
  have T: "m < taken b + 4352" using m(1) l(2) unacked_recent [OF l(1,3,5)] by (simp add: queue_ok_def)
  let ?t = "transport b"
  have dist: "data_packet_id x - next_receive_packet ?t = num m - num (taken b)"
    using m(2) receiver_okD(1) [OF l(3)] by (simp add: pkt_def)
  have "link crc a (receive_end crc d b) ab ba \<and> same_sender b (receive_end crc d b)"
  proof (cases "data_connection_id x = client_id ?t \<and> taken b \<le> m \<and> m < taken b + 256")
    case True
    then have "unat (num m - num (taken b)) < 256" using distance_ahead [of "taken b" m] by (simp add: less_diff_conv2)
    then have "handle_datagram crc d ?t = (Inr (), flush_received (if bt_get (received ?t) (data_packet_id x) = None
        then ?t\<lparr>received := bt_insert (data_packet_id x) (data_payload x) (received ?t)\<rparr> else ?t))"
      using True assms(3) dist by (simp add: handle_datagram_def handle_data_def Let_def in_window)
    moreover have "data_payload x = written a ! m" "data_packet_id x = num m" using m(2) by (simp_all add: pkt_def)
    note link_accept [OF assms(1) _ _ m(1) this]
    ultimately show ?thesis using True by (simp only: receive_end_def snd_conv Let_def)
  next
    case False
    have "unat (num m - num (taken b)) \<ge> 256" if "data_connection_id x = client_id ?t"
    proof (cases "taken b \<le> m")
      case True
      with that False T show ?thesis using distance_ahead [of "taken b" m] by simp
    next
      case False
      with assms(4) show ?thesis using distance_behind [of m "taken b"] by simp
    qed
    then have "snd (handle_datagram crc d ?t) = ?t"
      using assms(3) dist by (auto simp: handle_datagram_def handle_data_def Let_def in_window)
    then show ?thesis using assms(1) by (simp add: receive_unchanged)
  qed
  then show "link crc a (receive_end crc d b) ab ba" "same_sender b (receive_end crc d b)" by simp_all
qed

lemma foreign_unchanged: "foreign crc e d \<Longrightarrow> receive_end crc d e = e"
  by (rule receive_unchanged) (auto simp: foreign_def handle_datagram_def split: sum.split BcUdpPacket.split)

lemma link_receive:
  assumes "link crc a b ab ba" "link crc b a ba ab" "(m, d) \<in> set ba" "fresh crc a m d"
  shows "link crc (receive_end crc d a) b ab ba" "link crc b (receive_end crc d a) ba ab"
proof -
  have "link crc (receive_end crc d a) b ab ba \<and> link crc b (receive_end crc d a) ba ab"
  proof (cases "foreign crc a d")
    case True
    with assms(1,2) show ?thesis by (simp add: foreign_unchanged)
  next
    case False
    then consider (data) x where "decode crc d = Inr (Data x)" | (ack) x where "decode crc d = Inr (Ack x)" "ack_connection_id x = client_id (transport a)"
      by (auto simp: foreign_def split: sum.splits BcUdpPacket.splits)
    then show ?thesis
    proof cases
      case data
      with assms(4) have "taken a \<le> m + 2 ^ 31" by (simp add: fresh_def)
      note r = link_data [OF assms(2,3) data this]
      show ?thesis using link_cong [OF r(2) same_refl(2) assms(1)] r(1) by simp
    next
      case ack
      with assms(4) have "length (written a) < m + 2 ^ 31" by (simp add: fresh_def)
      note r = link_ack [OF assms(1,3) ack(1) this]
      have "receive_end crc d a = a\<lparr>transport := handle_ack x (transport a)\<rparr>"
        using ack by (simp add: receive_end_def handle_datagram_def handle_ack_rest)
      then show ?thesis using link_cong [OF same_refl(1) r(2) assms(2)] r(1) by simp
    qed
  qed
  then show "link crc (receive_end crc d a) b ab ba" "link crc b (receive_end crc d a) ba ab" by simp_all
qed

lemma end_step_ok: "end_step crc s s' \<Longrightarrow> net_ok crc s \<Longrightarrow> net_ok crc s'"
proof (induction rule: end_step.induct)
  case (queues s payload)
  then have l: "link crc (near s) (far s) (near_out s) (far_out s)" "link crc (far s) (near s) (far_out s) (near_out s)"
    by (simp_all add: net_ok_def)
  show ?case
    using link_queue_end(1) [OF l(1)] link_cong [OF same_refl(1) link_queue_end(2) [OF l(1)] l(2)] by (simp add: net_ok_def)
next
  case (polls now s e ds)
  then have l: "link crc (near s) (far s) (near_out s) (far_out s)" "link crc (far s) (near s) (far_out s) (near_out s)"
    by (simp_all add: net_ok_def)
  show ?case using link_poll [OF l polls(1)] by (simp add: net_ok_def)
next
  case (delivers m d s)
  then have l: "link crc (near s) (far s) (near_out s) (far_out s)" "link crc (far s) (near s) (far_out s) (near_out s)"
    by (simp_all add: net_ok_def)
  show ?case using link_receive [OF l delivers(1,2)] by (simp add: net_ok_def)
next
  case (noise s d)
  then show ?case by (simp add: foreign_unchanged)
qed

lemma mirror_ok [simp]: "net_ok crc (mirror s) = net_ok crc s"
  by (auto simp: net_ok_def mirror_def)

lemma net_step_ok: "net_step crc s s' \<Longrightarrow> net_ok crc s \<Longrightarrow> net_ok crc s'"
  by (induction rule: net_step.induct) (metis end_step_ok mirror_ok)+

section \<open>Properties\<close>

lemma start_link:
  assumes "BcUdpTransport_new c1 c2 now1 cfg1 = Some (Inr a)" "BcUdpTransport_new c3 c4 now2 cfg2 = Some (Inr b)" "mtu cfg1 \<le> 2 ^ 32"
  shows "link crc (start_end a) (start_end b) [] []"
proof -
  have a: "sent a = []" "next_send_packet a = 0" "outputs a = []" "udp_config a = cfg1" "DATA_HEADER_LEN < mtu cfg1"
    using assms(1) by (auto simp: BcUdpTransport_new_def bind_eq_Some_conv split: if_splits)
  have b: "received b = []" "next_receive_packet b = 0" "outputs b = []"
    using assms(2) by (auto simp: BcUdpTransport_new_def bind_eq_Some_conv split: if_splits)
  show ?thesis
    unfolding link_def using a b assms(3)
    by (intro exI [of _ "{}"]) (simp add: sender_ok_def queue_ok_def receiver_ok_def start_end_def Let_def)
qed

definition udp_run :: "(byte list \<Rightarrow> u32) \<Rightarrow> i32 \<Rightarrow> i32 \<Rightarrow> BcUdpConfig \<Rightarrow> BcUdpConfig \<Rightarrow> udp_net \<Rightarrow> bool" where
  "udp_run crc near_id far_id near_config far_config s \<longleftrightarrow>
     (\<exists>now a b. BcUdpTransport_new near_id far_id now near_config = Some (Inr a)
        \<and> BcUdpTransport_new far_id near_id now far_config = Some (Inr b)
        \<and> (net_step crc)\<^sup>*\<^sup>* (start_net a b) s)"

lemma udp_run_ok:
  assumes "udp_run crc c1 c2 cfg1 cfg2 s" "mtu cfg1 \<le> 2 ^ 32" "mtu cfg2 \<le> 2 ^ 32"
  shows "link crc (near s) (far s) (near_out s) (far_out s)" "link crc (far s) (near s) (far_out s) (near_out s)"
proof -
  obtain now a b where new: "BcUdpTransport_new c1 c2 now cfg1 = Some (Inr a)" "BcUdpTransport_new c2 c1 now cfg2 = Some (Inr b)"
    and run: "(net_step crc)\<^sup>*\<^sup>* (start_net a b) s"
    using assms(1) unfolding udp_run_def by blast
  have "net_ok crc (start_net a b)"
    using start_link [OF new assms(2)] start_link [OF new(2,1) assms(3)] by (simp add: net_ok_def start_net_def)
  with run have "net_ok crc s" by (induction rule: rtranclp_induct) (auto intro: net_step_ok)
  then show "link crc (near s) (far s) (near_out s) (far_out s)" "link crc (far s) (near s) (far_out s) (near_out s)"
    by (simp_all add: net_ok_def)
qed

subsection \<open>Runs that can be executed\<close>

datatype udp_action = Queue "byte list" | Poll instant | Take nat

fun end_do :: "(byte list \<Rightarrow> u32) \<Rightarrow> udp_action \<Rightarrow> udp_net \<Rightarrow> udp_net option" where
  "end_do crc (Queue payload) s = Some (s\<lparr>near := queue_end crc payload (near s)\<rparr>)"
| "end_do crc (Poll now) s =
     (case poll_end crc now (near s) of
        None \<Rightarrow> None
      | Some (e, ds) \<Rightarrow> Some (s\<lparr>near := e, near_out := near_out s @ ds\<rparr>))"
| "end_do crc (Take i) s =
     (if i < length (far_out s) \<and> fresh crc (near s) (fst (far_out s ! i)) (snd (far_out s ! i))
      then Some (s\<lparr>near := receive_end crc (snd (far_out s ! i)) (near s)\<rparr>) else None)"

fun net_do :: "(byte list \<Rightarrow> u32) \<Rightarrow> (bool \<times> udp_action) list \<Rightarrow> udp_net \<Rightarrow> udp_net option" where
  "net_do crc [] s = Some s"
| "net_do crc ((at_near, x) # xs) s =
     Option.bind (if at_near then end_do crc x s else map_option mirror (end_do crc x (mirror s))) (net_do crc xs)"

lemma end_do_step: "end_do crc x s = Some s' \<Longrightarrow> end_step crc s s'"
proof (cases x)
  case (Take i)
  assume "end_do crc x s = Some s'"
  with Take have "i < length (far_out s)" "fresh crc (near s) (fst (far_out s ! i)) (snd (far_out s ! i))"
    "s' = s\<lparr>near := receive_end crc (snd (far_out s ! i)) (near s)\<rparr>" by (auto split: if_splits)
  then show ?thesis using delivers [of "fst (far_out s ! i)" "snd (far_out s ! i)" s crc] by simp
qed (auto intro: queues polls split: option.splits)

lemma net_do_steps: "net_do crc xs s = Some s' \<Longrightarrow> (net_step crc)\<^sup>*\<^sup>* s s'"
proof (induction crc xs s rule: net_do.induct)
  case (2 crc n x xs s)
  then obtain s1 where s1: "(if n then end_do crc x s else map_option mirror (end_do crc x (mirror s))) = Some s1"
    "net_do crc xs s1 = Some s'" by (auto simp: bind_eq_Some_conv)
  then have "net_step crc s s1"
    by (auto intro: at_near at_far end_do_step split: if_splits)
  then show ?case using 2(1) [OF s1] by (rule converse_rtranclp_into_rtranclp)
qed simp

definition tiny_config :: BcUdpConfig where
  "tiny_config = \<lparr>mtu = 21, ack_interval = 10, resend_interval = 50\<rparr>"

definition tiny_net :: "(bool \<times> udp_action) list \<Rightarrow> udp_net option" where
  "tiny_net xs =
     (case (BcUdpTransport_new 10 20 0 tiny_config, BcUdpTransport_new 20 10 0 tiny_config) of
        (Some (Inr a), Some (Inr b)) \<Rightarrow> net_do (\<lambda>_. 0) xs (start_net a b)
      | _ \<Rightarrow> None)"

lemma tiny_run: "tiny_net xs = Some s \<Longrightarrow> udp_run (\<lambda>_. 0) 10 20 tiny_config tiny_config s"
  unfolding udp_run_def tiny_net_def by (auto split: option.splits sum.splits intro: net_do_steps)

definition reordered :: "(bool \<times> udp_action) list" where
  "reordered = [(True, Queue [7, 8]), (True, Poll 0), (True, Poll 0), (False, Take 1)]"

subsection \<open>Order\<close>

lemma link_prefix: "link crc a b ab ba \<Longrightarrow> prefix (read_bytes b) (concat (written a))"
proof (erule linkE)
  fix R assume "receiver_ok b (written a) R"
  then have "prefix (read_bytes b) (concat (take (taken b) (written a)))"
    using receiver_okD(6) by (metis prefixI)
  also have "prefix \<dots> (concat (written a))"
    by (metis append_take_drop_id concat_append prefixI)
  finally show ?thesis .
qed

text \<open>
  C11: Delivery in order. Two transports that were created for each other exchange datagrams over a
  network that loses, repeats and reorders them and delivers foreign ones. In every state the bytes
  that one side's reader got are a prefix of the bytes that the other side queued, although packet
  numbers have 32 bits and wrap: nothing is missing in between, repeated, swapped or taken from
  elsewhere. The only assumption about the network is part of its steps: a datagram is not delivered
  once its packet number lies half the range of numbers back.
\<close>

theorem udp_delivers_in_order:
  assumes "udp_run crc near_id far_id near_config far_config s" "mtu near_config \<le> 2 ^ 32" "mtu far_config \<le> 2 ^ 32"
  shows "prefix (read_bytes (far s)) (concat (written (near s))) \<and> prefix (read_bytes (near s)) (concat (written (far s)))"
  using udp_run_ok [OF assms] link_prefix by blast

theorem udp_delivers_in_order_witness:
  "\<exists>s. udp_run (\<lambda>_. 0) 10 20 tiny_config tiny_config s \<and> read_bytes (far s) = [7, 8]
    \<and> prefix (read_bytes (far s)) (concat (written (near s))) \<and> prefix (read_bytes (near s)) (concat (written (far s)))"
proof -
  have "(case tiny_net (reordered @ [(False, Take 0), (False, Poll 0)]) of None \<Rightarrow> False | Some s \<Rightarrow> read_bytes (far s) = [7, 8])"
    by code_simp
  then obtain s where s: "tiny_net (reordered @ [(False, Take 0), (False, Poll 0)]) = Some s" "read_bytes (far s) = [7, 8]"
    by (auto split: option.splits)
  have "mtu tiny_config \<le> 2 ^ 32" by (simp add: tiny_config_def)
  with s udp_delivers_in_order [OF tiny_run [OF s(1)]] show ?thesis using tiny_run [OF s(1)] by blast
qed

lemma link_holds_unreceived:
  assumes "link crc a b ab ba" "taken b \<le> k" "k < length (written a)"
  shows "bt_get (sent (transport a)) (num k) = Some (pkt a k) \<or> bt_get (received (transport b)) (num k) = Some (written a ! k)"
proof -
  obtain S R where l: "sender_ok a S" "receiver_ok b (written a) R" "{taken b..<length (written a)} \<subseteq> S \<union> R"
    using assms(1) by (rule linkE)
  have "k \<in> S \<or> k \<in> R" using l(3) assms(2,3) by auto
  moreover have "bt_get (sent (transport a)) (num k) = Some (pkt a k)" if "k \<in> S"
    using sender_okD(2) [OF l(1)] that by (simp add: numbered_def)
  moreover have "bt_get (received (transport b)) (num k) = Some (written a ! k)" if "k \<in> R"
    using receiver_okD(2) [OF l(2)] that by (simp add: numbered_def)
  ultimately show ?thesis by blast
qed

lemma link_windows:
  assumes "link crc a b ab ba"
  shows "length (sent (transport a)) \<le> MAX_IN_FLIGHT_PACKETS" "length (received (transport b)) < unat MAX_RECEIVE_WINDOW"
    "length (written a) \<le> taken b + MAX_IN_FLIGHT_PACKETS + unat MAX_RECEIVE_WINDOW"
proof -
  obtain S R where l: "sender_ok a S" "receiver_ok b (written a) R" "{taken b..<length (written a)} \<subseteq> S \<union> R"
    using assms(1) by (rule linkE)
  show "length (sent (transport a)) \<le> MAX_IN_FLIGHT_PACKETS"
    using sender_window(2) [OF l(1)] sender_okD(4) [OF l(1)] by (simp add: MAX_IN_FLIGHT_PACKETS_def)
  have "R \<subseteq> {taken b..<taken b + 2 ^ 32}" using receiver_okD(3) [OF l(2)] by auto
  then have "length (received (transport b)) = card R" using receiver_okD(2) [OF l(2)] numbered_length by blast
  also have "\<dots> \<le> card {taken b<..<taken b + 256}" using receiver_okD(3) [OF l(2)] by (intro card_mono) auto
  finally show "length (received (transport b)) < unat MAX_RECEIVE_WINDOW" by (simp add: MAX_RECEIVE_WINDOW_def)
  show "length (written a) \<le> taken b + MAX_IN_FLIGHT_PACKETS + unat MAX_RECEIVE_WINDOW"
    using unacked_recent [OF l] by (simp add: MAX_IN_FLIGHT_PACKETS_def MAX_RECEIVE_WINDOW_def)
qed

text \<open>
  C13: Nothing is forgotten. In every state of the same network a packet that the peer has not taken in
  order yet is still held by the sender for resending, or the peer holds it with its own bytes; both
  buffers stay within their windows, and the numbers of the two sides never drift further apart than
  the two windows together.
\<close>

theorem udp_nothing_forgotten:
  assumes "udp_run crc near_id far_id near_config far_config s" "mtu near_config \<le> 2 ^ 32" "mtu far_config \<le> 2 ^ 32"
    "taken (far s) \<le> k" "k < length (written (near s))"
  shows "(bt_get (sent (transport (near s))) (num k) =
            Some \<lparr>data_connection_id = camera_id (transport (near s)), data_packet_id = num k, data_payload = written (near s) ! k\<rparr>
          \<or> bt_get (received (transport (far s))) (num k) = Some (written (near s) ! k))
     \<and> length (sent (transport (near s))) \<le> MAX_IN_FLIGHT_PACKETS
     \<and> length (received (transport (far s))) < unat MAX_RECEIVE_WINDOW
     \<and> length (written (near s)) \<le> taken (far s) + MAX_IN_FLIGHT_PACKETS + unat MAX_RECEIVE_WINDOW"
  using link_holds_unreceived [OF udp_run_ok(1) [OF assms(1-3)] assms(4,5)] link_windows [OF udp_run_ok(1) [OF assms(1-3)]]
  by (simp add: pkt_def)

theorem udp_nothing_forgotten_witness:
  "\<exists>s. udp_run (\<lambda>_. 0) 10 20 tiny_config tiny_config s \<and> taken (far s) = 0 \<and> length (written (near s)) = 2
    \<and> length (received (transport (far s))) = 1
    \<and> (bt_get (sent (transport (near s))) (num 1) =
            Some \<lparr>data_connection_id = camera_id (transport (near s)), data_packet_id = num 1, data_payload = written (near s) ! 1\<rparr>
          \<or> bt_get (received (transport (far s))) (num 1) = Some (written (near s) ! 1))"
proof -
  have "(case tiny_net reordered of None \<Rightarrow> False
      | Some s \<Rightarrow> taken (far s) = 0 \<and> length (written (near s)) = 2 \<and> length (received (transport (far s))) = 1)"
    by code_simp
  then obtain s where s: "tiny_net reordered = Some s" "taken (far s) = 0" "length (written (near s)) = 2"
      "length (received (transport (far s))) = 1"
    by (auto split: option.splits)
  have "mtu tiny_config \<le> 2 ^ 32" by (simp add: tiny_config_def)
  with s udp_nothing_forgotten [OF tiny_run [OF s(1)], of 1] show ?thesis using tiny_run [OF s(1)] by auto
qed

subsection \<open>Progress\<close>

definition got :: "udp_end \<Rightarrow> nat \<Rightarrow> bool" where
  "got e k \<longleftrightarrow> k < taken e \<or> bt_get (received (transport e)) (num k) \<noteq> None"

lemma got_iff:
  assumes "receiver_ok b ws R" "k < taken b + 256"
  shows "got b k \<longleftrightarrow> k < taken b \<or> k \<in> R"
proof (cases "k < taken b")
  case False
  have "R \<subseteq> {taken b..<taken b + 2 ^ 32}" "k \<in> {taken b..<taken b + 2 ^ 32}"
    using receiver_okD(3) [OF assms(1)] assms(2) False by auto
  then show ?thesis using numbered_get [OF receiver_okD(2) [OF assms(1)]] False by (simp add: got_def)
qed (simp add: got_def)

lemma flush_client_id: "client_id (flush_received t) = client_id t"
  by (simp add: flush_received_def Let_def split: prod.split)

lemma receive_got:
  assumes "link crc a b ab ba" "(m, d) \<in> set ab" "decode crc d = Inr (Data x)" "data_connection_id x = client_id (transport b)"
    "taken b \<le> m + 2 ^ 31" "length (written a) \<le> taken b + 256"
  defines "b' \<equiv> receive_end crc d b"
  shows "taken b \<le> taken b'" "client_id (transport b') = client_id (transport b)"
    "k < length (written a) \<Longrightarrow> k = m \<or> got b k \<Longrightarrow> got b' k"
proof -
  obtain S R where l: "sender_ok a S" "queue_ok a" "receiver_ok b (written a) R" "\<forall>md\<in>set ab. data_ok crc a md"
    using assms(1) by (rule linkE)
  note r = receiver_okD [OF l(3)]
  have m: "m < length (written a)" "x = pkt a m"
    using bspec [OF l(4) assms(2)] assms(3) l(2) by (auto simp: data_ok_def queue_ok_def)
  let ?t = "transport b"
  have dist: "data_packet_id x - next_receive_packet ?t = num m - num (taken b)"
    using m(2) r(1) by (simp add: pkt_def)
  have "taken b \<le> taken b' \<and> client_id (transport b') = client_id ?t \<and> (k < length (written a) \<longrightarrow> k = m \<or> got b k \<longrightarrow> got b' k)"
  proof (cases "taken b \<le> m")
    case False
    then have "unat (num m - num (taken b)) \<ge> 256" using distance_behind [of m "taken b"] assms(5) by simp
    then have "b' = b"
      unfolding b'_def using assms(3) dist by (intro receive_unchanged) (simp add: handle_datagram_def handle_data_def Let_def in_window)
    with False show ?thesis by (auto simp: got_def)
  next
    case True
    have near: "m < taken b + 256" using m(1) assms(6) by simp
    have pl: "data_payload x = written a ! m" "data_packet_id x = num m" using m(2) by (simp_all add: pkt_def)
    let ?t' = "flush_received (if bt_get (received ?t) (data_packet_id x) = None
        then ?t\<lparr>received := bt_insert (data_packet_id x) (data_payload x) (received ?t)\<rparr> else ?t)"
    obtain r' where r': "taken b \<le> r'" "next_receive_packet ?t' = num r'" "{taken b..<r'} \<subseteq> insert m R" "r' \<notin> insert m R"
      "numbered ((!) (written a)) (insert m R - {taken b..<r'}) (received ?t')"
      by (rule accept_effect [OF l(3) True near m(1) pl])
    have "unat (num m - num (taken b)) < 256" using distance_ahead [of "taken b" m] True near by (simp add: less_diff_conv2)
    then have "handle_datagram crc d ?t = (Inr (), ?t')"
      using assms(3,4) dist by (simp add: handle_datagram_def handle_data_def Let_def in_window)
    then have b': "b' = b\<lparr>transport := ?t', taken := taken b + unat (num r' - num (taken b))\<rparr>"
      unfolding b'_def receive_end_def Let_def using r'(2) r(1) by simp
    have le: "r' \<le> length (written a)"
    proof (rule ccontr)
      assume "\<not> r' \<le> length (written a)"
      then have "length (written a) \<in> {taken b..<r'}" using r(5) by simp
      with r'(3) r(4) m(1) show False by fastforce
    qed
    have tk: "taken b' = r'" using b' r'(1) le assms(6) distance_ahead [of "taken b" r'] by simp
    have "client_id ?t' = client_id ?t" by (simp add: flush_client_id)
    moreover have "got b' k" if k: "k < length (written a)" "k = m \<or> got b k"
    proof (cases "k < r'")
      case False
      have "k = m \<or> k \<in> R" using k got_iff [OF l(3), of k] assms(6) r'(1) False by auto
      then have "k \<in> insert m R - {taken b..<r'}" using False by auto
      then show ?thesis using r'(5) by (simp add: got_def b' numbered_def)
    qed (simp add: got_def tk)
    ultimately show ?thesis using tk r'(1) b' by simp
  qed
  then show "taken b \<le> taken b'" "client_id (transport b') = client_id (transport b)"
    "k < length (written a) \<Longrightarrow> k = m \<or> got b k \<Longrightarrow> got b' k" by simp_all
qed

lemma receive_all:
  assumes "link crc a b (map (\<lambda>k. (k, pkt_bytes a k)) ls) ba" "sender_ok a S" "set ks \<subseteq> set ls" "set ls \<subseteq> S"
    "camera_id (transport a) = client_id (transport b)" "length (written a) \<le> taken b + 256"
  defines "b' \<equiv> foldl (\<lambda>e k. receive_end crc (pkt_bytes a k) e) b ks"
  shows "link crc a b' (map (\<lambda>k. (k, pkt_bytes a k)) ls) ba \<and> (\<forall>k < length (written a). k \<in> set ks \<or> got b k \<longrightarrow> got b' k)"
  using assms(1,3,5,6) unfolding b'_def
proof (induction ks arbitrary: b)
  case (Cons k ks)
  let ?ab = "map (\<lambda>k. (k, pkt_bytes a k)) ls"
  let ?b = "receive_end crc (pkt_bytes a k) b"
  note S = sender_okD [OF assms(2)]
  have kS: "k \<in> S" "k < length (written a)" using Cons.prems(2) assms(4) S(3) by auto
  have dec: "decode crc (pkt_bytes a k) = Inr (Data (pkt a k))" by (rule pkt_encodes(2) [OF assms(2) kS(2)])
  have "taken b \<le> length (written a)" using Cons.prems(1) by (auto elim!: linkE dest: receiver_okD(5))
  then have fr: "taken b \<le> k + 2 ^ 31" using S(5) [OF kS(1)] by simp
  have mem: "(k, pkt_bytes a k) \<in> set ?ab" using Cons.prems(2) by simp
  have id: "data_connection_id (pkt a k) = client_id (transport b)" using Cons.prems(3) by (simp add: pkt_def)
  note g = receive_got [OF Cons.prems(1) mem dec id fr Cons.prems(4)]
  have "link crc a ?b ?ab ba" by (rule link_data(1) [OF Cons.prems(1) mem dec fr])
  then have IH: "link crc a (foldl (\<lambda>e k. receive_end crc (pkt_bytes a k) e) ?b ks) ?ab ba"
    "\<forall>j < length (written a). j \<in> set ks \<or> got ?b j \<longrightarrow> got (foldl (\<lambda>e k. receive_end crc (pkt_bytes a k) e) ?b ks) j"
    using Cons.IH [of ?b] Cons.prems(2,3,4) g(1,2) by simp_all
  show ?case using IH g(3) by auto
qed simp

text \<open>
  C12: Resending completes the stream. Take any state of the network in which the sender has nothing
  left to hand to its socket and at most a window of packets is missing on the other side. If the
  datagrams of the packets the sender still holds reach the receiver, in whatever order and however
  often each, then the receiver has taken every packet that was ever queued, and the bytes it handed to
  its reader or is about to are exactly the bytes queued.
\<close>

theorem udp_resend_completes:
  assumes "udp_run crc near_id far_id near_config far_config s" "mtu near_config \<le> 2 ^ 32" "mtu far_config \<le> 2 ^ 32"
    "outputs (transport (near s)) = []" "length (written (near s)) \<le> taken (far s) + unat MAX_RECEIVE_WINDOW"
    "camera_id (transport (near s)) = client_id (transport (far s))"
    "set ds = (\<lambda>x. projr (encode crc (Data (snd x)))) ` set (sent (transport (near s)))"
  shows "let e = foldl (\<lambda>e d. receive_end crc d e) (far s) ds
    in taken e = length (written (near s)) \<and> read_bytes e @ payloads (outputs (transport e)) = concat (written (near s))"
proof -
  let ?a = "near s" and ?b = "far s"
  have window: "length (written ?a) \<le> taken ?b + 256" using assms(5) by (simp add: MAX_RECEIVE_WINDOW_def)
  obtain S R where l: "sender_ok ?a S" "queue_ok ?a" "receiver_ok ?b (written ?a) R" "R \<subseteq> {..<polled ?a}" "taken ?b \<le> polled ?a"
    "{taken ?b..<length (written ?a)} \<subseteq> S \<union> R" "\<forall>md\<in>set (far_out s). ack_ok crc ?b R md"
    using udp_run_ok(1) [OF assms(1-3)] by (rule linkE)
  note S = sender_okD [OF l(1)]
  have poll: "polled ?a = length (written ?a)" using l(2) assms(4) by (auto simp: queue_ok_def)
  have "set ds = pkt_bytes ?a ` S"
    using assms(7) arg_cong [OF numbered_values [OF S(2)], of "image (\<lambda>x. projr (encode crc (Data x)))"]
    by (simp add: image_image pkt_bytes_def)
  moreover have inj: "inj_on (pkt_bytes ?a) S"
  proof (rule inj_onI)
    fix j k assume jk: "j \<in> S" "k \<in> S" "pkt_bytes ?a j = pkt_bytes ?a k"
    then have "j < length (written ?a)" "k < length (written ?a)" using S(3) by auto
    then have "pkt ?a j = pkt ?a k" using pkt_encodes(2) [OF l(1), of j crc] pkt_encodes(2) [OF l(1), of k crc] jk(3) by simp
    then have "num j = num k" by (simp add: pkt_def)
    then show "j = k" using num_inj sender_window(1) [OF l(1)] jk(1,2) by blast
  qed
  ultimately obtain ks where ks: "ds = map (pkt_bytes ?a) ks" "set ks = S"
    using map_choice [of ds "pkt_bytes ?a" S] by (metis inj_on_image_eq_iff order_refl set_map)
  let ?ab = "map (\<lambda>k. (k, pkt_bytes ?a k)) ks"
  have "data_ok crc ?a md" if "md \<in> set ?ab" for md
    using that ks(2) S(3) poll pkt_encodes(2) [OF l(1), of _ crc] by (auto simp: data_ok_def)
  then have "link crc ?a ?b ?ab (far_out s)" unfolding link_def using l by blast
  note all = receive_all [OF this l(1) subset_refl _ assms(6) window]
  let ?e = "foldl (\<lambda>e k. receive_end crc (pkt_bytes ?a k) e) ?b ks"
  have e: "link crc ?a ?e ?ab (far_out s)" "\<And>k. k < length (written ?a) \<Longrightarrow> k \<in> S \<or> got ?b k \<Longrightarrow> got ?e k"
    using all ks(2) by auto
  obtain R' where R': "receiver_ok ?e (written ?a) R'" using e(1) by (rule linkE)
  have all_taken: "taken ?e = length (written ?a)"
  proof (rule ccontr)
    assume "taken ?e \<noteq> length (written ?a)"
    then have lt: "taken ?e < length (written ?a)" using receiver_okD(5) [OF R'] by simp
    then have "taken ?e \<in> S \<or> got ?b (taken ?e)"
      using subsetD [OF l(6), of "taken ?e"] got_iff [OF l(3), of "taken ?e"] window by (cases "taken ?e < taken ?b") auto
    then have "got ?e (taken ?e)" using e(2) lt by blast
    then show False using got_iff [OF R', of "taken ?e"] receiver_okD(3) [OF R'] by auto
  qed
  with receiver_okD(6) [OF R'] show ?thesis by (simp add: ks(1) foldl_map Let_def)
qed

theorem udp_resend_completes_witness:
  "\<exists>s. udp_run (\<lambda>_. 0) 10 20 tiny_config tiny_config s \<and> taken (far s) = 0 \<and>
    taken (foldl (\<lambda>e d. receive_end (\<lambda>_. 0) d e) (far s) (map snd (rev (near_out s)))) = 2"
proof -
  have "(case tiny_net reordered of None \<Rightarrow> False
      | Some s \<Rightarrow> taken (far s) = 0 \<and> length (written (near s)) = 2 \<and> outputs (transport (near s)) = []
         \<and> camera_id (transport (near s)) = client_id (transport (far s))
         \<and> set (map snd (rev (near_out s))) = (\<lambda>x. projr (encode (\<lambda>_. 0) (Data (snd x)))) ` set (sent (transport (near s))))"
    by code_simp
  then obtain s where s: "tiny_net reordered = Some s" "taken (far s) = 0" "length (written (near s)) = 2"
      "outputs (transport (near s)) = []" "camera_id (transport (near s)) = client_id (transport (far s))"
      "set (map snd (rev (near_out s))) = (\<lambda>x. projr (encode (\<lambda>_. 0) (Data (snd x)))) ` set (sent (transport (near s)))"
    by (auto split: option.splits)
  have "mtu tiny_config \<le> 2 ^ 32" by (simp add: tiny_config_def)
  with s udp_resend_completes [OF tiny_run [OF s(1)] _ _ s(4) _ s(5,6)] show ?thesis
    using tiny_run [OF s(1)] by (auto simp: MAX_RECEIVE_WINDOW_def Let_def)
qed

subsection \<open>The loop around \<open>poll_output\<close>\<close>

lemma poll_output_pop: "outputs t = x # rest \<Longrightarrow> poll_output crc now t = Some (Inr x, t\<lparr>outputs := rest\<rparr>)"
  by (simp add: poll_output_def)

lemma build_ack_encodes: "\<exists>d. encode_ack (build_ack t) = Inr d"
proof -
  let ?ds = "filter (\<lambda>d. d < MAX_RECEIVE_WINDOW) (map (\<lambda>e. fst e - next_receive_packet t) (received t))"
  have "unat (Max (set ?ds)) < 256" if "?ds \<noteq> []"
    using Max_in [of "set ?ds"] that in_window by force
  then have "length (ack_received (build_ack t)) < 2 ^ 32"
    by (auto simp: build_ack_def Let_def flag_bits)
  then show ?thesis by (simp add: encode_ack_def u32_len_def Let_def)
qed

lemma encode_data_small: "length (data_payload x) < 2 ^ 32 \<Longrightarrow> \<exists>d. encode_data x = Inr d"
  by (simp add: encode_data_def u32_len_def Let_def)

definition is_timeout :: "BcUdpOutput \<Rightarrow> bool" where
  "is_timeout x = (case x of Timeout i \<Rightarrow> True | _ \<Rightarrow> False)"

lemma no_outputs: "outputs t = [] \<Longrightarrow> t\<lparr>outputs := []\<rparr> = t"
  by (cases t) simp

lemma pump_polls_queue:
  assumes "list_all (\<lambda>x. \<not> is_timeout x) outs" "outputs t = outs"
  shows "pump_polls crc now t acc = pump_polls crc now (t\<lparr>outputs := []\<rparr>) (acc @ outs)"
  using assms
proof (induction outs arbitrary: t acc)
  case (Cons x outs)
  have "pump_polls crc now t acc = pump_polls crc now (t\<lparr>outputs := outs\<rparr>) (acc @ [x])"
    using Cons.prems by (subst pump_polls.simps) (cases x, simp_all add: poll_output_pop is_timeout_def)
  also have "\<dots> = pump_polls crc now (t\<lparr>outputs := []\<rparr>) ((acc @ [x]) @ outs)"
    using Cons.IH [of "t\<lparr>outputs := outs\<rparr>" "acc @ [x]"] Cons.prems by simp
  finally show ?case by simp
qed (simp add: no_outputs)

lemma pump_polls_idle:
  "outputs t = [] \<Longrightarrow> now < next_ack t \<Longrightarrow> now < next_resend t \<Longrightarrow>
   pump_polls crc now t acc = Some (Inr (min (next_ack t) (next_resend t)), acc, t)"
  by (subst pump_polls.simps) (simp add: poll_output_def)

lemma pump_polls_resend:
  assumes "outputs t = []" "now < next_ack t" "0 < resend_interval (udp_config t)" "now + resend_interval (udp_config t) \<le> instant_max"
    "\<forall>x\<in>set (sent t). length (data_payload (snd x)) < 2 ^ 32"
  shows "\<exists>d ds t'. pump_polls crc now t acc = Some (Inr d, acc @ ds, t') \<and> now < d \<and> length ds \<le> length (sent t)"
proof (cases "now < next_resend t")
  case True
  with assms(1,2) show ?thesis
    by (intro exI [of _ "min (next_ack t) (next_resend t)"] exI [of _ "[]"]) (simp add: pump_polls_idle)
next
  case False
  obtain i where i: "advance_deadline (next_resend t) (resend_interval (udp_config t)) now = Some i" "now < i"
    using advance_deadline_returns [OF assms(3,4), of "next_resend t"] by blast
  let ?outs = "map (\<lambda>d. Datagram (projr (encode_data d))) (map snd (sent t))"
  let ?t = "t\<lparr>next_resend := i\<rparr>"
  have push: "push_resends crc (map snd (sent t)) ?t = (Inr (), ?t\<lparr>outputs := ?outs\<rparr>)"
    using assms(1,5) encode_data_small by (subst push_resends_effect) auto
  have idle: "pump_polls crc now ?t acc' = Some (Inr (min (next_ack t) i), acc', ?t)" for acc'
    using assms(1,2) i(2) pump_polls_idle [of ?t] by simp
  have "pump_polls crc now t acc = Some (Inr (min (next_ack t) i), acc @ ?outs, ?t)"
  proof (cases "sent t")
    case Nil
    then show ?thesis
      using assms(1,2) False i(1) push by (subst pump_polls.simps) (simp add: poll_output_def)
  next
    case (Cons e rest)
    let ?rest = "map (\<lambda>d. Datagram (projr (encode_data d))) (map snd rest)"
    have "poll_output crc now t = Some (Inr (Datagram (projr (encode_data (snd e)))), ?t\<lparr>outputs := ?rest\<rparr>)"
      using assms(1,2) False i(1) push Cons by (simp add: poll_output_def)
    then have "pump_polls crc now t acc = pump_polls crc now (?t\<lparr>outputs := ?rest\<rparr>) (acc @ [Datagram (projr (encode_data (snd e)))])"
      by (subst pump_polls.simps) simp
    also have "\<dots> = pump_polls crc now ?t ((acc @ [Datagram (projr (encode_data (snd e)))]) @ ?rest)"
      using pump_polls_queue [of ?rest "?t\<lparr>outputs := ?rest\<rparr>"] no_outputs [of ?t] assms(1) by (simp add: is_timeout_def list_all_iff)
    finally show ?thesis using Cons by (simp add: idle)
  qed
  with assms(2) i(2) show ?thesis by (intro exI [of _ "min (next_ack t) i"] exI [of _ ?outs]) simp
qed

text \<open>
  C38: The inner loop of the UDP pump ends. Whatever a transport has queued, polling it at one moment
  until it asks to wait stops after the queued outputs, one acknowledgement and one resend of each
  packet that waits, and the deadline it then asks to wait for lies in the future. The intervals are not
  zero, which the constructor checks, the clock is not at its last instant, and no packet is longer than
  its length field can say.
\<close>

theorem pump_polls_ends:
  assumes "0 < ack_interval (udp_config t)" "0 < resend_interval (udp_config t)"
    "now + ack_interval (udp_config t) \<le> instant_max" "now + resend_interval (udp_config t) \<le> instant_max"
    "list_all (\<lambda>x. \<not> is_timeout x) (outputs t)" "list_all (\<lambda>x. length (data_payload (snd x)) < 2 ^ 32) (sent t)"
  shows "\<exists>d outs t'. pump_polls crc now t [] = Some (Inr d, outs, t') \<and> now < d
    \<and> length outs \<le> length (outputs t) + 1 + length (sent t)"
proof -
  let ?t = "t\<lparr>outputs := []\<rparr>"
  have q: "pump_polls crc now t [] = pump_polls crc now ?t (outputs t)"
    using pump_polls_queue [OF assms(5), of t crc now "[]"] by simp
  have small: "\<forall>x\<in>set (sent t). length (data_payload (snd x)) < 2 ^ 32" using assms(6) by (simp add: list_all_iff)
  show ?thesis
  proof (cases "next_ack t \<le> now")
    case False
    then show ?thesis using pump_polls_resend [of ?t now crc "outputs t"] q assms(2,4) small by fastforce
  next
    case True
    obtain i where i: "advance_deadline (next_ack t) (ack_interval (udp_config t)) now = Some i" "now < i"
      using advance_deadline_returns [OF assms(1,3), of "next_ack t"] by blast
    obtain d where d: "encode_ack (build_ack (?t\<lparr>next_ack := i\<rparr>)) = Inr d" using build_ack_encodes by blast
    have "poll_output crc now ?t = Some (Inr (Datagram d), ?t\<lparr>next_ack := i\<rparr>)"
      using True i(1) d by (simp add: poll_output_def Let_def)
    then have "pump_polls crc now t [] = pump_polls crc now (?t\<lparr>next_ack := i\<rparr>) (outputs t @ [Datagram d])"
      unfolding q by (subst pump_polls.simps) simp
    then show ?thesis using pump_polls_resend [of "?t\<lparr>next_ack := i\<rparr>" now crc "outputs t @ [Datagram d]"] assms(2,4) small i(2) by fastforce
  qed
qed

theorem pump_polls_ends_witness:
  "\<exists>d outs t'. pump_polls (\<lambda>_. 0) 10 \<lparr>client_id = 10, camera_id = 20, udp_config = tiny_config, next_send_packet = 0,
      next_receive_packet = 0, sent = [], received = [], outputs = [Payload [1]], next_ack = 10, next_resend = 50\<rparr> []
    = Some (Inr d, outs, t') \<and> 10 < d"
  using pump_polls_ends [of "\<lparr>client_id = 10, camera_id = 20, udp_config = tiny_config, next_send_packet = 0,
      next_receive_packet = 0, sent = [], received = [], outputs = [Payload [1]], next_ack = 10, next_resend = 50\<rparr>" 10 "\<lambda>_. 0"]
  by (auto simp: tiny_config_def instant_max_def is_timeout_def)

end
