(* ===== verification/Bc_Framing.thy ===== *)
theory Bc_Framing
  imports Bc_Wire
begin

text \<open>
  Messages on the Baichuan byte stream, \<open>src/crates/reo-proto/src\<close>: the magic numbers of \<open>magic.rs\<close>, the
  header of \<open>header.rs\<close>, the accumulating reader of \<open>framing.rs\<close> and the body ciphers of \<open>encryption.rs\<close>.
  MD5 and AES-128 in CFB mode come from other packages: \<open>md5\<close> gives the sixteen bytes of the digest,
  \<open>aes_encrypt\<close> and \<open>aes_decrypt\<close> are the cipher under a key and an initialisation vector.
\<close>

unbundle bit_operations_syntax

type_synonym u16 = "16 word"

section \<open>Magic numbers\<close>

definition BC_MAGIC :: u32 where
  "BC_MAGIC = 0x0abcdef0"

definition BC_MAGIC_BYTES :: "byte list" where
  "BC_MAGIC_BYTES = [0xf0, 0xde, 0xbc, 0x0a]"

definition JPEG_MAGIC :: u32 where
  "JPEG_MAGIC = 0x0fedcba0"

definition JPEG_MAGIC_BYTES :: "byte list" where
  "JPEG_MAGIC_BYTES = [0xa0, 0xcb, 0xed, 0x0f]"

definition is_header_magic :: "u32 \<Rightarrow> bool" where
  "is_header_magic magic \<longleftrightarrow> magic = BC_MAGIC \<or> magic = JPEG_MAGIC"

definition starts_with :: "'a list \<Rightarrow> 'a list \<Rightarrow> bool" where
  "starts_with xs p \<longleftrightarrow> take (length p) xs = p"

definition has_header_magic :: "byte list \<Rightarrow> bool" where
  "has_header_magic data \<longleftrightarrow> starts_with data BC_MAGIC_BYTES \<or> starts_with data JPEG_MAGIC_BYTES"

definition HEADER_LEN_SHORT :: usize where
  "HEADER_LEN_SHORT = 20"

definition HEADER_LEN_EXTENDED :: usize where
  "HEADER_LEN_EXTENDED = 24"

definition BC_CLASS_LEGACY :: u16 where
  "BC_CLASS_LEGACY = 0x6514"

definition BC_CLASS_MODERN_SHORT :: u16 where
  "BC_CLASS_MODERN_SHORT = 0x6614"

definition BC_CLASS_MODERN_EXT :: u16 where
  "BC_CLASS_MODERN_EXT = 0x6414"

definition make_status :: "u16 \<Rightarrow> u16 \<Rightarrow> u32" where
  "make_status cls response_code = push_bit 16 (ucast cls) OR ucast response_code"

section \<open>Header\<close>

record PacketHeader =
  msg_id :: u32
  body_len :: u32
  encryption_offset :: u32
  status_class :: u32
  extension :: "u32 option"

definition channel_id :: "PacketHeader \<Rightarrow> byte" where
  "channel_id h = ucast (encryption_offset h)"

definition stream_type_id :: "PacketHeader \<Rightarrow> byte" where
  "stream_type_id h = ucast (drop_bit 8 (encryption_offset h))"

definition message_number :: "PacketHeader \<Rightarrow> u16" where
  "message_number h = ucast (drop_bit 16 (encryption_offset h))"

definition with_message_number :: "PacketHeader \<Rightarrow> u16 \<Rightarrow> PacketHeader" where
  "with_message_number h n = h\<lparr>encryption_offset := (encryption_offset h AND 0xffff) OR push_bit 16 (ucast n)\<rparr>"

definition header_len :: "PacketHeader \<Rightarrow> usize" where
  "header_len h = (if extension h \<noteq> None then HEADER_LEN_EXTENDED else HEADER_LEN_SHORT)"

definition bc_class :: "PacketHeader \<Rightarrow> u16" where
  "bc_class h = ucast (drop_bit 16 (status_class h) AND 0xffff)"

definition response_code :: "PacketHeader \<Rightarrow> u16" where
  "response_code h = ucast (status_class h AND 0xffff)"

definition is_binary :: "PacketHeader \<Rightarrow> bool" where
  "is_binary h \<longleftrightarrow> bc_class h = BC_CLASS_LEGACY"

definition is_modern :: "PacketHeader \<Rightarrow> bool" where
  "is_modern h \<longleftrightarrow> bc_class h = BC_CLASS_MODERN_EXT \<or> bc_class h = BC_CLASS_MODERN_SHORT \<or> bc_class h = 0"

definition is_extended :: "PacketHeader \<Rightarrow> bool" where
  "is_extended h \<longleftrightarrow> bc_class h = BC_CLASS_MODERN_EXT \<or> bc_class h = 0"

text \<open>The word at an offset; the callers have checked that it is inside the data.\<close>

definition word_at :: "byte list \<Rightarrow> nat \<Rightarrow> u32" where
  "word_at data offset = from_le_bytes (take 4 (drop offset data))"

definition PacketHeader_parse :: "byte list \<Rightarrow> BcError + PacketHeader \<times> usize" where
  "PacketHeader_parse data =
     (if length data < HEADER_LEN_SHORT then Inl Incomplete
      else
        let magic = word_at data 0
        in if \<not> is_header_magic magic then Inl (BadMagic (take 4 data))
           else
             let h = \<lparr>msg_id = word_at data 4, body_len = word_at data 8, encryption_offset = word_at data 12,
                      status_class = word_at data 16, extension = None\<rparr>
             in if is_extended h
                then if length data < HEADER_LEN_EXTENDED then Inl Incomplete
                     else Inr (h\<lparr>extension := Some (word_at data 20)\<rparr>, HEADER_LEN_EXTENDED)
                else Inr (h, HEADER_LEN_SHORT))"

text \<open>The 24-byte buffer after the call, and how many of its bytes were written.\<close>

definition serialize :: "PacketHeader \<Rightarrow> byte list \<Rightarrow> byte list \<times> usize" where
  "serialize h buf =
     (let short = to_le_bytes BC_MAGIC @ to_le_bytes (msg_id h) @ to_le_bytes (body_len h)
                  @ to_le_bytes (encryption_offset h) @ to_le_bytes (status_class h)
      in case extension h of
           None \<Rightarrow> (short @ drop HEADER_LEN_SHORT buf, HEADER_LEN_SHORT)
         | Some ext \<Rightarrow> (short @ to_le_bytes ext, HEADER_LEN_EXTENDED))"

section \<open>Reader\<close>

definition MAX_SNAPSHOT_BYTES :: usize where
  "MAX_SNAPSHOT_BYTES = 16 * 1024 * 1024"

record RawMessage =
  header :: PacketHeader
  body :: "byte list"

type_synonym ReadBuffer = "byte list"

definition ReadBuffer_new :: ReadBuffer where
  "ReadBuffer_new = []"

definition buffer_len :: "ReadBuffer \<Rightarrow> usize" where
  "buffer_len buf = length buf"

definition buffer_is_empty :: "ReadBuffer \<Rightarrow> bool" where
  "buffer_is_empty buf \<longleftrightarrow> buf = []"

definition extend :: "byte list \<Rightarrow> ReadBuffer \<Rightarrow> ReadBuffer" where
  "extend data buf = buf @ data"

definition scan_for_magic :: "ReadBuffer \<Rightarrow> usize option" where
  "scan_for_magic buf = find (\<lambda>i. has_header_magic (drop i buf)) [1..<saturating_sub_u64 (length buf) 3]"

text \<open>From the header on, with the magic at the front of the buffer.\<close>

definition extract_message :: "ReadBuffer \<Rightarrow> (BcError + RawMessage option) \<times> ReadBuffer" where
  "extract_message buf =
     (case PacketHeader_parse buf of
        Inl Incomplete \<Rightarrow> (Inr None, buf)
      | Inl e \<Rightarrow> (Inl e, buf)
      | Inr (h, h_len) \<Rightarrow>
          let b_len = unat (body_len h)
          in if b_len > MAX_SNAPSHOT_BYTES then (Inl (MessageTooLarge b_len MAX_SNAPSHOT_BYTES), buf)
             else
               case checked_add_u64 h_len b_len of
                 None \<Rightarrow> (Inl (InvalidHeader ''message length overflow''), buf)
               | Some total_len \<Rightarrow>
                   if length buf < total_len then (Inr None, buf)
                   else (Inr (Some \<lparr>header = h, body = take (total_len - h_len) (drop h_len buf)\<rparr>), drop total_len buf))"

definition try_parse_message :: "ReadBuffer \<Rightarrow> (BcError + RawMessage option) \<times> ReadBuffer" where
  "try_parse_message buf =
     (if length buf < HEADER_LEN_SHORT then (Inr None, buf)
      else if \<not> has_header_magic buf
      then
        case scan_for_magic buf of
          Some offset \<Rightarrow>
            let buf = drop offset buf
            in if length buf < HEADER_LEN_SHORT then (Inr None, buf) else extract_message buf
        | None \<Rightarrow> let keep = min (length buf) 3; drain_to = length buf - keep in (Inr None, drop drain_to buf)
      else extract_message buf)"

section \<open>Ciphers\<close>

definition BC_XOR_KEY :: "byte list" where
  "BC_XOR_KEY = [0x1f, 0x2d, 0x3c, 0x4b, 0x5a, 0x69, 0x78, 0xff]"

definition AES_IV :: "byte list" where
  "AES_IV = map (\<lambda>c. word_of_nat (of_char c)) ''0123456789abcdef''"

definition bc_xor :: "byte list \<Rightarrow> byte \<Rightarrow> byte list" where
  "bc_xor data channel =
     (let skip = unat channel mod length BC_XOR_KEY
      in map (\<lambda>(i, b). b XOR (BC_XOR_KEY ! ((skip + i) mod length BC_XOR_KEY) XOR channel)) (zip [0..<length data] data))"

definition HEX :: "byte list" where
  "HEX = map (\<lambda>c. word_of_nat (of_char c)) ''0123456789ABCDEF''"

definition hex_encode_upper :: "byte list \<Rightarrow> byte list" where
  "hex_encode_upper bs = concat (map (\<lambda>b. [HEX ! unat (drop_bit 4 b), HEX ! unat (b AND 0x0f)]) bs)"

definition derive_aes_key :: "(byte list \<Rightarrow> byte list) \<Rightarrow> byte list \<Rightarrow> byte list \<Rightarrow> byte list" where
  "derive_aes_key md5 nonce password = take 16 (hex_encode_upper (md5 (nonce @ [45] @ password)))"

definition credential_hash :: "(byte list \<Rightarrow> byte list) \<Rightarrow> byte list \<Rightarrow> byte list \<Rightarrow> byte list" where
  "credential_hash md5 nonce v = take 31 (hex_encode_upper (md5 (v @ nonce)))"

definition encrypt_body_xor :: "byte list \<Rightarrow> byte \<Rightarrow> byte list" where
  "encrypt_body_xor data channel = bc_xor data channel"

definition decrypt_body_xor :: "byte list \<Rightarrow> byte \<Rightarrow> byte list" where
  "decrypt_body_xor data channel = bc_xor data channel"

text \<open>\<open>AesCipherState\<close> is its key; each call starts from the fixed initialisation vector.\<close>

type_synonym aes_cfb = "byte list \<Rightarrow> byte list \<Rightarrow> byte list \<Rightarrow> byte list"

definition encrypt_body_aes :: "aes_cfb \<Rightarrow> byte list \<Rightarrow> byte list \<Rightarrow> usize \<Rightarrow> byte list" where
  "encrypt_body_aes aes_encrypt key data offset =
     (if offset < length data then take offset data @ aes_encrypt key AES_IV (drop offset data) else data)"

definition decrypt_body_aes :: "aes_cfb \<Rightarrow> byte list \<Rightarrow> byte list \<Rightarrow> usize \<Rightarrow> byte list" where
  "decrypt_body_aes aes_decrypt key data offset =
     (if offset < length data then take offset data @ aes_decrypt key AES_IV (drop offset data) else data)"

end
