(* ===== verification/Bc_Framing_Run.thy ===== *)
theory Bc_Framing_Run
  imports Bc_Framing
begin

text \<open>
  The reader of \<open>Bc_Framing\<close> against streams of messages: headers survive the wire, a cut header is
  incomplete, and messages come out whole and in order however the bytes arrive; and the body ciphers
  undo themselves.
\<close>

unbundle bit_operations_syntax

section \<open>Headers\<close>

definition header_bytes :: "PacketHeader \<Rightarrow> byte list" where
  "header_bytes h = (let (buf, n) = serialize h (replicate HEADER_LEN_EXTENDED 0) in take n buf)"

text \<open>A header that says what it has: the extension word is there for the classes that have one.\<close>

definition header_ok :: "PacketHeader \<Rightarrow> bool" where
  "header_ok h \<longleftrightarrow> (extension h \<noteq> None \<longleftrightarrow> is_extended h)"

lemmas header_defs = HEADER_LEN_SHORT_def HEADER_LEN_EXTENDED_def

lemma header_bytes_eq:
  "header_bytes h = to_le_bytes BC_MAGIC @ to_le_bytes (msg_id h) @ to_le_bytes (body_len h)
     @ to_le_bytes (encryption_offset h) @ to_le_bytes (status_class h)
     @ (case extension h of None \<Rightarrow> [] | Some ext \<Rightarrow> to_le_bytes ext)"
  by (simp add: header_bytes_def serialize_def header_defs Let_def split: option.split)

lemma length_header_bytes: "length (header_bytes h) = header_len h"
  by (simp add: header_bytes_eq header_len_def header_defs split: option.split)

lemma word_at_append [simp]:
  "word_at (to_le_bytes w @ xs) 0 = w"
  "4 \<le> n \<Longrightarrow> word_at (to_le_bytes w @ xs) n = word_at xs (n - 4)"
  by (simp_all add: word_at_def)

lemma is_extended_cong: "is_extended (h\<lparr>extension := x\<rparr>) = is_extended h"
  by (simp add: is_extended_def bc_class_def)

lemma parse_header_bytes:
  assumes "header_ok h"
  shows "PacketHeader_parse (header_bytes h @ rest) = Inr (h, header_len h)"
proof -
  let ?h = "h\<lparr>extension := None\<rparr>"
  have magic: "is_header_magic BC_MAGIC" by (simp add: is_header_magic_def)
  have h: "\<lparr>msg_id = msg_id h, body_len = body_len h, encryption_offset = encryption_offset h,
             status_class = status_class h, extension = None\<rparr> = ?h" by simp
  show ?thesis
  proof (cases "extension h")
    case None
    moreover from None have "?h = h" by (cases h) simp
    ultimately show ?thesis using assms magic
      by (simp add: PacketHeader_parse_def header_bytes_eq header_ok_def header_len_def header_defs h is_extended_cong Let_def)
  next
    case (Some x)
    moreover from Some have "h\<lparr>extension := Some x\<rparr> = h" by (cases h) simp
    ultimately show ?thesis using assms magic
      by (simp add: PacketHeader_parse_def header_bytes_eq header_ok_def header_len_def header_defs h is_extended_cong Let_def)
  qed
qed

text \<open>A header cut short is incomplete, not malformed.\<close>

lemma parse_cut_header:
  assumes "header_ok h" "n < header_len h"
  shows "PacketHeader_parse (take n (header_bytes h)) = Inl Incomplete"
proof (cases "n < 20")
  case True
  then have "length (take n (header_bytes h)) < HEADER_LEN_SHORT" by (simp add: header_defs min_less_iff_disj)
  then show ?thesis by (simp add: PacketHeader_parse_def)
next
  case False
  then obtain x where x: "extension h = Some x" "n < 24"
    using assms(2) by (auto simp: header_len_def header_defs split: if_splits)
  let ?five = "to_le_bytes BC_MAGIC @ to_le_bytes (msg_id h) @ to_le_bytes (body_len h)
     @ to_le_bytes (encryption_offset h) @ to_le_bytes (status_class h)"
  have "take n (header_bytes h) = ?five @ take (n - 20) (to_le_bytes x)"
    using False x by (simp add: header_bytes_eq)
  moreover have "is_extended \<lparr>msg_id = msg_id h, body_len = body_len h, encryption_offset = encryption_offset h,
             status_class = status_class h, extension = None\<rparr>"
    using assms(1) x by (simp add: header_ok_def is_extended_def bc_class_def)
  moreover have "is_header_magic BC_MAGIC" by (simp add: is_header_magic_def)
  ultimately show ?thesis using False x(2) by (simp add: PacketHeader_parse_def header_defs Let_def)
qed

lemma magic_bytes: "to_le_bytes BC_MAGIC = BC_MAGIC_BYTES" "length BC_MAGIC_BYTES = 4" "length JPEG_MAGIC_BYTES = 4"
  by (code_simp, simp_all add: BC_MAGIC_BYTES_def JPEG_MAGIC_BYTES_def)

lemma header_has_magic: "has_header_magic (header_bytes h @ rest)"
  by (simp add: has_header_magic_def starts_with_def header_bytes_eq magic_bytes)

section \<open>Streams of messages\<close>

definition wire :: "RawMessage \<Rightarrow> byte list" where
  "wire m = header_bytes (header m) @ body m"

text \<open>Messages with the foreign bytes behind each of them.\<close>

definition behind :: "(RawMessage \<times> byte list) list \<Rightarrow> byte list" where
  "behind xs = concat (map (\<lambda>(m, noise). wire m @ noise) xs)"

definition message_ok :: "RawMessage \<Rightarrow> bool" where
  "message_ok m \<longleftrightarrow> header_ok (header m) \<and> unat (body_len (header m)) = length (body m) \<and> length (body m) \<le> MAX_SNAPSHOT_BYTES"

text \<open>No magic number starts inside \<open>g\<close>, not even one that the messages after it complete.\<close>

definition clean :: "byte list \<Rightarrow> byte list \<Rightarrow> bool" where
  "clean g rest \<longleftrightarrow> (\<forall>i < length g. \<not> has_header_magic (drop i (g @ rest)))"

fun clean_stream :: "byte list \<Rightarrow> (RawMessage \<times> byte list) list \<Rightarrow> bool" where
  "clean_stream g [] = clean g []"
| "clean_stream g ((m, g') # xs) = (clean g (behind ((m, g') # xs)) \<and> clean_stream g' xs)"

lemma behind_simps [simp]: "behind [] = []" "behind (x # xs) = wire (fst x) @ snd x @ behind xs"
  by (simp_all add: behind_def split: prod.split)

lemma clean_streamD: "clean_stream g xs \<Longrightarrow> clean g (behind xs)"
  by (cases "(g, xs)" rule: clean_stream.cases) auto

lemma clean_stream_Cons: "clean_stream g (x # xs) \<Longrightarrow> clean_stream (snd x) xs"
  by (cases x) simp

lemma clean_Nil [simp]: "clean [] rest"
  by (simp add: clean_def)

lemma clean_drop: "clean g rest \<Longrightarrow> clean (drop n g) rest"
proof -
  assume c: "clean g rest"
  have "\<not> has_header_magic (drop i (drop n g @ rest))" if "i < length (drop n g)" for i
  proof -
    have "drop i (drop n g @ rest) = drop (n + i) (g @ rest)" using that by (simp add: add.commute)
    with c that show ?thesis by (simp add: clean_def)
  qed
  then show ?thesis by (simp add: clean_def)
qed

lemma magic_prefix:
  assumes "4 \<le> length xs"
  shows "has_header_magic (xs @ ys) = has_header_magic xs"
  using assms by (simp add: has_header_magic_def starts_with_def magic_bytes)

lemma length_wire: "20 \<le> length (wire m)"
  by (simp add: wire_def length_header_bytes header_len_def header_defs)

lemma clean_stream_drop: "clean_stream g xs \<Longrightarrow> clean_stream (drop n g) xs"
  by (cases "(g, xs)" rule: clean_stream.cases) (auto dest: clean_drop)

lemma behind_magic: "xs \<noteq> [] \<Longrightarrow> has_header_magic (behind xs) \<and> 20 \<le> length (behind xs)"
  using length_wire [of "fst (hd xs)"] by (cases xs) (simp_all add: wire_def header_has_magic)

text \<open>With a message at the front the reader takes it, once it is all there.\<close>

lemma append_front:
  assumes "xs @ ys = us @ vs"
  shows "length xs < length us \<Longrightarrow> xs = take (length xs) us"
    and "length us \<le> length xs \<Longrightarrow> xs = us @ drop (length us) xs \<and> drop (length us) xs @ ys = vs"
proof -
  show "length xs < length us \<Longrightarrow> xs = take (length xs) us"
    using assms by (simp add: append_eq_append_conv_if)
  assume le: "length us \<le> length xs"
  have "take (length us) (xs @ ys) = us" using assms by simp
  then have "take (length us) xs = us" using le by simp
  then have xs: "xs = us @ drop (length us) xs" by (metis append_take_drop_id)
  have "us @ drop (length us) xs @ ys = us @ vs" using assms xs by (metis append_assoc)
  with xs show "xs = us @ drop (length us) xs \<and> drop (length us) xs @ ys = vs" by simp
qed

lemma extract_effect:
  assumes "message_ok m" "buf @ rest = wire m @ later" "HEADER_LEN_SHORT \<le> length buf"
  shows "extract_message buf = (if length buf < length (wire m) then (Inr None, buf)
    else (Inr (Some m), drop (length (wire m)) buf))"
proof -
  let ?h = "header m" and ?n = "header_len (header m)"
  have m: "header_ok ?h" "unat (body_len ?h) = length (body m)" "length (body m) \<le> MAX_SNAPSHOT_BYTES"
    using assms(1) by (simp_all add: message_ok_def)
  have hn: "?n \<le> 24" by (simp add: header_len_def header_defs)
  have add: "checked_add_u64 ?n (length (body m)) = Some (?n + length (body m))"
    using m(3) hn by (simp add: checked_add_u64_def u64_max_def MAX_SNAPSHOT_BYTES_def)
  have wlen: "length (wire m) = ?n + length (body m)" by (simp add: wire_def length_header_bytes)
  have split: "buf @ rest = header_bytes ?h @ (body m @ later)" using assms(2) by (simp add: wire_def)
  show ?thesis
  proof (cases "length buf < ?n")
    case True
    then have "buf = take (length buf) (header_bytes ?h)"
      using append_front(1) [OF split] by (simp add: length_header_bytes)
    then have "PacketHeader_parse buf = Inl Incomplete" using parse_cut_header [OF m(1) True] by simp
    with True wlen show ?thesis by (simp add: extract_message_def)
  next
    case False
    then have buf: "buf = header_bytes ?h @ drop ?n buf" "drop ?n buf @ rest = body m @ later"
      using append_front(2) [OF split] by (simp_all add: length_header_bytes)
    have p: "PacketHeader_parse buf = Inr (?h, ?n)"
      using parse_header_bytes [OF m(1), of "drop ?n buf"] buf(1) by simp
    have "take (length (body m)) (drop ?n buf) = body m" if "length (body m) \<le> length (drop ?n buf)"
      using append_front(2) [OF buf(2) that] by (metis append_eq_conv_conj)
    moreover have "drop ?n buf = [] @ drop ?n buf" by simp
    moreover have "length (wire m) \<le> length buf \<Longrightarrow> length (body m) \<le> length (drop ?n buf)"
      using wlen False by simp
    ultimately show ?thesis using p add m wlen False by (simp add: extract_message_def Let_def)
  qed
qed

section \<open>Reading\<close>

lemma extract_shorter:
  assumes "extract_message buf = (Inr (Some m), buf')"
  shows "length buf' < length buf"
proof -
  obtain h n where p: "PacketHeader_parse buf = Inr (h, n)"
    using assms by (auto simp: extract_message_def split: sum.splits BcError.splits prod.splits)
  then have "20 \<le> n" by (auto simp: PacketHeader_parse_def header_defs Let_def split: if_splits)
  with assms p show ?thesis
    by (auto simp: extract_message_def Let_def checked_add_u64_def split: if_splits option.splits)
qed

lemma try_parse_shorter: "try_parse_message buf = (Inr (Some m), buf') \<Longrightarrow> length buf' < length buf"
  by (auto simp: try_parse_message_def Let_def dest!: extract_shorter split: if_splits option.splits)

text \<open>Taking messages until none is complete.\<close>

function read_ready :: "ReadBuffer \<Rightarrow> (BcError + unit) \<times> RawMessage list \<times> ReadBuffer" where
  "read_ready buf =
     (case try_parse_message buf of
        (Inl e, buf) \<Rightarrow> (Inl e, [], buf)
      | (Inr None, buf) \<Rightarrow> (Inr (), [], buf)
      | (Inr (Some m), buf) \<Rightarrow> let (r, ms, buf) = read_ready buf in (r, m # ms, buf))"
  by auto
termination by (relation "measure length") (auto dest: try_parse_shorter [OF sym])

declare read_ready.simps [simp del]

fun read_fragments :: "byte list list \<Rightarrow> ReadBuffer \<Rightarrow> (BcError + unit) \<times> RawMessage list \<times> ReadBuffer" where
  "read_fragments [] buf = (Inr (), [], buf)"
| "read_fragments (f # fs) buf =
     (case read_ready (extend f buf) of
        (Inl e, ms, buf) \<Rightarrow> (Inl e, ms, buf)
      | (Inr _, ms, buf) \<Rightarrow> let (r, ms', buf) = read_fragments fs buf in (r, ms @ ms', buf))"

lemma scan_skips:
  assumes "buf @ rest = g @ behind xs" "clean g (behind xs)" "HEADER_LEN_SHORT \<le> length buf" "\<not> has_header_magic buf"
  shows "scan_for_magic buf = Some i \<Longrightarrow> i = length g \<and> xs \<noteq> [] \<and> length g \<le> length buf"
    and "scan_for_magic buf = None \<Longrightarrow> length buf - 3 \<le> length g"
proof -
  let ?P = "\<lambda>i. has_header_magic (drop i buf)"
  have at: "?P i \<longleftrightarrow> has_header_magic (drop i (g @ behind xs))" if "i + 4 \<le> length buf" for i
    using magic_prefix [of "drop i buf" rest] that assms(1) [symmetric] by simp
  have len: "20 \<le> length buf" using assms(3) by (simp add: HEADER_LEN_SHORT_def)
  have gpos: "0 < length g"
  proof (rule ccontr)
    assume "\<not> 0 < length g"
    then have g: "g = []" by simp
    then have "xs \<noteq> []" using assms(1) len by auto
    then have "has_header_magic buf" using at [of 0] len behind_magic [of xs] g by simp
    with assms(4) show False by simp
  qed
  have range: "[1..<saturating_sub_u64 (length buf) 3] = [1..<length buf - 3]" by (simp add: saturating_sub_u64_def)
  have magic: "?P (length g)" if "length g + 4 \<le> length buf" "xs \<noteq> []"
    using at [OF that(1)] behind_magic [OF that(2)] by simp
  show "i = length g \<and> xs \<noteq> [] \<and> length g \<le> length buf" if found: "scan_for_magic buf = Some i"
  proof -
    obtain j where j: "j < length [1..<length buf - 3]" "?P i" "i = [1..<length buf - 3] ! j"
      "\<forall>k < j. \<not> ?P ([1..<length buf - 3] ! k)"
      using found unfolding scan_for_magic_def range find_Some_iff by blast
    then have i: "i = Suc j" "i + 4 \<le> length buf" by simp_all
    have "length g \<le> i" using assms(2) at [OF i(2)] j(2) unfolding clean_def by (meson not_le)
    moreover have xs: "xs \<noteq> []"
    proof
      assume "xs = []"
      then have "length buf \<le> length g" using arg_cong [OF assms(1), of length] by simp
      with \<open>length g \<le> i\<close> i(2) show False by simp
    qed
    moreover have "\<not> length g < i"
    proof
      assume lt: "length g < i"
      then have "length g - 1 < j" using i gpos by linarith
      moreover from this have "[1..<length buf - 3] ! (length g - 1) = length g" using i gpos by simp
      ultimately show False using j(4) magic xs lt i(2) by fastforce
    qed
    ultimately show ?thesis using i(2) by simp
  qed
  show "length buf - 3 \<le> length g" if "scan_for_magic buf = None"
  proof (rule ccontr)
    assume no: "\<not> length buf - 3 \<le> length g"
    then have "length g \<in> set [1..<length buf - 3]" using gpos by (simp add: Suc_le_eq)
    then have "\<not> ?P (length g)" using that unfolding scan_for_magic_def range find_None_iff by blast
    moreover have "xs \<noteq> []"
    proof
      assume "xs = []"
      then have "length buf \<le> length g" using arg_cong [OF assms(1), of length] by simp
      with no show False by simp
    qed
    ultimately show False using magic no by simp
  qed
qed

text \<open>One call, on a buffer that is the front of a clean stream.\<close>

lemma try_parse_front:
  assumes "b @ rest = behind xs" "HEADER_LEN_SHORT \<le> length b" "xs \<noteq> []" "\<forall>x\<in>set xs. message_ok (fst x)"
  obtains (waits) "extract_message b = (Inr None, b)" "rest \<noteq> []"
  | (reads) x xs' b' where "xs = x # xs'" "extract_message b = (Inr (Some (fst x)), b')" "b' @ rest = snd x @ behind xs'"
proof -
  obtain x xs' where xs: "xs = x # xs'" using assms(3) by (cases xs) auto
  have ok: "message_ok (fst x)" "b @ rest = wire (fst x) @ snd x @ behind xs'" using assms(1,4) xs by simp_all
  show thesis
  proof (cases "length b < length (wire (fst x))")
    case True
    have "rest \<noteq> []" using arg_cong [OF ok(2), of length] True by auto
    with True show thesis using extract_effect [OF ok assms(2)] by (intro waits) simp_all
  next
    case False
    then have "drop (length (wire (fst x))) b @ rest = snd x @ behind xs'" using append_front(2) [OF ok(2)] by simp
    with False xs show thesis using extract_effect [OF ok assms(2)] by (intro reads [of x xs']) simp_all
  qed
qed

lemma try_parse_effect:
  assumes "buf @ rest = g @ behind xs" "clean_stream g xs" "\<forall>x\<in>set xs. message_ok (fst x)"
  obtains (waits) n buf' where "try_parse_message buf = (Inr None, buf')" "buf' @ rest = drop n g @ behind xs"
      "rest = [] \<Longrightarrow> xs = [] \<and> length buf' < HEADER_LEN_SHORT"
  | (reads) x xs' buf' where "xs = x # xs'" "try_parse_message buf = (Inr (Some (fst x)), buf')" "buf' @ rest = snd x @ behind xs'"
proof -
  note wait = waits and read = reads and clean = clean_streamD [OF assms(2)]
  have front: thesis if b: "b @ rest = behind xs" "HEADER_LEN_SHORT \<le> length b" "xs \<noteq> []" "try_parse_message buf = extract_message b" for b
    using b(1-3) assms(3)
  proof (cases rule: try_parse_front)
    case waits
    with b show thesis by (intro wait [of b "length g"]) simp_all
  next
    case (reads x xs' b')
    with b show thesis by (intro read [of x xs' b']) simp_all
  qed
  have short: "xs = []" if "rest = []" "length buf < length g + 20"
    using arg_cong [OF assms(1), of length] that behind_magic [of xs] by (cases "xs = []") auto
  show thesis
  proof (cases "length buf < HEADER_LEN_SHORT")
    case True
    with assms(1) short show thesis by (intro waits [of buf 0]) (auto simp: try_parse_message_def HEADER_LEN_SHORT_def)
  next
    case False
    then have len: "HEADER_LEN_SHORT \<le> length buf" by simp
    show thesis
    proof (cases "has_header_magic buf")
      case True
      have "has_header_magic (g @ behind xs)"
        using magic_prefix [of buf rest] True len assms(1) by (simp add: HEADER_LEN_SHORT_def)
      then have "g = []" using clean by (cases "length g") (auto simp: clean_def)
      moreover from this have "xs \<noteq> []" using assms(1) len by (auto simp: HEADER_LEN_SHORT_def)
      ultimately show thesis using front [of buf] True len assms(1) by (simp add: try_parse_message_def)
    next
      case False
      note skip = scan_skips [OF assms(1) clean len False]
      show thesis
      proof (cases "scan_for_magic buf")
        case (Some i)
        then have i: "i = length g" "xs \<noteq> []" "length g \<le> length buf" using skip(1) by blast+
        have b: "drop i buf @ rest = behind xs" using append_front(2) [OF assms(1)] i by simp
        show thesis
        proof (cases "length (drop i buf) < HEADER_LEN_SHORT")
          case True
          then have "try_parse_message buf = (Inr None, drop i buf)" using Some False len by (simp add: try_parse_message_def)
          moreover have "length buf < length g + 20" using i True by (simp add: HEADER_LEN_SHORT_def)
          then have "rest \<noteq> []" using short i(2) by blast
          ultimately show thesis using b by (intro waits [of "drop i buf" "length g"]) simp_all
        next
          case False
          then show thesis using front [of "drop i buf"] b i(2) Some len \<open>\<not> has_header_magic buf\<close>
            by (simp add: try_parse_message_def Let_def)
        qed
      next
        case None
        let ?n = "length buf - 3"
        have n: "?n \<le> length g" using skip(2) None by blast
        have t: "try_parse_message buf = (Inr None, drop ?n buf)"
          using None False len by (simp add: try_parse_message_def Let_def HEADER_LEN_SHORT_def)
        have "drop ?n buf @ rest = drop ?n g @ behind xs"
          using arg_cong [OF assms(1), of "drop ?n"] n by simp
        moreover have "length buf < length g + 20" "length (drop ?n buf) < HEADER_LEN_SHORT"
          using n len by (simp_all add: HEADER_LEN_SHORT_def)
        ultimately show thesis using short by (intro waits [OF t]) blast+
      qed
    qed
  qed
qed

lemma read_ready_effect:
  assumes "buf @ rest = g @ behind xs" "clean_stream g xs" "\<forall>x\<in>set xs. message_ok (fst x)"
  shows "\<exists>xs1 xs2 n buf'. read_ready buf = (Inr (), map fst xs1, buf') \<and> xs = xs1 @ xs2
    \<and> buf' @ rest = drop n (last (g # map snd xs1)) @ behind xs2 \<and> clean_stream (last (g # map snd xs1)) xs2
    \<and> (rest = [] \<longrightarrow> xs2 = [] \<and> length buf' < HEADER_LEN_SHORT)"
  using assms
proof (induction buf arbitrary: g xs rule: measure_induct_rule [where f = length])
  case (less buf)
  from less.prems show ?case
  proof (cases rule: try_parse_effect)
    case (waits n buf')
    then have "read_ready buf = (Inr (), [], buf')" by (subst read_ready.simps) simp
    with waits less.prems(2) show ?thesis
      by (intro exI [of _ "[]"] exI [of _ xs] exI [of _ n] exI [of _ buf']) simp
  next
    case (reads x xs' buf')
    have ok: "clean_stream (snd x) xs'" "\<forall>x\<in>set xs'. message_ok (fst x)"
      using less.prems(2,3) reads(1) clean_stream_Cons by auto
    from less.IH [OF try_parse_shorter [OF reads(2)] reads(3) ok]
    obtain xs1 xs2 n b where IH: "read_ready buf' = (Inr (), map fst xs1, b)" "xs' = xs1 @ xs2"
      "b @ rest = drop n (last (snd x # map snd xs1)) @ behind xs2" "clean_stream (last (snd x # map snd xs1)) xs2"
      "rest = [] \<longrightarrow> xs2 = [] \<and> length b < HEADER_LEN_SHORT" by blast
    have "read_ready buf = (Inr (), map fst (x # xs1), b)" using reads(2) IH(1) by (subst read_ready.simps) simp
    moreover have "last (g # map snd (x # xs1)) = last (snd x # map snd xs1)" by simp
    ultimately show ?thesis using IH(2-5) reads(1)
      by (intro exI [of _ "x # xs1"] exI [of _ xs2] exI [of _ n] exI [of _ b]) (simp only: append_Cons simp_thms)
  qed
qed

lemma read_fragments_effect:
  assumes "buf @ concat fs = g @ behind xs" "clean_stream g xs" "\<forall>x\<in>set xs. message_ok (fst x)" "fs \<noteq> []"
  shows "\<exists>n buf'. read_fragments fs buf = (Inr (), map fst xs, buf') \<and> buf' = drop n (last (g # map snd xs))
    \<and> length buf' < HEADER_LEN_SHORT"
  using assms
proof (induction fs arbitrary: buf g xs)
  case (Cons f fs)
  have "extend f buf @ concat fs = g @ behind xs" using Cons.prems(1) by (simp add: extend_def)
  from read_ready_effect [OF this Cons.prems(2,3)]
  obtain xs1 xs2 n b where r: "read_ready (extend f buf) = (Inr (), map fst xs1, b)" "xs = xs1 @ xs2"
    "b @ concat fs = drop n (last (g # map snd xs1)) @ behind xs2" "clean_stream (last (g # map snd xs1)) xs2"
    "concat fs = [] \<longrightarrow> xs2 = [] \<and> length b < HEADER_LEN_SHORT" by blast
  show ?case
  proof (cases fs)
    case Nil
    with r show ?thesis by (intro exI [of _ n]) auto
  next
    case (Cons f' fs')
    let ?g = "drop n (last (g # map snd xs1))"
    have "\<forall>x\<in>set xs2. message_ok (fst x)" using Cons.prems(3) r(2) by simp
    then obtain k b' where b: "read_fragments fs b = (Inr (), map fst xs2, b')" "b' = drop k (last (?g # map snd xs2))"
      "length b' < HEADER_LEN_SHORT"
      using Cons.IH [OF r(3) clean_stream_drop [OF r(4)]] Cons by blast
    have "\<exists>j. drop k (last (?g # map snd xs2)) = drop j (last (g # map snd xs))"
    proof (cases "xs2 = []")
      case True
      with r(2) show ?thesis by (intro exI [of _ "n + k"]) (simp add: add.commute)
    qed (use r(2) in \<open>auto simp: last_map\<close>)
    with b r(1,2) show ?thesis by auto
  qed
qed simp

section \<open>Properties\<close>

text \<open>
  C14: The reader recovers the messages. Take messages whose headers say what they carry, put foreign
  bytes in front of them, between them and behind them in which no magic number starts, and cut the
  bytes into fragments in any way: the reader fed with the fragments one after another, taking messages
  until none is complete, gives exactly those messages in their order and no error. What it keeps is the
  end of the last foreign bytes, less than a header (nothing, if there are none behind the last message).
\<close>

theorem reader_recovers_messages:
  assumes "concat fragments = noise @ behind xs" "fragments \<noteq> []" "clean_stream noise xs" "\<forall>x\<in>set xs. message_ok (fst x)"
  shows "\<exists>n rest. read_fragments fragments ReadBuffer_new = (Inr (), map fst xs, rest)
    \<and> rest = drop n (last (noise # map snd xs)) \<and> length rest < HEADER_LEN_SHORT"
  using read_fragments_effect [of ReadBuffer_new fragments noise xs] assms by (simp add: ReadBuffer_new_def)

definition ping_message :: RawMessage where
  "ping_message = \<lparr>header = \<lparr>msg_id = 93, body_len = 2, encryption_offset = 0, status_class = make_status BC_CLASS_MODERN_SHORT 0,
     extension = None\<rparr>, body = [1, 2]\<rparr>"

definition ping_stream :: "(RawMessage \<times> byte list) list" where
  "ping_stream = [(ping_message, [9, 9]), (ping_message, [])]"

lemma clean_foreign:
  assumes "0xf0 \<notin> set g" "0xa0 \<notin> set g"
  shows "clean g rest"
proof -
  have "hd (drop i (g @ rest)) \<in> set g \<and> drop i (g @ rest) \<noteq> []" if "i < length g" for i
    using that by (simp add: hd_append hd_drop_conv_nth)
  moreover have "hd xs = 0xf0 \<or> hd xs = 0xa0" if "has_header_magic xs" "xs \<noteq> []" for xs
    using that by (cases xs) (auto simp: has_header_magic_def starts_with_def BC_MAGIC_BYTES_def JPEG_MAGIC_BYTES_def)
  ultimately show ?thesis using assms unfolding clean_def by metis
qed

definition cut_at :: "nat \<Rightarrow> byte list \<Rightarrow> byte list list" where
  "cut_at n bs = [take n bs, drop n bs]"

theorem reader_recovers_messages_witness:
  "clean_stream [1, 2, 3] ping_stream \<and> message_ok ping_message
   \<and> read_fragments (cut_at 7 ([1, 2, 3] @ behind ping_stream)) ReadBuffer_new = (Inr (), [ping_message, ping_message], [])"
proof -
  have ok: "clean_stream [1, 2, 3] ping_stream" "message_ok ping_message"
    by (simp add: ping_stream_def clean_foreign) code_simp
  have cut: "concat (cut_at n bs) = bs" "cut_at n bs \<noteq> []" for n bs by (simp_all add: cut_at_def)
  have "\<forall>x\<in>set ping_stream. message_ok (fst x)" using ok(2) by (simp add: ping_stream_def)
  moreover have map_ping: "map fst ping_stream = [ping_message, ping_message]" "last ([1, 2, 3] # map snd ping_stream) = []"
    by (simp_all add: ping_stream_def)
  ultimately have "\<exists>n rest. read_fragments (cut_at 7 ([1, 2, 3] @ behind ping_stream)) ReadBuffer_new
      = (Inr (), [ping_message, ping_message], rest) \<and> rest = drop n []"
    using reader_recovers_messages [OF cut ok(1), of 7] by metis
  with ok show ?thesis by (simp only: drop_Nil) blast
qed

section \<open>Ciphers\<close>

lemma bc_xor_nth:
  "i < length data \<Longrightarrow> bc_xor data ch ! i = data ! i XOR (BC_XOR_KEY ! ((unat ch mod 8 + i) mod 8) XOR ch)"
  by (simp add: bc_xor_def Let_def BC_XOR_KEY_def)

lemma length_bc_xor [simp]: "length (bc_xor data ch) = length data"
  by (simp add: bc_xor_def Let_def)

lemma body_xor_roundtrip: "decrypt_body_xor (encrypt_body_xor data ch) ch = data"
  unfolding decrypt_body_xor_def encrypt_body_xor_def
  by (rule nth_equalityI) (simp_all add: bc_xor_nth xor.assoc xor_self_eq)

lemma body_aes_roundtrip:
  assumes "\<And>key iv bs. dec key iv (enc key iv bs) = bs" "\<And>key iv bs. length (enc key iv bs) = length bs"
  shows "decrypt_body_aes dec key (encrypt_body_aes enc key data offset) offset = data"
  using assms by (simp add: decrypt_body_aes_def encrypt_body_aes_def)

text \<open>
  Decrypting an encrypted body gives the body back, for the XOR cipher on every channel and, if AES in
  CFB mode decrypts what it encrypted and keeps the length, for AES with every key and offset; the bytes
  before the offset are sent as they are. The derived key has sixteen bytes, all of them uppercase
  hexadecimal digits, whatever the sixteen-byte digest is.
\<close>

theorem body_ciphers_roundtrip:
  assumes "\<And>key iv bs. dec key iv (enc key iv bs) = bs" "\<And>key iv bs. length (enc key iv bs) = length bs"
    "\<And>bs. length (md5 bs) = 16"
  shows "decrypt_body_xor (encrypt_body_xor data ch) ch = data
    \<and> decrypt_body_aes dec key (encrypt_body_aes enc key data offset) offset = data
    \<and> take offset (encrypt_body_aes enc key data offset) = take offset data
    \<and> length (derive_aes_key md5 nonce password) = 16 \<and> set (derive_aes_key md5 nonce password) \<subseteq> set HEX"
proof -
  have hexlen: "length (hex_encode_upper bs) = 2 * length bs" for bs
    by (induction bs) (simp_all add: hex_encode_upper_def)
  have digit: "HEX ! unat w \<in> set HEX" if "unat w < 16" for w :: byte
    using that by (intro nth_mem) (simp add: HEX_def)
  have "set (hex_encode_upper bs) \<subseteq> set HEX" for bs
  proof -
    have "unat (drop_bit 4 b) < 16" "unat (b AND 0x0f) < 16" for b :: byte
    proof -
      have "unat b < 2 ^ LENGTH(8)" by (rule unsigned_less)
      then show "unat (drop_bit 4 b) < 16" by (simp add: drop_bit_eq_div unat_div less_mult_imp_div_less)
      have "b AND 0x0f = take_bit 4 b" by (simp add: take_bit_eq_mask mask_eq_exp_minus_1)
      then show "unat (b AND 0x0f) < 16" using take_bit_nat_less_exp [of 4 "unat b"] by (simp add: unsigned_take_bit_eq)
    qed
    then show ?thesis using digit by (auto simp: hex_encode_upper_def)
  qed
  moreover have "set (take 16 xs) \<subseteq> set xs" for xs :: "byte list" by (rule set_take_subset)
  ultimately have "set (derive_aes_key md5 nonce password) \<subseteq> set HEX" unfolding derive_aes_key_def by blast
  moreover have "length (derive_aes_key md5 nonce password) = 16"
    unfolding derive_aes_key_def using assms(3) by (simp add: hexlen)
  moreover have "take offset (encrypt_body_aes enc key data offset) = take offset data"
    by (simp add: encrypt_body_aes_def)
  ultimately show ?thesis using body_xor_roundtrip body_aes_roundtrip [of dec enc key data offset] assms(1,2) by simp
qed

theorem body_ciphers_roundtrip_witness:
  "decrypt_body_aes (\<lambda>k iv bs. map NOT bs) [] (encrypt_body_aes (\<lambda>k iv bs. map NOT bs) [] [1, 2, 3] 1) 1 = [1, 2, 3]
   \<and> encrypt_body_aes (\<lambda>k iv bs. map NOT bs) [] [1, 2, 3 :: byte] 1 \<noteq> [1, 2, 3]
   \<and> length (derive_aes_key (\<lambda>_. replicate 16 0) [1] [2]) = 16"
  using body_ciphers_roundtrip [of "\<lambda>k iv bs. map NOT bs" "\<lambda>k iv bs. map NOT bs" "\<lambda>_. replicate 16 0" "[1, 2, 3]" 0 "[]" 1 "[1]" "[2]"]
  by (simp add: comp_def encrypt_body_aes_def)

end
