(* ===== verification/Chunked_Transfer.thy ===== *)
theory Chunked_Transfer
  imports KP_Prelude
begin

text \<open>
  The chunked transfer coding of HTTP, \<open>src/crates/chunked-transfer/src\<close>: the encoder of \<open>encoder.rs\<close> and the
  decoder of \<open>decoder.rs\<close>. The writer under the encoder accepts every byte, like a \<open>Vec\<close>. The reader
  under the decoder is a stream of bytes with a schedule: how much each call of \<open>read\<close> gives, or that it
  fails; a schedule that has run out gives as much as asked for. A panic, and a call that does not
  return, is \<open>None\<close>.
\<close>

named_theorems chunk_defs \<open>definitions of the encoder and the decoder\<close>

section \<open>Hexadecimal numbers\<close>

definition hex_digit :: "nat \<Rightarrow> byte" where
  "hex_digit n = word_of_nat (if n < 10 then 48 + n else 87 + n)"

fun hex_bytes :: "nat \<Rightarrow> byte list" where
  "hex_bytes n = (if n < 16 then [] else hex_bytes (n div 16)) @ [hex_digit (n mod 16)]"

declare hex_bytes.simps [simp del]

definition hex_value :: "byte \<Rightarrow> nat option" where
  "hex_value b =
     (let c = unat b
      in if 48 \<le> c \<and> c \<le> 57 then Some (c - 48)
         else if 97 \<le> c \<and> c \<le> 102 then Some (c - 87)
         else if 65 \<le> c \<and> c \<le> 70 then Some (c - 55) else None)"

fun hex_digits :: "nat \<Rightarrow> byte list \<Rightarrow> nat option" where
  "hex_digits n [] = Some n"
| "hex_digits n (b # bs) =
     (case hex_value b of
        None \<Rightarrow> None
      | Some v \<Rightarrow> if n * 16 + v \<le> u64_max then hex_digits (n * 16 + v) bs else None)"

text \<open>\<open>usize::from_str_radix(_, 16)\<close>: an optional plus sign, then digits of either case.\<close>

definition from_str_radix_16 :: "byte list \<Rightarrow> nat option" where
  "from_str_radix_16 bs =
     (let ds = (if bs \<noteq> [] \<and> hd bs = 43 then tl bs else bs) in if ds = [] then None else hex_digits 0 ds)"

text \<open>
  \<open>str::trim\<close> on the bytes of a string: the encodings of the Unicode white space characters are dropped
  at both ends. Bytes that are not UTF-8 hold no number either, so checking for UTF-8 first, as the
  source does, gives the same error.
\<close>

definition white_space :: "byte list list" where
  "white_space = [[9], [10], [11], [12], [13], [32], [0xc2, 0x85], [0xc2, 0xa0], [0xe1, 0x9a, 0x80]]
     @ map (\<lambda>i. [0xe2, 0x80, 0x80 + word_of_nat i]) [0..<11]
     @ [[0xe2, 0x80, 0xa8], [0xe2, 0x80, 0xa9], [0xe2, 0x80, 0xaf], [0xe2, 0x81, 0x9f], [0xe3, 0x80, 0x80]]"

definition strip_prefix :: "byte list \<Rightarrow> byte list option" where
  "strip_prefix bs =
     map_option (\<lambda>w. drop (length w) bs) (find (\<lambda>w. take (length w) bs = w) white_space)"

fun trim_fuel :: "(byte list \<Rightarrow> byte list option) \<Rightarrow> nat \<Rightarrow> byte list \<Rightarrow> byte list" where
  "trim_fuel strip 0 bs = bs"
| "trim_fuel strip (Suc n) bs = (case strip bs of None \<Rightarrow> bs | Some bs' \<Rightarrow> trim_fuel strip n bs')"

definition strip_suffix :: "byte list \<Rightarrow> byte list option" where
  "strip_suffix bs =
     map_option (\<lambda>w. take (length bs - length w) bs)
       (find (\<lambda>w. length w \<le> length bs \<and> drop (length bs - length w) bs = w) white_space)"

definition trim :: "byte list \<Rightarrow> byte list" where
  "trim bs = (let bs = trim_fuel strip_prefix (length bs) bs in trim_fuel strip_suffix (length bs) bs)"

section \<open>Encoder\<close>

definition MAX_CHUNK_SIZE :: usize where
  "MAX_CHUNK_SIZE = 2 ^ 32 - 1"

definition MAX_HEADER_SIZE :: usize where
  "MAX_HEADER_SIZE = 6"

definition CRLF :: "byte list" where
  "CRLF = [13, 10]"

record Encoder =
  enc_output :: "byte list"
  chunks_size :: usize
  enc_buffer :: "byte list"
  flush_after_write :: bool

definition reset_buffer :: "Encoder \<Rightarrow> Encoder" where
  [chunk_defs]: "reset_buffer e = e\<lparr>enc_buffer := take MAX_HEADER_SIZE (enc_buffer e)\<rparr>"

definition with_chunks_size :: "byte list \<Rightarrow> usize \<Rightarrow> Encoder" where
  [chunk_defs]: "with_chunks_size output chunks =
     reset_buffer \<lparr>enc_output = output, chunks_size = min chunks MAX_CHUNK_SIZE,
                   enc_buffer = replicate MAX_HEADER_SIZE 0, flush_after_write = False\<rparr>"

definition with_flush_after_write :: "byte list \<Rightarrow> Encoder" where
  [chunk_defs]: "with_flush_after_write output =
     reset_buffer \<lparr>enc_output = output, chunks_size = 8192,
                   enc_buffer = replicate MAX_HEADER_SIZE 0, flush_after_write = True\<rparr>"

definition Encoder_new :: "byte list \<Rightarrow> Encoder" where
  [chunk_defs]: "Encoder_new output = with_flush_after_write output"

definition is_buffer_empty :: "Encoder \<Rightarrow> bool" where
  [chunk_defs]: "is_buffer_empty e \<longleftrightarrow> length (enc_buffer e) = MAX_HEADER_SIZE"

definition enc_buffer_len :: "Encoder \<Rightarrow> usize" where
  [chunk_defs]: "enc_buffer_len e = length (enc_buffer e) - MAX_HEADER_SIZE"

definition send :: "Encoder \<Rightarrow> Encoder option" where
  "send e =
     (if is_buffer_empty e then Some e
      else
        let prelude = hex_bytes (enc_buffer_len e) @ CRLF
        in if length prelude \<le> MAX_HEADER_SIZE
           then
             let offset = MAX_HEADER_SIZE - length prelude;
                 buffer = take offset (enc_buffer e) @ prelude @ drop MAX_HEADER_SIZE (enc_buffer e);
                 buffer = buffer @ CRLF
             in Some (reset_buffer (e\<lparr>enc_buffer := buffer, enc_output := enc_output e @ drop offset buffer\<rparr>))
           else None)"

text \<open>
  \<open>write\<close> reports that it took everything, so the \<open>write_all\<close> inside it calls it exactly once more for
  what is left. With a chunk size of zero it calls itself with the same data for ever.
\<close>

partial_function (option) enc_write :: "byte list \<Rightarrow> Encoder \<Rightarrow> Encoder option" where
  "enc_write data e =
     (let remaining_buffer_space = chunks_size e - enc_buffer_len e;
          bytes_to_buffer = min remaining_buffer_space (length data);
          e = e\<lparr>enc_buffer := enc_buffer e @ take bytes_to_buffer data\<rparr>;
          more_to_write = bytes_to_buffer < length data
      in Option.bind (if flush_after_write e \<or> more_to_write then send e else Some e) (\<lambda>e.
           if more_to_write then enc_write (drop bytes_to_buffer data) e else Some e))"

declare enc_write.simps [code]

definition enc_flush :: "Encoder \<Rightarrow> Encoder option" where
  "enc_flush e = send e"

text \<open>\<open>Drop\<close>: what the writer has when the encoder is gone.\<close>

definition enc_drop :: "Encoder \<Rightarrow> byte list option" where
  "enc_drop e = map_option (\<lambda>e. enc_output e @ [48] @ CRLF @ CRLF) (enc_flush e)"

section \<open>Decoder\<close>

datatype IoError = InvalidInput | SourceError

record Source =
  src_bytes :: "byte list"
  schedule :: "nat option list"

record Decoder =
  source :: Source
  remaining_chunks_size :: "usize option"

definition Decoder_new :: "Source \<Rightarrow> Decoder" where
  "Decoder_new s = \<lparr>source = s, remaining_chunks_size = None\<rparr>"

text \<open>One \<open>read\<close> of the source into a buffer of \<open>n\<close> bytes: at least one byte unless there is none or no room.\<close>

definition src_read :: "nat \<Rightarrow> Source \<Rightarrow> (IoError + byte list) \<times> Source" where
  "src_read n s =
     (case schedule s of
        None # rest \<Rightarrow> (Inl SourceError, s\<lparr>schedule := rest\<rparr>)
      | Some k # rest \<Rightarrow> (let m = min n (max k 1) in (Inr (take m (src_bytes s)), s\<lparr>src_bytes := drop m (src_bytes s), schedule := rest\<rparr>))
      | [] \<Rightarrow> (Inr (take n (src_bytes s)), s\<lparr>src_bytes := drop n (src_bytes s)\<rparr>))"

definition read_byte :: "Source \<Rightarrow> (IoError + byte) \<times> Source" where
  "read_byte s =
     (case src_read 1 s of
        (Inl e, s) \<Rightarrow> (Inl e, s)
      | (Inr [], s) \<Rightarrow> (Inl InvalidInput, s)
      | (Inr (b # _), s) \<Rightarrow> (Inr b, s))"

lemma read_byte_consumes: "read_byte s = (Inr b, s') \<Longrightarrow> length (src_bytes s') < length (src_bytes s)"
  by (cases "src_bytes s") (auto simp: read_byte_def src_read_def Let_def split: list.splits option.splits)

text \<open>The bytes before a carriage return or a semicolon, and whether it was a semicolon.\<close>

function read_size_bytes :: "Source \<Rightarrow> byte list \<Rightarrow> (IoError + byte list \<times> bool) \<times> Source" where
  "read_size_bytes s acc =
     (case read_byte s of
        (Inl e, s) \<Rightarrow> (Inl e, s)
      | (Inr b, s) \<Rightarrow>
          if b = 13 then (Inr (acc, False), s)
          else if b = 59 then (Inr (acc, True), s)
          else read_size_bytes s (acc @ [b]))"
  by auto
termination by (relation "measure (\<lambda>(s, acc). length (src_bytes s))") (auto dest: read_byte_consumes [OF sym])

function skip_extension :: "Source \<Rightarrow> (IoError + unit) \<times> Source" where
  "skip_extension s =
     (case read_byte s of
        (Inl e, s) \<Rightarrow> (Inl e, s)
      | (Inr b, s) \<Rightarrow> if b = 13 then (Inr (), s) else skip_extension s)"
  by auto
termination by (relation "measure (\<lambda>s. length (src_bytes s))") (auto dest: read_byte_consumes [OF sym])

declare read_size_bytes.simps [simp del] skip_extension.simps [simp del]

definition read_expected :: "byte \<Rightarrow> Source \<Rightarrow> (IoError + unit) \<times> Source" where
  "read_expected c s =
     (case read_byte s of
        (Inr b, s) \<Rightarrow> if b = c then (Inr (), s) else (Inl InvalidInput, s)
      | (Inl e, s) \<Rightarrow> (Inl InvalidInput, s))"

definition read_carriage_return :: "Source \<Rightarrow> (IoError + unit) \<times> Source" where
  "read_carriage_return s = read_expected 13 s"

definition read_line_feed :: "Source \<Rightarrow> (IoError + unit) \<times> Source" where
  "read_line_feed s = read_expected 10 s"

text \<open>Running a second reader after a first one that succeeded.\<close>

definition then_read :: "(IoError + 'a) \<times> Source \<Rightarrow> ('a \<Rightarrow> Source \<Rightarrow> (IoError + 'b) \<times> Source) \<Rightarrow> (IoError + 'b) \<times> Source" where
  "then_read r f = (case r of (Inl e, s) \<Rightarrow> (Inl e, s) | (Inr v, s) \<Rightarrow> f v s)"

definition read_chunk_size :: "Source \<Rightarrow> (IoError + usize) \<times> Source" where
  "read_chunk_size s =
     then_read (read_size_bytes s []) (\<lambda>(bytes, has_ext) s.
     then_read (if has_ext then skip_extension s else (Inr (), s)) (\<lambda>_ s.
     then_read (read_line_feed s) (\<lambda>_ s.
       case from_str_radix_16 (trim bytes) of
         None \<Rightarrow> (Inl InvalidInput, s)
       | Some n \<Rightarrow> (Inr n, s))))"

definition read_line_end :: "Source \<Rightarrow> (IoError + unit) \<times> Source" where
  "read_line_end s = then_read (read_carriage_return s) (\<lambda>_ s. read_line_feed s)"

text \<open>Reading the data of a chunk of which \<open>remaining\<close> bytes are left into a buffer of \<open>n\<close> bytes.\<close>

definition read_data :: "nat \<Rightarrow> usize \<Rightarrow> Decoder \<Rightarrow> (IoError + byte list) \<times> Decoder" where
  "read_data n remaining d =
     (if n < remaining
      then
        case src_read n (source d) of
          (Inl e, s) \<Rightarrow> (Inl e, d\<lparr>source := s\<rparr>)
        | (Inr bs, s) \<Rightarrow> (Inr bs, \<lparr>source = s, remaining_chunks_size = Some (remaining - length bs)\<rparr>)
      else
        case src_read remaining (source d) of
          (Inl e, s) \<Rightarrow> (Inl e, d\<lparr>source := s\<rparr>)
        | (Inr bs, s) \<Rightarrow>
            if length bs = remaining
            then
              case read_line_end s of
                (Inl e, s) \<Rightarrow> (Inl e, d\<lparr>source := s\<rparr>)
              | (Inr _, s) \<Rightarrow> (Inr bs, \<lparr>source = s, remaining_chunks_size = None\<rparr>)
            else (Inr bs, \<lparr>source = s, remaining_chunks_size = Some (remaining - length bs)\<rparr>))"

definition decoder_read :: "nat \<Rightarrow> Decoder \<Rightarrow> (IoError + byte list) \<times> Decoder" where
  "decoder_read n d =
     (case remaining_chunks_size d of
        Some remaining \<Rightarrow> read_data n remaining d
      | None \<Rightarrow>
          (case read_chunk_size (source d) of
             (Inl e, s) \<Rightarrow> (Inl e, d\<lparr>source := s\<rparr>)
           | (Inr chunk_size, s) \<Rightarrow>
               if chunk_size = 0
               then (case read_line_end s of
                       (Inl e, s) \<Rightarrow> (Inl e, d\<lparr>source := s\<rparr>)
                     | (Inr _, s) \<Rightarrow> (Inr [], d\<lparr>source := s\<rparr>))
               else read_data n chunk_size (d\<lparr>source := s\<rparr>)))"

end
