(* ===== verification/Chunked_Transfer_Run.thy ===== *)
theory Chunked_Transfer_Run
  imports Chunked_Transfer
begin

text \<open>
  Proofs about the chunked transfer coding: what the encoder writes for a sequence of writes is a sequence of
  whole chunks, and the decoder gives the same bytes back whatever the sizes of the reads on either
  side of it. Bodies that end early and chunk sizes the encoder cannot write are at the end.
\<close>

section \<open>Numbers\<close>

lemma hex_value_digit: "n < 16 \<Longrightarrow> hex_value (hex_digit n) = Some n"
  by (auto simp: hex_value_def hex_digit_def Let_def unat_of_nat split: if_splits)

definition is_hex :: "byte \<Rightarrow> bool" where
  "is_hex b \<longleftrightarrow> hex_value b \<noteq> None"

lemma hex_bytes_hex: "list_all is_hex (hex_bytes n)"
proof (induction n rule: hex_bytes.induct)
  case (1 n)
  moreover have "is_hex (hex_digit (n mod 16))" by (simp add: is_hex_def hex_value_digit)
  ultimately show ?case by (subst hex_bytes.simps) simp
qed

lemma hex_bytes_not_Nil [simp]: "hex_bytes n \<noteq> []"
  by (subst hex_bytes.simps) simp

lemma hex_digits_append:
  "hex_digits m (xs @ ys) = (case hex_digits m xs of None \<Rightarrow> None | Some k \<Rightarrow> hex_digits k ys)"
  by (induction m xs rule: hex_digits.induct) (simp_all split: option.split)

lemma hex_digits_bytes: "n \<le> u64_max \<Longrightarrow> hex_digits 0 (hex_bytes n) = Some n"
proof (induction n rule: hex_bytes.induct)
  case (1 n)
  show ?case
  proof (cases "n < 16")
    case True
    with 1(2) show ?thesis by (subst hex_bytes.simps) (simp add: hex_value_digit)
  next
    case False
    then have "hex_digits 0 (hex_bytes (n div 16)) = Some (n div 16)"
      using 1 by (meson div_le_dividend le_trans)
    with False 1(2) show ?thesis
      by (subst hex_bytes.simps) (simp add: hex_digits_append hex_value_digit)
  qed
qed

lemma from_str_hex: "n \<le> u64_max \<Longrightarrow> from_str_radix_16 (hex_bytes n) = Some n"
proof -
  assume n: "n \<le> u64_max"
  have "is_hex (hd (hex_bytes n))" using hex_bytes_hex [of n] by (cases "hex_bytes n") auto
  moreover have "\<not> is_hex 43" by code_simp
  ultimately have "hd (hex_bytes n) \<noteq> 43" by auto
  with n show ?thesis by (simp add: from_str_radix_16_def Let_def hex_digits_bytes)
qed

lemma white_space_not_hex: "list_all (\<lambda>w. w \<noteq> [] \<and> \<not> is_hex (hd w) \<and> \<not> is_hex (last w)) white_space"
  by code_simp

lemma trim_hex: "trim (hex_bytes n) = hex_bytes n"
proof -
  let ?bs = "hex_bytes n"
  have all: "list_all is_hex ?bs" by (rule hex_bytes_hex)
  have ws: "w \<noteq> [] \<and> \<not> is_hex (hd w) \<and> \<not> is_hex (last w)" if "w \<in> set white_space" for w
    using white_space_not_hex that by (auto simp: list_all_iff)
  have "take (length w) ?bs \<noteq> w" if w: "w \<in> set white_space" for w
  proof
    assume eq: "take (length w) ?bs = w"
    then have "hd w = hd ?bs" using ws [OF w] by (metis hd_take length_greater_0_conv)
    moreover have "is_hex (hd ?bs)" using all by (cases ?bs) auto
    ultimately show False using ws [OF w] by simp
  qed
  then have "strip_prefix ?bs = None" by (simp add: strip_prefix_def find_None_iff)
  moreover have "\<not> (length w \<le> length ?bs \<and> drop (length ?bs - length w) ?bs = w)" if w: "w \<in> set white_space" for w
  proof
    assume "length w \<le> length ?bs \<and> drop (length ?bs - length w) ?bs = w"
    then have "last w = last ?bs" using ws [OF w] by (metis last_drop diff_less length_greater_0_conv hex_bytes_not_Nil)
    moreover have "is_hex (last ?bs)" using all last_in_set [of ?bs] by (auto simp: list_all_iff)
    ultimately show False using ws [OF w] by simp
  qed
  then have "strip_suffix ?bs = None" by (simp add: strip_suffix_def find_None_iff)
  moreover have "trim_fuel f k bs = bs" if "f bs = None" for f k bs
    using that by (cases k) simp_all
  ultimately show ?thesis by (simp add: trim_def Let_def)
qed

lemma length_hex_bytes: "0 < k \<Longrightarrow> length (hex_bytes n) \<le> k \<longleftrightarrow> n < 16 ^ k"
proof (induction k arbitrary: n rule: nat_induct_non_zero)
  case 1
  show ?case by (subst hex_bytes.simps) (auto simp: Suc_le_eq)
next
  case (Suc k)
  show ?case
  proof (cases "n < 16")
    case True
    moreover have "(16::nat) \<le> 16 ^ Suc k" by simp
    ultimately have "n < 16 ^ Suc k" by linarith
    with True show ?thesis by (subst hex_bytes.simps) simp
  next
    case False
    have "n div 16 < 16 ^ k \<longleftrightarrow> n < 16 ^ Suc k" by (simp add: div_less_iff_less_mult mult.commute)
    with False Suc show ?thesis by (subst hex_bytes.simps) simp
  qed
qed

section \<open>The encoder\<close>

definition chunk :: "byte list \<Rightarrow> byte list" where
  "chunk c = hex_bytes (length c) @ CRLF @ c @ CRLF"

definition last_chunk :: "byte list" where
  "last_chunk = [48] @ CRLF @ CRLF"

definition buffered :: "Encoder \<Rightarrow> byte list" where
  "buffered e = drop MAX_HEADER_SIZE (enc_buffer e)"

text \<open>The buffer starts with room for the chunk header and never holds more than a chunk.\<close>

definition enc_ok :: "Encoder \<Rightarrow> bool" where
  "enc_ok e \<longleftrightarrow> MAX_HEADER_SIZE \<le> length (enc_buffer e) \<and> length (buffered e) \<le> chunks_size e
     \<and> 0 < chunks_size e \<and> chunks_size e \<le> 0xffff"

lemma send_effect:
  assumes "enc_ok e"
  obtains e' where "send e = Some e'" "enc_ok e'" "buffered e' = []" "chunks_size e' = chunks_size e"
    "flush_after_write e' = flush_after_write e"
    "enc_output e' = enc_output e @ (if buffered e = [] then [] else chunk (buffered e))"
proof (cases "buffered e = []")
  case True
  then show thesis using assms that [of e] by (simp add: send_def is_buffer_empty_def buffered_def enc_ok_def)
next
  case False
  define p where "p = hex_bytes (length (buffered e)) @ CRLF"
  have "length (buffered e) < 16 ^ 4" using assms by (simp add: enc_ok_def)
  then have len: "length p \<le> 6" using length_hex_bytes [of 4 "length (buffered e)"] by (simp add: CRLF_def p_def)
  have six: "6 \<le> length (enc_buffer e)" using assms by (simp add: enc_ok_def MAX_HEADER_SIZE_def)
  then have ne: "\<not> is_buffer_empty e" using False by (simp add: is_buffer_empty_def buffered_def MAX_HEADER_SIZE_def)
  have bl: "enc_buffer_len e = length (buffered e)" by (simp add: enc_buffer_len_def buffered_def)
  define b where "b = take (6 - length p) (enc_buffer e) @ p @ drop 6 (enc_buffer e) @ CRLF"
  let ?e = "reset_buffer (e\<lparr>enc_buffer := b, enc_output := enc_output e @ drop (6 - length p) b\<rparr>)"
  have e: "send e = Some ?e"
    using ne len unfolding send_def Let_def bl p_def [symmetric] MAX_HEADER_SIZE_def b_def by simp
  have off: "length (take (6 - length p) (enc_buffer e)) = 6 - length p" using six by simp
  have "drop (6 - length p) b = p @ drop 6 (enc_buffer e) @ CRLF"
    unfolding b_def using off by (metis append_eq_conv_conj)
  then have out: "drop (6 - length p) b = chunk (buffered e)"
    by (simp add: p_def chunk_def buffered_def MAX_HEADER_SIZE_def)
  have "6 \<le> length b" using off len by (simp add: b_def)
  then show thesis
    using that [OF e] assms False out by (simp add: enc_ok_def buffered_def reset_buffer_def MAX_HEADER_SIZE_def)
qed

text \<open>What an operation of the encoder adds to the output: whole chunks, and what is left in the buffer.\<close>

definition encodes :: "Encoder \<Rightarrow> byte list \<Rightarrow> Encoder \<Rightarrow> bool" where
  "encodes e data e' \<longleftrightarrow> enc_ok e' \<and> chunks_size e' = chunks_size e
     \<and> (\<exists>cs. enc_output e' = enc_output e @ concat (map chunk cs) \<and> concat cs @ buffered e' = buffered e @ data
            \<and> [] \<notin> set cs \<and> (\<forall>c \<in> set cs. length c \<le> chunks_size e))"

lemma encodes_trans: "encodes e a e1 \<Longrightarrow> encodes e1 b e2 \<Longrightarrow> encodes e (a @ b) e2"
proof -
  assume "encodes e a e1" "encodes e1 b e2"
  then obtain cs ds where "enc_output e1 = enc_output e @ concat (map chunk cs)" "concat cs @ buffered e1 = buffered e @ a"
    "[] \<notin> set cs" "\<forall>c \<in> set cs. length c \<le> chunks_size e"
    "enc_output e2 = enc_output e1 @ concat (map chunk ds)" "concat ds @ buffered e2 = buffered e1 @ b"
    "[] \<notin> set ds" "\<forall>c \<in> set ds. length c \<le> chunks_size e"
    "chunks_size e1 = chunks_size e" "enc_ok e2" "chunks_size e2 = chunks_size e1"
    unfolding encodes_def by auto
  then have "enc_output e2 = enc_output e @ concat (map chunk (cs @ ds))"
    "concat (cs @ ds) @ buffered e2 = buffered e @ a @ b" by (simp, metis append.assoc concat_append)
  then show ?thesis
    unfolding encodes_def using \<open>[] \<notin> set cs\<close> \<open>[] \<notin> set ds\<close> \<open>\<forall>c \<in> set cs. _ c\<close> \<open>\<forall>c \<in> set ds. _ c\<close>
      \<open>enc_ok e2\<close> \<open>chunks_size e1 = chunks_size e\<close> \<open>chunks_size e2 = chunks_size e1\<close>
    by (intro conjI exI [of _ "cs @ ds"]) auto
qed

lemma send_encodes:
  assumes "enc_ok e"
  obtains e' where "send e = Some e'" "encodes e [] e'" "buffered e' = []"
proof -
  obtain e' where e': "send e = Some e'" "enc_ok e'" "buffered e' = []" "chunks_size e' = chunks_size e"
    "enc_output e' = enc_output e @ (if buffered e = [] then [] else chunk (buffered e))"
    using send_effect [OF assms] by metis
  have "encodes e [] e'"
    unfolding encodes_def using e' assms
    by (intro conjI exI [of _ "if buffered e = [] then [] else [buffered e]"]) (auto simp: enc_ok_def)
  with e' that show thesis by blast
qed

lemma buffer_encodes:
  "enc_ok e \<Longrightarrow> length (buffered e) + length data \<le> chunks_size e \<Longrightarrow>
   encodes e data (e\<lparr>enc_buffer := enc_buffer e @ data\<rparr>)
     \<and> buffered (e\<lparr>enc_buffer := enc_buffer e @ data\<rparr>) = buffered e @ data"
  unfolding encodes_def by (intro conjI exI [of _ "[]"]) (auto simp: enc_ok_def buffered_def)

lemma enc_write_encodes:
  "enc_ok e \<Longrightarrow> \<exists>e'. enc_write data e = Some e' \<and> encodes e data e'"
proof (induction "length data + length (buffered e)" arbitrary: data e rule: less_induct)
  case less
  define k where "k = min (chunks_size e - enc_buffer_len e) (length data)"
  define e1 where "e1 = e\<lparr>enc_buffer := enc_buffer e @ take k data\<rparr>"
  have bl: "enc_buffer_len e = length (buffered e)" by (simp add: enc_buffer_len_def buffered_def)
  have bound: "length (buffered e) \<le> chunks_size e" "0 < chunks_size e" using less.prems by (simp_all add: enc_ok_def)
  have "length (buffered e) + length (take k data) \<le> chunks_size e" using bound by (simp add: k_def bl)
  from buffer_encodes [OF less.prems this]
  have e1: "encodes e (take k data) e1" "buffered e1 = buffered e @ take k data" by (simp_all add: e1_def)
  obtain e2 where e2: "send e1 = Some e2" "encodes e1 [] e2" "buffered e2 = []"
    using send_encodes e1(1) unfolding encodes_def by metis
  have e02: "encodes e (take k data) e2" using encodes_trans [OF e1(1) e2(2)] by simp
  have eq: "enc_write data e = Option.bind (if flush_after_write e1 \<or> k < length data then Some e2 else Some e1)
      (\<lambda>e. if k < length data then enc_write (drop k data) e else Some e)"
    by (subst enc_write.simps) (simp only: Let_def k_def [symmetric] e1_def [symmetric] e2(1))
  show ?case
  proof (cases "k < length data")
    case True
    then have "length (buffered e) + k = chunks_size e" using bound by (simp add: k_def bl)
    then have "length (drop k data) + length (buffered e2) < length data + length (buffered e)"
      using True bound(2) by (simp add: e2(3))
    moreover have "enc_ok e2" using e2(2) by (simp add: encodes_def)
    ultimately obtain e' where "enc_write (drop k data) e2 = Some e'" "encodes e2 (drop k data) e'"
      using less.hyps by blast
    then show ?thesis using encodes_trans [OF e02] eq True by fastforce
  next
    case False
    then have "take k data = data" by simp
    then show ?thesis using eq False e1(1) e02 by (cases "flush_after_write e1") auto
  qed
qed

text \<open>A sequence of writes and flushes.\<close>

datatype encoder_op = Write "byte list" | Flush

fun written :: "encoder_op list \<Rightarrow> byte list" where
  "written [] = []"
| "written (Write bs # ops) = bs @ written ops"
| "written (Flush # ops) = written ops"

fun encode_ops :: "encoder_op list \<Rightarrow> Encoder \<Rightarrow> Encoder option" where
  "encode_ops [] e = Some e"
| "encode_ops (Write bs # ops) e = Option.bind (enc_write bs e) (encode_ops ops)"
| "encode_ops (Flush # ops) e = Option.bind (enc_flush e) (encode_ops ops)"

lemma encodes_refl: "enc_ok e \<Longrightarrow> encodes e [] e"
  unfolding encodes_def by (intro conjI exI [of _ "[]"]) auto

lemma encode_ops_encodes: "enc_ok e \<Longrightarrow> \<exists>e'. encode_ops ops e = Some e' \<and> encodes e (written ops) e'"
proof (induction ops e rule: encode_ops.induct)
  case (1 e)
  then show ?case by (simp add: encodes_refl)
next
  case (2 bs ops e)
  from enc_write_encodes [OF 2(2)] obtain e1 where e1: "enc_write bs e = Some e1" "encodes e bs e1" by blast
  with 2(1) obtain e' where "encode_ops ops e1 = Some e'" "encodes e1 (written ops) e'" by (auto simp: encodes_def)
  with e1 encodes_trans [OF e1(2)] show ?case by auto
next
  case (3 ops e)
  obtain e1 where e1: "send e = Some e1" "encodes e [] e1" using send_encodes [OF 3(2)] by metis
  with 3(1) obtain e' where "encode_ops ops e1 = Some e'" "encodes e1 (written ops) e'"
    by (auto simp: encodes_def enc_flush_def)
  with e1 encodes_trans [OF e1(2)] show ?case by (auto simp: enc_flush_def)
qed

definition chunks_ok :: "byte list list \<Rightarrow> bool" where
  "chunks_ok cs \<longleftrightarrow> [] \<notin> set cs \<and> (\<forall>c \<in> set cs. length c \<le> u64_max)"

definition body :: "byte list list \<Rightarrow> byte list" where
  "body cs = concat (map chunk cs) @ last_chunk"

lemma encoder_output:
  assumes "enc_ok e" "buffered e = []"
  obtains cs where "Option.bind (encode_ops ops e) enc_drop = Some (enc_output e @ body cs)"
    "concat cs = written ops" "chunks_ok cs" "\<forall>c \<in> set cs. length c \<le> chunks_size e"
proof -
  obtain e1 where e1: "encode_ops ops e = Some e1" "encodes e (written ops) e1"
    using encode_ops_encodes [OF assms(1)] by blast
  obtain e2 where e2: "send e1 = Some e2" "encodes e1 [] e2" "buffered e2 = []"
    using send_encodes e1(2) unfolding encodes_def by metis
  obtain cs where cs: "enc_output e2 = enc_output e @ concat (map chunk cs)" "concat cs = written ops"
    "[] \<notin> set cs" "\<forall>c \<in> set cs. length c \<le> chunks_size e"
    using encodes_trans [OF e1(2) e2(2)] e2(3) assms(2) unfolding encodes_def by auto
  have "chunks_size e \<le> u64_max" using assms(1) by (simp add: enc_ok_def u64_max_def)
  with cs(3,4) have "chunks_ok cs" by (fastforce simp: chunks_ok_def)
  moreover have "Option.bind (encode_ops ops e) enc_drop = Some (enc_output e @ body cs)"
    using e1 e2 cs(1) by (simp add: enc_drop_def enc_flush_def body_def last_chunk_def)
  ultimately show thesis using cs that by blast
qed

lemma new_ok: "enc_ok (Encoder_new out)" "buffered (Encoder_new out) = []" "enc_output (Encoder_new out) = out"
  by (simp_all add: chunk_defs enc_ok_def buffered_def MAX_HEADER_SIZE_def)

lemma with_chunks_size_ok:
  "0 < n \<Longrightarrow> n \<le> 0xffff \<Longrightarrow> enc_ok (with_chunks_size out n)" "buffered (with_chunks_size out n) = []"
  "enc_output (with_chunks_size out n) = out"
  by (simp_all add: chunk_defs enc_ok_def buffered_def MAX_HEADER_SIZE_def MAX_CHUNK_SIZE_def)

section \<open>Readers on a source that does not fail\<close>

definition holds :: "Source \<Rightarrow> byte list \<Rightarrow> bool" where
  "holds s bs \<longleftrightarrow> src_bytes s = bs \<and> None \<notin> set (schedule s)"

definition reads_to :: "(IoError + 'a) \<times> Source \<Rightarrow> 'a \<Rightarrow> byte list \<Rightarrow> bool" where
  "reads_to r v bs \<longleftrightarrow> (\<exists>s. r = (Inr v, s) \<and> holds s bs)"

lemma src_read_holds:
  assumes "holds s bs" "0 < n"
  obtains m s' where "src_read n s = (Inr (take m bs), s')" "holds s' (drop m bs)" "0 < m" "m \<le> n"
proof (cases "schedule s")
  case Nil
  then show thesis using that [of n] assms by (auto simp: src_read_def holds_def)
next
  case (Cons k ks)
  then obtain j where "k = Some j" using assms by (cases k) (auto simp: holds_def)
  then show thesis using that [of "min n (max j 1)"] assms Cons by (auto simp: src_read_def holds_def Let_def)
qed

lemma read_byte_holds: "holds s (b # bs) \<Longrightarrow> reads_to (read_byte s) b bs"
proof -
  assume "holds s (b # bs)"
  then obtain m s' where "src_read 1 s = (Inr (take m (b # bs)), s')" "holds s' (drop m (b # bs))" "0 < m" "m \<le> 1"
    using src_read_holds [of s "b # bs" 1] by auto
  moreover then have "m = 1" by simp
  ultimately show ?thesis by (simp add: read_byte_def reads_to_def)
qed

lemma then_readI:
  "reads_to r v bs \<Longrightarrow> (\<And>s. holds s bs \<Longrightarrow> reads_to (f v s) w cs) \<Longrightarrow> reads_to (then_read r f) w cs"
  by (auto simp: reads_to_def then_read_def)

lemma read_expected_holds: "holds s (c # bs) \<Longrightarrow> reads_to (read_expected c s) () bs"
  using read_byte_holds [of s c bs] by (auto simp: reads_to_def read_expected_def)

lemma read_line_end_holds: "holds s (CRLF @ bs) \<Longrightarrow> reads_to (read_line_end s) () bs"
  unfolding read_line_end_def read_carriage_return_def read_line_feed_def CRLF_def
  by (rule then_readI [where bs = "10 # bs"]) (auto intro: read_expected_holds)

lemma read_size_bytes_holds:
  "holds s (ds @ 13 # bs) \<Longrightarrow> 13 \<notin> set ds \<Longrightarrow> 59 \<notin> set ds \<Longrightarrow> reads_to (read_size_bytes s acc) (acc @ ds, False) bs"
proof (induction ds arbitrary: s acc)
  case Nil
  then have "reads_to (read_byte s) 13 bs" using read_byte_holds [of s 13 bs] by simp
  then show ?case by (subst read_size_bytes.simps) (auto simp: reads_to_def)
next
  case (Cons d ds)
  then obtain s' where "read_byte s = (Inr d, s')" "holds s' (ds @ 13 # bs)"
    using read_byte_holds [of s d "ds @ 13 # bs"] by (auto simp: reads_to_def)
  then show ?case using Cons.IH [of s' "acc @ [d]"] Cons.prems by (subst read_size_bytes.simps) simp
qed

lemma read_chunk_size_holds:
  assumes "holds s (hex_bytes n @ CRLF @ bs)" "n \<le> u64_max"
  shows "reads_to (read_chunk_size s) n bs"
proof -
  have "\<not> is_hex 13" "\<not> is_hex 59" by code_simp+
  then have "13 \<notin> set (hex_bytes n)" "59 \<notin> set (hex_bytes n)" using hex_bytes_hex [of n] by (auto simp: list_all_iff)
  then have *: "reads_to (read_size_bytes s []) (hex_bytes n, False) (10 # bs)"
    using read_size_bytes_holds [of s "hex_bytes n" "10 # bs" "[]"] assms(1) by (simp add: CRLF_def)
  have "reads_to (then_read (read_line_feed s') (\<lambda>_ s. case from_str_radix_16 (trim (hex_bytes n)) of
         None \<Rightarrow> (Inl InvalidInput, s) | Some n \<Rightarrow> (Inr n, s))) n bs" if "holds s' (10 # bs)" for s'
    by (rule then_readI [where bs = bs])
      (use that assms(2) in \<open>auto simp: read_line_feed_def trim_hex from_str_hex reads_to_def [of "(Inr n, _)"] intro: read_expected_holds\<close>)
  then have "reads_to (then_read (Inr (), s') (\<lambda>_ s. then_read (read_line_feed s) (\<lambda>_ s. case from_str_radix_16 (trim (hex_bytes n)) of
         None \<Rightarrow> (Inl InvalidInput, s) | Some n \<Rightarrow> (Inr n, s)))) n bs" if "holds s' (10 # bs)" for s'
    using that by (simp add: then_read_def [of "(Inr (), s')"])
  then show ?thesis unfolding read_chunk_size_def by (intro then_readI [OF *]) simp
qed

section \<open>The decoder\<close>

text \<open>
  Where the decoder stands in a body: between two chunks, or inside one of which \<open>c\<close> is left. \<open>data\<close> is
  what it still has to give and \<open>rest\<close> what follows the body in the source.
\<close>

inductive decodes :: "Decoder \<Rightarrow> byte list \<Rightarrow> byte list \<Rightarrow> bool" where
  between: "chunks_ok cs \<Longrightarrow> remaining_chunks_size d = None \<Longrightarrow> holds (source d) (body cs @ rest)
     \<Longrightarrow> decodes d (concat cs) rest"
| inside: "chunks_ok cs \<Longrightarrow> c \<noteq> [] \<Longrightarrow> remaining_chunks_size d = Some (length c)
     \<Longrightarrow> holds (source d) (c @ CRLF @ body cs @ rest) \<Longrightarrow> decodes d (c @ concat cs) rest"

lemma read_data_decodes:
  assumes "chunks_ok cs" "c \<noteq> []" "holds (source d) (c @ CRLF @ body cs @ rest)" "0 < n"
  obtains m d' where "read_data n (length c) d = (Inr (take m c), d')" "0 < m" "m \<le> length c"
    "decodes d' (drop m c @ concat cs) rest"
proof (cases "n < length c")
  case True
  obtain m s' where m: "src_read n (source d) = (Inr (take m (c @ CRLF @ body cs @ rest)), s')"
    "holds s' (drop m (c @ CRLF @ body cs @ rest))" "0 < m" "m \<le> n" by (rule src_read_holds [OF assms(3,4)])
  have le: "m < length c" using m True by simp
  then have tk: "take m (c @ CRLF @ body cs @ rest) = take m c"
    "drop m (c @ CRLF @ body cs @ rest) = drop m c @ CRLF @ body cs @ rest" by simp_all
  let ?d = "\<lparr>source = s', remaining_chunks_size = Some (length c - m)\<rparr>"
  have "read_data n (length c) d = (Inr (take m c), ?d)"
    using True m(1) le by (simp add: read_data_def tk)
  moreover have "decodes ?d (drop m c @ concat cs) rest"
    by (rule inside) (use assms(1) le m(2) in \<open>simp_all add: tk\<close>)
  ultimately show thesis using that [of m ?d] m le by simp
next
  case False
  have pos: "0 < length c" using assms(2) by simp
  obtain m s' where m: "src_read (length c) (source d) = (Inr (take m (c @ CRLF @ body cs @ rest)), s')"
    "holds s' (drop m (c @ CRLF @ body cs @ rest))" "0 < m" "m \<le> length c" by (rule src_read_holds [OF assms(3) pos])
  have tk: "take m (c @ CRLF @ body cs @ rest) = take m c"
    "drop m (c @ CRLF @ body cs @ rest) = drop m c @ CRLF @ body cs @ rest" using m(4) by simp_all
  show thesis
  proof (cases "m = length c")
    case True
    with m(2) tk have "reads_to (read_line_end s') () (body cs @ rest)" by (intro read_line_end_holds) simp
    then obtain t where t: "read_line_end s' = (Inr (), t)" "holds t (body cs @ rest)" by (auto simp: reads_to_def)
    let ?d = "\<lparr>source = t, remaining_chunks_size = None\<rparr>"
    have "read_data n (length c) d = (Inr (take m c), ?d)"
      using False m(1) True t(1) by (simp add: read_data_def)
    moreover have "decodes ?d (concat cs) rest" by (rule between) (use assms(1) t in simp_all)
    ultimately show thesis using that [of m ?d] True m by simp
  next
    case neq: False
    let ?d = "\<lparr>source = s', remaining_chunks_size = Some (length c - m)\<rparr>"
    have "read_data n (length c) d = (Inr (take m c), ?d)"
      using False m(1,4) neq by (simp add: read_data_def tk)
    moreover have "decodes ?d (drop m c @ concat cs) rest"
      by (rule inside) (use assms(1) m neq in \<open>simp_all add: tk\<close>)
    ultimately show thesis using that [of m ?d] m by simp
  qed
qed

lemma decoder_read_end:
  assumes "decodes d [] rest"
  shows "\<exists>d'. decoder_read n d = (Inr [], d') \<and> src_bytes (source d') = rest"
  using assms
proof (cases rule: decodes.cases)
  case (between cs)
  then have cs: "cs = []" by (cases cs) (auto simp: chunks_ok_def)
  have "[48] = hex_bytes 0" by code_simp
  then have "holds (source d) (hex_bytes 0 @ CRLF @ CRLF @ rest)" using between cs by (simp add: body_def last_chunk_def)
  then have "reads_to (read_chunk_size (source d)) 0 (CRLF @ rest)" by (rule read_chunk_size_holds) simp
  then obtain s where s: "read_chunk_size (source d) = (Inr 0, s)" "holds s (CRLF @ rest)" by (auto simp: reads_to_def)
  from read_line_end_holds [OF s(2)] obtain t where "read_line_end s = (Inr (), t)" "holds t rest"
    by (auto simp: reads_to_def)
  with s between show ?thesis by (simp add: decoder_read_def holds_def)
qed simp

lemma decoder_read_more:
  assumes "decodes d data rest" "data \<noteq> []" "0 < n"
  obtains m d' where "decoder_read n d = (Inr (take m data), d')" "0 < m" "decodes d' (drop m data) rest"
  using assms(1)
proof (cases rule: decodes.cases)
  case (inside cs c)
  from read_data_decodes [OF inside(2,3,5) assms(3)] obtain m d' where
    "read_data n (length c) d = (Inr (take m c), d')" "0 < m" "m \<le> length c" "decodes d' (drop m c @ concat cs) rest" .
  with that [of m d'] inside show thesis by (simp add: decoder_read_def)
next
  case (between cs)
  then obtain c cs' where cs: "cs = c # cs'" using assms(2) by (cases cs) auto
  then have c: "c \<noteq> []" "length c \<le> u64_max" "chunks_ok cs'" using between by (auto simp: chunks_ok_def)
  have "holds (source d) (hex_bytes (length c) @ CRLF @ c @ CRLF @ body cs' @ rest)"
    using between cs by (simp add: body_def chunk_def)
  then obtain s where s: "read_chunk_size (source d) = (Inr (length c), s)" "holds s (c @ CRLF @ body cs' @ rest)"
    using read_chunk_size_holds c(2) unfolding reads_to_def by blast
  then have "holds (source (d\<lparr>source := s\<rparr>)) (c @ CRLF @ body cs' @ rest)" by simp
  from read_data_decodes [OF c(3,1) this assms(3)] obtain m d' where
    "read_data n (length c) (d\<lparr>source := s\<rparr>) = (Inr (take m c), d')" "0 < m" "m \<le> length c"
    "decodes d' (drop m c @ concat cs') rest" .
  with that [of m d'] between s cs c show thesis by (simp add: decoder_read_def)
qed

text \<open>
  Reading a body with a buffer of the given size each time, until \<open>read\<close> returns \<open>Ok(0)\<close>; the flag says
  that it did before the sizes ran out.
\<close>

fun read_to_end :: "nat list \<Rightarrow> Decoder \<Rightarrow> (IoError + byte list \<times> bool) \<times> Decoder" where
  "read_to_end [] d = (Inr ([], False), d)"
| "read_to_end (n # ns) d =
     (case decoder_read n d of
        (Inl e, d) \<Rightarrow> (Inl e, d)
      | (Inr bs, d) \<Rightarrow>
          if bs = [] then (Inr ([], True), d)
          else (case read_to_end ns d of
                  (Inl e, d) \<Rightarrow> (Inl e, d)
                | (Inr (cs, complete), d) \<Rightarrow> (Inr (bs @ cs, complete), d)))"

lemma read_to_end_decodes:
  "decodes d data rest \<Longrightarrow> 0 \<notin> set ns \<Longrightarrow> length data < length ns \<Longrightarrow>
   \<exists>d'. read_to_end ns d = (Inr (data, True), d') \<and> src_bytes (source d') = rest"
proof (induction ns arbitrary: d data)
  case (Cons n ns)
  show ?case
  proof (cases "data = []")
    case True
    with Cons.prems(1) obtain d' where "decoder_read n d = (Inr [], d')" "src_bytes (source d') = rest"
      using decoder_read_end by blast
    with True show ?thesis by simp
  next
    case False
    from Cons.prems(2) have "0 < n" by auto
    from decoder_read_more [OF Cons.prems(1) False this] obtain m d1 where
      d1: "decoder_read n d = (Inr (take m data), d1)" "0 < m" "decodes d1 (drop m data) rest" .
    with Cons.prems have "length (drop m data) < length ns" "0 \<notin> set ns"
      using False by (cases data; auto)+
    from Cons.IH [OF d1(3) this(2,1)] obtain d' where
      "read_to_end ns d1 = (Inr (drop m data, True), d')" "src_bytes (source d') = rest" by blast
    with d1 False show ?thesis by simp
  qed
qed simp

section \<open>Properties\<close>

definition encode_body :: "Encoder \<Rightarrow> encoder_op list \<Rightarrow> byte list option" where
  "encode_body e ops = Option.bind (encode_ops ops e) enc_drop"

text \<open>
  C15: What an encoder with chunks of up to 65535 bytes writes for any sequence of writes and flushes before
  it is dropped, a decoder gives back exactly: for every split of the transport's bytes over the source's
  reads and every sequence of read buffers, the reads give the written data in order and then end,
  and the bytes that follow the body are left in the source.
\<close>

theorem chunked_roundtrip:
  assumes "e = Encoder_new out \<or> (\<exists>n. 0 < n \<and> n \<le> 0xffff \<and> e = with_chunks_size out n)"
    and "None \<notin> set sched" and "0 \<notin> set sizes" and "length (written ops) < length sizes"
  shows "\<exists>wire. encode_body e ops = Some (out @ wire)
    \<and> (\<exists>d'. read_to_end sizes (Decoder_new \<lparr>src_bytes = wire @ rest, schedule = sched\<rparr>)
               = (Inr (written ops, True), d') \<and> src_bytes (source d') = rest)"
proof -
  have e: "enc_ok e" "buffered e = []" "enc_output e = out"
    using assms(1) by (auto simp: new_ok with_chunks_size_ok)
  obtain cs where cs: "encode_body e ops = Some (enc_output e @ body cs)" "concat cs = written ops" "chunks_ok cs"
    unfolding encode_body_def by (rule encoder_output [OF e(1,2)])
  let ?d = "Decoder_new \<lparr>src_bytes = body cs @ rest, schedule = sched\<rparr>"
  have "decodes ?d (concat cs) rest"
    by (rule between) (use cs assms(2) in \<open>simp_all add: Decoder_new_def holds_def\<close>)
  with cs assms(3,4) have "\<exists>d'. read_to_end sizes ?d = (Inr (written ops, True), d') \<and> src_bytes (source d') = rest"
    using read_to_end_decodes by metis
  with cs(1) e(3) show ?thesis by auto
qed

theorem chunked_roundtrip_witness:
  "\<exists>wire. encode_body (with_chunks_size [7] 3) [Write [1, 2, 3, 4, 5], Flush, Write [6]] = Some ([7] @ wire)
    \<and> (\<exists>d'. read_to_end [2, 1, 2, 5, 1, 1, 1, 1] (Decoder_new \<lparr>src_bytes = wire @ [9, 9], schedule = [Some 1, Some 0]\<rparr>)
               = (Inr (written [Write [1, 2, 3, 4, 5], Flush, Write [6]], True), d') \<and> src_bytes (source d') = [9, 9])"
proof (rule chunked_roundtrip)
  show "with_chunks_size [7] 3 = Encoder_new [7]
      \<or> (\<exists>n. 0 < n \<and> n \<le> 0xffff \<and> with_chunks_size [7] 3 = with_chunks_size [7] n)"
    by (intro disjI2 exI [of _ 3]) simp
qed simp_all

text \<open>
  A source that ends inside a chunk: the reads give what there was and then \<open>Ok(0)\<close>, as at the end of a
  complete body.
\<close>

lemma read_data_short:
  assumes "holds (source d) y" "length y < k" "0 < n"
  obtains m d' where "read_data n k d = (Inr (take m y), d')" "0 < m" "holds (source d') (drop m y)"
    "remaining_chunks_size d' = Some (k - length (take m y))"
proof -
  let ?r = "if n < k then n else k"
  have r: "0 < ?r" using assms by auto
  obtain m s' where m: "src_read ?r (source d) = (Inr (take m y), s')" "holds s' (drop m y)" "0 < m"
    by (rule src_read_holds [OF assms(1) r])
  let ?d = "\<lparr>source = s', remaining_chunks_size = Some (k - length (take m y))\<rparr>"
  have "length (take m y) \<noteq> k" using assms(2) by simp
  then have "read_data n k d = (Inr (take m y), ?d)"
    using m(1) by (cases "n < k") (simp_all add: read_data_def del: length_take)
  then show thesis using that [of m ?d] m by simp
qed

lemma read_to_end_short:
  "remaining_chunks_size d = Some k \<Longrightarrow> holds (source d) y \<Longrightarrow> length y < k \<Longrightarrow> 0 \<notin> set ns \<Longrightarrow> length y < length ns \<Longrightarrow>
   \<exists>d'. read_to_end ns d = (Inr (y, True), d')"
proof (induction ns arbitrary: d k y)
  case (Cons n ns)
  then have n: "0 < n" by auto
  obtain m d1 where d1: "read_data n k d = (Inr (take m y), d1)" "0 < m" "holds (source d1) (drop m y)"
    "remaining_chunks_size d1 = Some (k - length (take m y))"
    by (rule read_data_short [OF Cons.prems(2,3) n])
  show ?case
  proof (cases "y = []")
    case True
    with d1 Cons.prems(1) show ?thesis by (simp add: decoder_read_def)
  next
    case False
    have "length (drop m y) < k - length (take m y)" using Cons.prems(3) by (auto simp: min_def)
    moreover have "length (drop m y) < length ns" "0 \<notin> set ns"
      using Cons.prems d1(2) False by (cases y; auto)+
    ultimately obtain d' where "read_to_end ns d1 = (Inr (drop m y, True), d')"
      using Cons.IH [OF d1(4,3)] by blast
    with d1 False Cons.prems(1) show ?thesis by (simp add: decoder_read_def)
  qed
qed simp

text \<open>
  C37: A body cut off inside its first chunk is not told from a complete one: when the source ends \<open>j\<close> bytes
  into that chunk the reads give these bytes and then \<open>Ok(0)\<close>, the same end as after the last chunk, and no error.
\<close>

theorem truncated_body_ends_clean:
  assumes "0 < j" and "j < length c" and "length c \<le> u64_max"
    and "None \<notin> set sched" and "0 \<notin> set sizes" and "j < length sizes"
  shows "\<exists>d'. read_to_end sizes (Decoder_new \<lparr>src_bytes = take (length (hex_bytes (length c)) + 2 + j) (chunk c), schedule = sched\<rparr>)
    = (Inr (take j c, True), d')"
proof -
  let ?d = "Decoder_new \<lparr>src_bytes = take (length (hex_bytes (length c)) + 2 + j) (chunk c), schedule = sched\<rparr>"
  obtain n ns where sizes: "sizes = n # ns" "0 < n" using assms(5,6) by (cases sizes) auto
  have "holds (source ?d) (hex_bytes (length c) @ CRLF @ take j c)"
    using assms by (simp add: Decoder_new_def holds_def chunk_def CRLF_def)
  then obtain s where s: "read_chunk_size (source ?d) = (Inr (length c), s)" "holds s (take j c)"
    using read_chunk_size_holds assms(3) unfolding reads_to_def by blast
  then have src: "holds (source (?d\<lparr>source := s\<rparr>)) (take j c)" by simp
  have short: "length (take j c) < length c" using assms by simp
  obtain m d1 where d1: "read_data n (length c) (?d\<lparr>source := s\<rparr>) = (Inr (take m (take j c)), d1)" "0 < m"
    "holds (source d1) (drop m (take j c))"
    "remaining_chunks_size d1 = Some (length c - length (take m (take j c)))"
    by (rule read_data_short [OF src short sizes(2)])
  have "length (drop m (take j c)) < length c - length (take m (take j c))" using assms by (auto simp: min_def)
  moreover have "length (drop m (take j c)) < length ns" "0 \<notin> set ns" using assms d1(2) sizes by auto
  ultimately obtain d' where "read_to_end ns d1 = (Inr (drop m (take j c), True), d')"
    using read_to_end_short [OF d1(4,3)] by blast
  moreover have "decoder_read n ?d = (Inr (take m (take j c)), d1)"
    using s(1) d1(1) assms by (auto simp: decoder_read_def Decoder_new_def)
  moreover have "take m (take j c) \<noteq> []" using d1(2) assms by auto
  ultimately show ?thesis unfolding sizes(1) read_to_end.simps by (simp del: take_take)
qed

theorem truncated_body_ends_clean_witness:
  "\<exists>d'. read_to_end [4, 4, 4, 4] (Decoder_new
       \<lparr>src_bytes = take (length (hex_bytes (length [1, 2, 3, 4, 5 :: byte])) + 2 + 3) (chunk [1, 2, 3, 4, 5]), schedule = []\<rparr>)
    = (Inr (take 3 [1, 2, 3, 4, 5], True), d')"
  by (rule truncated_body_ends_clean) (simp_all add: u64_max_def)

text \<open>
  Sending what is buffered panics exactly when it needs more than four hexadecimal digits for its
  length, so an encoder made with a chunk size above 65535 panics as soon as a larger chunk is due.
\<close>

lemma send_panics_iff: "send e = None \<longleftrightarrow> \<not> is_buffer_empty e \<and> 0x10000 \<le> enc_buffer_len e"
  using length_hex_bytes [of 4 "enc_buffer_len e"]
  by (auto simp: send_def Let_def MAX_HEADER_SIZE_def CRLF_def not_less)

lemma large_chunk_panics:
  assumes "0x10000 \<le> n" "n \<le> MAX_CHUNK_SIZE" "n \<le> length data"
  shows "encode_body (with_chunks_size out n) [Write data, Flush] = None"
proof -
  let ?e = "with_chunks_size out n"
  let ?e1 = "?e\<lparr>enc_buffer := enc_buffer ?e @ take n data\<rparr>"
  have len: "enc_buffer_len ?e = 0" "chunks_size ?e = n" using assms(2) by (simp_all add: chunk_defs)
  have "length (enc_buffer ?e1) = 6 + n" using assms by (simp add: chunk_defs MAX_HEADER_SIZE_def)
  then have "send ?e1 = None" using assms(1) by (simp add: send_panics_iff is_buffer_empty_def enc_buffer_len_def MAX_HEADER_SIZE_def)
  moreover have "\<not> flush_after_write ?e1" by (simp add: chunk_defs)
  ultimately have "enc_write data ?e = (if n < length data then None else Some ?e1)"
    using assms(3) by (subst enc_write.simps) (simp add: Let_def len)
  with \<open>send ?e1 = None\<close> show ?thesis
    by (simp add: encode_body_def enc_flush_def del: take_all take_all_iff)
qed

text \<open>A chunk size of zero: writing anything never returns.\<close>

lemma zero_chunk_size_hangs:
  assumes "data \<noteq> []"
  shows "enc_write data (with_chunks_size out 0) = None"
proof -
  have "\<not> (data \<noteq> [] \<and> chunks_size e = 0 \<and> is_buffer_empty e)" if "enc_write data e = Some r" for data e r
  proof (rule enc_write.raw_induct [of "\<lambda>data e r. \<not> (data \<noteq> [] \<and> chunks_size e = 0 \<and> is_buffer_empty e)", OF _ that], rule notI)
    fix f data e r
    assume IH: "\<And>data e r. f data e = Some r \<Longrightarrow> \<not> (data \<noteq> [] \<and> chunks_size e = 0 \<and> is_buffer_empty e)"
      and run: "(let remaining_buffer_space = chunks_size e - enc_buffer_len e;
          bytes_to_buffer = min remaining_buffer_space (length data);
          e = e\<lparr>enc_buffer := enc_buffer e @ take bytes_to_buffer data\<rparr>;
          more_to_write = bytes_to_buffer < length data
        in Option.bind (if flush_after_write e \<or> more_to_write then send e else Some e) (\<lambda>e.
           if more_to_write then f (drop bytes_to_buffer data) e else Some e)) = Some r"
      and a: "data \<noteq> [] \<and> chunks_size e = 0 \<and> is_buffer_empty e"
    have "f data e = Some r" using run a by (simp add: Let_def send_def)
    with IH a show False by blast
  qed
  moreover have "chunks_size (with_chunks_size out 0) = 0" "is_buffer_empty (with_chunks_size out 0)"
    by (simp_all add: chunk_defs)
  ultimately show ?thesis using assms by (meson not_Some_eq)
qed

end
