(* ===== verification/Spec2Isabelle.thy ===== *)
theory Spec2Isabelle
  imports
    Media_Frame
    Pre_Record_Run
    Nal
    Event_Trace
    Mqtt_Outbox
    Storage_Safety
    Short_Term
    Recording_Policy
    Recording_Demand
    Notification_State
    Battery_Wake_Run
    Retention_Run
    Browser_Sessions_Run
    Bc_Udp_Run
    Bc_Framing_Run
    Chunked_Transfer_Run
begin

text \<open>
  KeepPeek is a network video recorder. Cameras deliver encoded frames. The storage engine keeps a short
  history of each stream in memory (pre-record and short-term buffers), decides which streams to
  record (recording policy and demand), writes recordings, and replays the history in front of the
  live frames when an event starts a recording. Storage safety and retention decide when recordings
  are removed. Events leave the program as notifications and as MQTT publications, which wait in
  bounded queues. Sleeping battery cameras are woken before a connection, and Reolink cameras speak a
  protocol of their own over TCP or over UDP with retransmission.

  \<^bold>\<open>Shared\<close>
  \<^item> \<open>KP_Prelude\<close>: machine integers, the monotonic clock, results and options, \<open>BTreeMap\<close> as a sorted
    list of entries, and the interfaces that the components share: \<open>keyed_map\<close>, \<open>insert_map\<close> and
    \<open>removable_map\<close> for maps, \<open>machine\<close> for an invariant over runs.
  \<^item> \<open>Simulation\<close>: machines with replies, and the interface of a refinement (\<open>simulation\<close>).
  \<^item> \<open>Media_Frame\<close>: frames, stream identities and media time (\<open>storage/frame.rs\<close>, \<open>storage/segment.rs\<close>,
    \<open>storage/identity.rs\<close>, \<open>media_time.rs\<close>). Ticks and durations convert without loss.

  \<^bold>\<open>Event recording\<close>
  \<^item> \<open>Pre_Record\<close>: the pre-record registry of \<open>src/src/storage/pre_record.rs\<close>. The shared budgets are an
    explicit heap; \<open>Drop\<close> is an explicit release. \<open>Pre_Record_Laws\<close>: its memory accounting and the shape of
    its histories, for every operation. \<open>Pre_Record_Gaps\<close>: histories have no gaps. \<open>Pre_Record_Run\<close>:
    any sequence of operations, and the properties of the component: memory bounds, gapless histories,
    decodable replays.
  \<^item> \<open>Nal\<close>: the Annex B and AVCC framings of \<open>src/src/storage/nal.rs\<close> and the decoder configuration of
    a frame (\<open>src/src/storage/medium_term.rs\<close>). The parameter-set parsers of the vendored \<open>retina\<close> crate are
    parameters of the model.
  \<^item> \<open>Event_Recording\<close>: the event recorder of \<open>src/src/storage/event_recording.rs\<close>, on top of the
    pre-record registry. \<open>Event_Window\<close>: one camera's window, as a step relation. \<open>Event_Run\<close>: every
    operation moves the windows along these steps. \<open>Event_Trace\<close>: any sequence of operations, and the
    properties: order of the output, fairness between cameras, bounds. The fuel of \<open>release_loop\<close> is the
    number of released frames; it is enough (\<open>release_continuous_empties\<close>).

  \<^bold>\<open>Recording decisions\<close>
  \<^item> \<open>Short_Term\<close>: the buffer of \<open>src/src/storage/short_term.rs\<close>: exact byte counts, where a drain cuts,
    and when it loses frames (\<open>drain_loses_open_group\<close>).
  \<^item> \<open>Recording_Policy\<close>: \<open>src/src/storage/recording_policy.rs\<close>: boost mode changes streams at keyframes only.
  \<^item> \<open>Recording_Demand\<close>: \<open>src/src/storage/demand.rs\<close>: viewers are counted exactly, and the grace period.
  \<^item> \<open>Storage_Safety\<close>: \<open>src/src/storage/safety.rs\<close>: cleanup targets suffice, a pause of recording is justified
    and ends.
  \<^item> \<open>Retention\<close>: rules, decisions, settings and commitments of \<open>src/src/storage/retention.rs\<close>,
    \<open>src/src/storage/retention/settings.rs\<close> and \<open>src/src/storage/catalog/retention.rs\<close>. \<open>Retention_Run\<close>:
    decisions are exact and never refused without a reason, cameras inherit the defaults, policies are
    well formed, and committed deadlines are kept. Answers of the database, SHA-256 and the conversion of fractional days are
    parameters.

  \<^bold>\<open>Outgoing events and cameras\<close>
  \<^item> \<open>Mqtt_Outbox\<close>: \<open>src/src/event_forwarder/outbox.rs\<close>, and that it refines an abstract feed.
  \<^item> \<open>Notification_State\<close>: \<open>src/src/notifications/state.rs\<close>: pruning keeps work in progress and bounds
    everything else, the history is ordered and only grows at its end whatever the other modules write to
    the shared maps, cancelling is exact.
  \<^item> \<open>Battery_Wake\<close>: the registry, listeners, packets and client of \<open>src/src/battery_wake.rs\<close>. Packets are
    lists of XML events; \<open>Battery_Wake_Run\<close>: a wake request works end to end, only cameras that asked for it
    are woken, and the registry is bounded. The receive loop of the client is a list of passes, so it ends.

  \<^bold>\<open>Access\<close>
  \<^item> \<open>Browser_Sessions\<close>: the session store of \<open>src/src/access/browser_sessions.rs\<close>. \<open>Browser_Sessions_Run\<close>: any
    sequence of operations keeps its limits, a session that authenticates was issued and not revoked
    since, and an issued cookie works. SHA-256 and the text form of identifiers are parameters.

  \<^bold>\<open>Camera protocol and HTTP coding\<close>
  \<^item> \<open>Bc_Wire\<close>: the packets of the Reolink UDP transport in \<open>src/crates/reo-proto/src/udp.rs\<close> and their codec
    (the interface \<open>packet_codec\<close>), which is a bijection. CRC-32 is a parameter.
  \<^item> \<open>Bc_Udp\<close>: the transport itself and the polling loop of \<open>run_udp_pump\<close> in \<open>src/src/reolink.rs\<close>.
    \<open>Bc_Udp_Laws\<close>: two transports and a network that loses, repeats and reorders datagrams, as a step
    relation, and the invariant of that network. \<open>Bc_Udp_Run\<close>: every step keeps the invariant; data is
    delivered in order, nothing is forgotten, resending completes the stream, polling ends. Packet
    numbers are 32-bit words and wrap.
  \<^item> \<open>Bc_Framing\<close>: headers, read buffer and ciphers of \<open>magic.rs\<close>, \<open>header.rs\<close>, \<open>framing.rs\<close> and
    \<open>encryption.rs\<close> of the same crate, with MD5 and AES as parameters. \<open>Bc_Framing_Run\<close>: the read buffer
    recovers the messages of a stream, with foreign bytes around them, from any fragments of it; the ciphers are inverse to each other.
  \<^item> \<open>Chunked_Transfer\<close>: the encoder and the decoder of \<open>src/crates/chunked-transfer/src\<close>.
    \<open>Chunked_Transfer_Run\<close>: the decoder gives back what the encoder was given; what happens to bodies that
    are cut off and to chunk sizes that do not fit the header. The fuel of \<open>trim_fuel\<close> is the length of
    the text, of which every step takes at least one byte.

  \<^bold>\<open>Conventions\<close>
  \<^item> \<open>usize\<close> and \<open>u64\<close> are natural numbers, \<open>i64\<close> is \<open>int\<close>; wrapping, saturating and checked operations
    are written out. Instants and durations are nanoseconds.
  \<^item> A \<open>HashMap\<close> or \<open>HashSet\<close> whose order can matter is the list of its elements in iteration order, which
    is arbitrary. A failed \<open>expect\<close> or assertion is \<open>None\<close>; errors are on the left of a sum.
  \<^item> Clocks, random numbers and answers of the operating system are arguments. Locks are not modelled: an
    operation is one step, and a run is a sequence of operations.

  \<^bold>\<open>Not modelled\<close>
  \<^item> Servers, sessions and network protocols: \<open>server.rs\<close>, \<open>webrtc.rs\<close>, \<open>rtsp.rs\<close>, \<open>access.rs\<close>, \<open>isapi.rs\<close>,
    \<open>reolink.rs\<close> and the other crates under \<open>crates\<close>: mostly input and output. The command session of
    \<open>reo-proto\<close> works on XML that a third-party crate reads and writes.
  \<^item> The recording catalog, the archive, playback, backup and state store: SQL transactions and files.
  \<^item> Configuration parsing, logging, metrics and the browser interface.
\<close>

end
